(* ===== verification/Prelude.thy ===== *)
theory Prelude
  imports Main "HOL-Library.Word"
begin

text \<open>
  Shared vocabulary of the development: the C integer types of \<open>kernel/type.h\<close> as words, the
  faults a kernel routine can end in, sequencing of routines that may fault, and the byte
  memory (loads and stores of 64-bit words, ranges of bytes, pages) that the allocator, the
  page tables and the copy routines work on.
\<close>

unbundle bit_operations_syntax

section \<open>Integer types\<close>

type_synonym u8 = "8 word"
type_synonym u16 = "16 word"
type_synonym u32 = "32 word"
type_synonym u64 = "64 word"
type_synonym i32 = "32 word"

named_theorems res_simps \<open>sequencing of routines that may fault\<close>
named_theorems mem_simps \<open>loads after stores\<close>

section \<open>Faults and sequencing\<close>

text \<open>
  \<open>Diverges\<close>: the routine never returns. \<open>OutOfBounds\<close>: an array is indexed outside its
  bounds. \<open>NullDeref\<close>: a null pointer is dereferenced. \<open>Panic\<close>: a call of \<open>panic\<close>, \<open>die\<close> or
  a failed \<open>assert\<close>, with its message.
\<close>

datatype fault = Diverges | OutOfBounds | NullDeref | Panic string

type_synonym 'a res = "fault + 'a"

definition then_res :: "'a res \<Rightarrow> ('a \<Rightarrow> 'b res) \<Rightarrow> 'b res" where
  "then_res r f = (case r of Inl e \<Rightarrow> Inl e | Inr x \<Rightarrow> f x)"

lemma then_res_Inr [simp, res_simps]: "then_res (Inr x) f = f x"
  by (simp add: then_res_def)

lemma then_res_Inl [simp, res_simps]: "then_res (Inl e) f = Inl e"
  by (simp add: then_res_def)

lemma then_res_eq_Inr [res_simps]:
  "then_res r f = Inr y \<longleftrightarrow> (\<exists>x. r = Inr x \<and> f x = Inr y)"
  by (cases r) simp_all

lemma then_res_assoc: "then_res (then_res m f) g = then_res m (\<lambda>x. then_res (f x) g)"
  by (cases m) simp_all

lemma then_res_cong [fundef_cong]:
  "r = r' \<Longrightarrow> (\<And>x. r' = Inr x \<Longrightarrow> f x = g x) \<Longrightarrow> then_res r f = then_res r' g"
  by (cases r') simp_all

section \<open>Loops\<close>

text \<open>
  A \<open>while\<close> loop whose body may fault. \<open>while_res\<close> is \<open>None\<close> when the loop never ends, and
  \<open>loop_res\<close> turns that into the fault \<open>Diverges\<close>.
\<close>

partial_function (option) while_res :: "('s \<Rightarrow> bool) \<Rightarrow> ('s \<Rightarrow> 's res) \<Rightarrow> 's \<Rightarrow> 's res option" where
  "while_res b f s = (if b s then (case f s of Inl e \<Rightarrow> Some (Inl e) | Inr s' \<Rightarrow> while_res b f s') else Some (Inr s))"

definition loop_res :: "('s \<Rightarrow> bool) \<Rightarrow> ('s \<Rightarrow> 's res) \<Rightarrow> 's \<Rightarrow> 's res" where
  "loop_res b f s = (case while_res b f s of None \<Rightarrow> Inl Diverges | Some r \<Rightarrow> r)"

lemma loop_res_unfold: "loop_res b f s = (if b s then then_res (f s) (loop_res b f) else Inr s)"
  by (cases "f s") (simp_all add: loop_res_def [abs_def] while_res.simps [of b f s])

lemma loop_res_done [simp]: "\<not> b s \<Longrightarrow> loop_res b f s = Inr s"
  by (simp add: loop_res_unfold)

text \<open>Induction over the turns of a loop that ends.\<close>

lemma while_res_rule:
  assumes "while_res b f s = Some r" and "\<And>s. \<not> b s \<Longrightarrow> P s (Inr s)"
    and "\<And>s e. b s \<Longrightarrow> f s = Inl e \<Longrightarrow> P s (Inl e)"
    and "\<And>s s' r. b s \<Longrightarrow> f s = Inr s' \<Longrightarrow> P s' r \<Longrightarrow> P s r"
  shows "P s r"
proof -
  have "b = b \<longrightarrow> f = f \<longrightarrow> P s r"
  proof (rule while_res.raw_induct [OF _ assms(1), of "\<lambda>b' f' s r. b' = b \<longrightarrow> f' = f \<longrightarrow> P s r"], intro impI)
    fix w b' f' s r
    assume IH: "\<And>b' f' s r. w b' f' s = Some r \<Longrightarrow> b' = b \<longrightarrow> f' = f \<longrightarrow> P s r"
      and eq: "(if b' s then (case f' s of Inl e \<Rightarrow> Some (Inl e) | Inr s' \<Rightarrow> w b' f' s') else Some (Inr s)) = Some r"
      and "b' = b" "f' = f"
    then show "P s r"
      using assms(2-) IH [of b f] by (cases "b s"; cases "f s") auto
  qed
  then show ?thesis by simp
qed

text \<open>A loop whose body keeps an invariant under which the guard holds never ends.\<close>

lemma loop_res_diverges:
  assumes "I s" "\<And>s. I s \<Longrightarrow> b s \<and> (\<exists>s'. f s = Inr s' \<and> I s')"
  shows "loop_res b f s = Inl Diverges"
proof -
  have "\<not> I s" if "while_res b f s = Some r" for s r
    using that by (rule while_res_rule) (use assms(2) in fastforce)+
  with assms(1) show ?thesis by (cases "while_res b f s") (auto simp: loop_res_def)
qed

text \<open>A body that keeps an invariant or faults with \<open>E\<close>: so does the loop, unless it never ends.\<close>

lemma loop_res_invariant:
  assumes "I s" "\<And>s. I s \<Longrightarrow> b s \<Longrightarrow> (case f s of Inr s' \<Rightarrow> I s' | Inl e \<Rightarrow> E e)"
  shows "case loop_res b f s of Inr s' \<Rightarrow> I s' \<and> \<not> b s' | Inl e \<Rightarrow> e = Diverges \<or> E e"
proof -
  have "I s \<longrightarrow> (case r of Inr s' \<Rightarrow> I s' \<and> \<not> b s' | Inl e \<Rightarrow> E e)" if "while_res b f s = Some r" for s r
    using that by (rule while_res_rule) (use assms(2) in fastforce)+
  from this [of s] assms(1) show ?thesis
    by (cases "while_res b f s") (auto simp: loop_res_def split: sum.splits)
qed

text \<open>Total correctness: a measure that the body decreases.\<close>

lemma loop_res_total:
  fixes m :: "'s \<Rightarrow> nat"
  assumes "I s" "\<And>s. I s \<Longrightarrow> b s \<Longrightarrow> \<exists>s'. f s = Inr s' \<and> I s' \<and> m s' < m s"
  shows "\<exists>s'. loop_res b f s = Inr s' \<and> I s' \<and> \<not> b s'"
  using assms(1)
proof (induction "m s" arbitrary: s rule: less_induct)
  case less
  show ?case
  proof (cases "b s")
    case True
    with assms(2) [OF less.prems] obtain s' where "f s = Inr s'" "I s'" "m s' < m s" by blast
    with less.hyps [of s'] True show ?thesis by (simp add: loop_res_unfold [of b f s])
  qed (use less.prems in simp)
qed

text \<open>The same with a body that may fault.\<close>

lemma loop_res_bounded:
  fixes m :: "'s \<Rightarrow> nat"
  assumes "I s" "\<And>s. I s \<Longrightarrow> b s \<Longrightarrow> (case f s of Inr s' \<Rightarrow> I s' \<and> m s' < m s | Inl e \<Rightarrow> E e)"
  shows "case loop_res b f s of Inr s' \<Rightarrow> I s' \<and> \<not> b s' | Inl e \<Rightarrow> E e"
  using assms(1)
proof (induction "m s" arbitrary: s rule: less_induct)
  case less
  show ?case
  proof (cases "b s")
    case True
    with assms(2) [OF less.prems] less.hyps show ?thesis
      by (cases "f s") (simp_all add: loop_res_unfold [of b f s])
  qed (use less.prems in simp)
qed

section \<open>Counting with words\<close>

lemma unat_plus1: "(n :: 'a::len word) + 1 \<noteq> 0 \<Longrightarrow> unat (n + 1) = Suc (unat n)"
  by (metis add.commute unatSuc)

lemma unat_plus1_less:
  fixes i j :: "'a::len word"
  assumes "i < j"
  shows "unat (i + 1) = Suc (unat i)"
proof (rule unat_plus1)
  show "i + 1 \<noteq> 0"
  proof
    assume "i + 1 = 0"
    then have "i = - 1" by (simp add: eq_neg_iff_add_eq_0)
    with assms show False by (metis word_n1_ge leD)
  qed
qed

lemma unat_minus1: "(n :: 'a::len word) > 0 \<Longrightarrow> unat (n - 1) = unat n - 1"
  using unat_sub [of 1 n] by (simp add: word_less_nat_alt word_le_nat_alt)

lemma unat_diff_Suc:
  fixes x d :: "'a::len word"
  assumes "x \<noteq> d"
  shows "unat (x - d) = Suc (unat (x - (d + 1)))"
  using unat_plus1 [of "x - (d + 1)"] assms by (simp add: algebra_simps)

lemma unat_less_64: "unat (n :: u32) < 2 ^ 64"
  by (rule less_le_trans [OF unsigned_less]) simp

lemma unat_ucast_32_64 [simp]: "unat (ucast (n :: u32) :: u64) = unat n"
  using unat_less_64 [of n] by (simp add: unsigned_ucast_eq take_bit_nat_eq_self)

section \<open>Byte memory\<close>

text \<open>Physical memory is a function from addresses to bytes; a 64-bit access is little endian.\<close>

type_synonym mem = "u64 \<Rightarrow> u8"

fun le_load :: "nat \<Rightarrow> mem \<Rightarrow> u64 \<Rightarrow> u64" where
  "le_load 0 m a = 0"
| "le_load (Suc n) m a = ucast (m a) OR push_bit 8 (le_load n m (a + 1))"

definition load64 :: "mem \<Rightarrow> u64 \<Rightarrow> u64" where
  "load64 m a = le_load 8 m a"

definition store64 :: "mem \<Rightarrow> u64 \<Rightarrow> u64 \<Rightarrow> mem" where
  "store64 m a v = (\<lambda>x. if unat (x - a) < 8 then ucast (drop_bit (8 * unat (x - a)) v) else m x)"

lemma bit_le_load:
  "bit (le_load n m a) k \<longleftrightarrow> k < 64 \<and> k < 8 * n \<and> bit (m (a + of_nat (k div 8))) (k mod 8)"
proof (induction n arbitrary: a k)
  case 0
  then show ?case by simp
next
  case (Suc n)
  show ?case
  proof (cases "k < 8")
    case True
    then show ?thesis by (auto simp: bit_simps)
  next
    case False
    then obtain j where j: "k = j + 8" by (metis add.commute le_Suc_ex not_less)
    have "a + 1 + word_of_nat (j div 8) = a + word_of_nat ((j + 8) div 8)"
      by (simp add: div_add_self2)
    with False j Suc.IH [of "a + 1" j] show ?thesis
      by (auto simp: bit_simps dest: bit_imp_le_length)
  qed
qed

lemma bit_load64:
  "bit (load64 m a) k \<longleftrightarrow> k < 64 \<and> bit (m (a + of_nat (k div 8))) (k mod 8)"
  by (auto simp: load64_def bit_le_load)

lemma load64_store64_same: "load64 (store64 m a v) a = v"
proof (rule bit_word_eqI)
  fix k :: nat
  assume k: "k < LENGTH(64)"
  then have "unat (word_of_nat (k div 8) :: u64) = k div 8"
    by (simp add: unat_of_nat)
  moreover have "8 * (k div 8) + k mod 8 = k" by simp
  ultimately show "bit (load64 (store64 m a v) a) k = bit v k"
    using k by (auto simp: bit_load64 store64_def bit_simps)
qed

lemma load64_cong:
  assumes "\<And>i. i < 8 \<Longrightarrow> m (a + of_nat i) = m' (a + of_nat i)"
  shows "load64 m a = load64 m' a"
  by (rule bit_word_eqI) (simp add: bit_load64 assms)


section \<open>Aligned addresses\<close>

lemma dvd_unat_diff:
  fixes a b :: u64
  assumes "n dvd 2 ^ 64" "n dvd unat a" "n dvd unat b"
  shows "n dvd unat (a - b)"
proof (cases "b \<le> a")
  case True
  then show ?thesis using assms by (simp add: unat_sub dvd_diff_nat)
next
  case False
  then have "unat (a - b) = unat a + 2 ^ 64 - unat b"
    by (simp add: unat_sub_if' word_le_nat_alt)
  moreover have "n dvd unat a + 2 ^ 64 - unat b"
    using assms by (intro dvd_diff_nat dvd_add) auto
  ultimately show ?thesis by simp
qed

lemma dvd_unat_add:
  fixes a b :: u64
  assumes "n dvd 2 ^ 64" "n dvd unat a" "n dvd unat b"
  shows "n dvd unat (a + b)"
  using assms by (simp add: unat_word_ariths dvd_mod)

lemma aligned_room:
  fixes d :: u64
  assumes "n dvd 2 ^ 64" "n dvd unat d" "i < n"
  shows "unat (d + of_nat i) = unat d + i"
proof -
  from assms obtain k where k: "unat d = n * k" by auto
  from assms obtain l where l: "(2::nat) ^ 64 = n * l" by auto
  have "unat d < 2 ^ 64" using unsigned_less [of d] by simp
  then have "k < l" using k l by (metis nat_mult_less_cancel_disj)
  then have "n * k + n \<le> n * l" by (metis Suc_leI mult_Suc_right mult_le_mono2 add.commute)
  then have *: "unat d + i < 2 ^ 64" using k l assms(3) by linarith
  then have "unat (word_of_nat i :: u64) = i" by (simp add: unat_of_nat)
  with * show ?thesis by (simp add: unat_word_ariths)
qed

lemma aligned_disjoint:
  fixes a b :: u64
  assumes "n dvd 2 ^ 64" "n dvd unat a" "n dvd unat b" "a \<noteq> b" "i < n"
  shows "n \<le> unat (b + of_nat i - a)"
proof -
  have d: "n dvd unat (b - a)" by (rule dvd_unat_diff) (use assms in auto)
  have "unat (b - a) \<noteq> 0" using assms(4) by (simp add: unat_eq_0)
  with d have "n \<le> unat (b - a)" by (simp add: dvd_imp_le)
  moreover have "unat (b - a + of_nat i) = unat (b - a) + i"
    by (rule aligned_room [OF assms(1) d assms(5)])
  ultimately show ?thesis by (simp add: algebra_simps)
qed

lemma load64_store64_other [mem_simps]:
  assumes "8 dvd unat a" "8 dvd unat b" "a \<noteq> b"
  shows "load64 (store64 m a v) b = load64 m b"
proof (rule load64_cong)
  fix i :: nat
  assume "i < 8"
  then have "8 \<le> unat (b + of_nat i - a)" using assms by (intro aligned_disjoint) simp_all
  then show "store64 m a v (b + of_nat i) = m (b + of_nat i)" by (simp add: store64_def)
qed

section \<open>Pages\<close>

definition page_aligned :: "u64 \<Rightarrow> bool" where
  "page_aligned p \<longleftrightarrow> unat p mod 4096 = 0"

definition in_page :: "u64 \<Rightarrow> u64 \<Rightarrow> bool" where
  "in_page p x \<longleftrightarrow> unat (x - p) < 4096"

definition slot :: "u64 \<Rightarrow> u64 \<Rightarrow> u64" where
  "slot pt i = pt + 8 * i"

lemma page_aligned_dvd: "page_aligned p \<longleftrightarrow> 4096 dvd unat p"
  by (simp add: page_aligned_def dvd_eq_mod_eq_0)

lemma page_aligned_dvd8: "page_aligned p \<Longrightarrow> 8 dvd unat p"
  unfolding page_aligned_dvd by (rule dvd_trans [of _ 4096]) simp_all

lemma in_page_unique:
  assumes "page_aligned p" "page_aligned q" "in_page p x" "in_page q x"
  shows "p = q"
proof (rule ccontr)
  assume "p \<noteq> q"
  moreover have x: "x = q + of_nat (unat (x - q))" by simp
  ultimately have "4096 \<le> unat (q + of_nat (unat (x - q)) - p)"
    using assms by (intro aligned_disjoint) (auto simp: page_aligned_dvd in_page_def)
  with x assms(3) show False by (simp add: in_page_def)
qed

lemma unat_times8: "unat i < 512 \<Longrightarrow> unat (8 * i :: u64) = 8 * unat i"
  by (simp add: unat_word_ariths)

lemma slot_dvd8: 
  assumes "page_aligned p" "unat i < 512"
  shows "8 dvd unat (slot p i)"
  unfolding slot_def using assms
  by (intro dvd_unat_add) (simp_all add: page_aligned_dvd8 unat_times8)

lemma slot_in_page:
  assumes "unat i < 512" "k < 8"
  shows "in_page p (slot p i + of_nat k)"
proof -
  have "unat (8 * i + of_nat k) = unat (8 * i) + k"
    by (rule aligned_room [of 8]) (use assms in \<open>simp_all add: unat_times8\<close>)
  then show ?thesis using assms by (simp add: in_page_def slot_def unat_times8)
qed

lemma slot_in_page0: "unat i < 512 \<Longrightarrow> in_page p (slot p i)"
  using slot_in_page [of i 0 p] by simp

lemma slot_inject:
  assumes "page_aligned p" "page_aligned q" "unat i < 512" "unat j < 512"
  shows "slot p i = slot q j \<longleftrightarrow> p = q \<and> i = j"
proof
  assume eq: "slot p i = slot q j"
  have "p = q"
    using assms slot_in_page0 [of i p] slot_in_page0 [of j q] unfolding eq
    by (blast intro: in_page_unique)
  moreover from this eq have "8 * i = 8 * j" by (simp add: slot_def)
  then have "8 * unat i = 8 * unat j" using assms by (metis unat_times8)
  ultimately show "p = q \<and> i = j" by (simp add: word_unat_eq_iff)
qed simp

lemma load64_store64_slot [mem_simps]:
  assumes "page_aligned p" "page_aligned q" "unat i < 512" "unat j < 512"
  shows "load64 (store64 m (slot p i) v) (slot q j)
    = (if p = q \<and> i = j then v else load64 m (slot q j))"
  using assms by (simp add: load64_store64_same load64_store64_other slot_dvd8 slot_inject)

lemma store64_other_page:
  assumes "page_aligned p" "page_aligned q" "p \<noteq> q" "unat i < 512" "in_page q x"
  shows "store64 m (slot p i) v x = m x"
proof -
  have "\<not> unat (x - slot p i) < 8"
  proof
    assume "unat (x - slot p i) < 8"
    from slot_in_page [OF assms(4) this, of p] have "in_page p x" by simp
    with assms show False by (blast dest: in_page_unique)
  qed
  then show ?thesis by (simp add: store64_def)
qed

text \<open>Filling a range of bytes with one value, as \<open>set_memory\<close> does.\<close>

definition fill :: "mem \<Rightarrow> u64 \<Rightarrow> nat \<Rightarrow> u8 \<Rightarrow> mem" where
  "fill m a n v = (\<lambda>x. if unat (x - a) < n then v else m x)"

lemma fill_other_page:
  assumes "page_aligned p" "page_aligned q" "p \<noteq> q" "in_page q x"
  shows "fill m p 4096 v x = m x"
  using assms in_page_unique [of p q x] by (auto simp: fill_def in_page_def)

lemma load64_fill_other [mem_simps]:
  assumes "page_aligned p" "page_aligned q" "p \<noteq> q" "unat i < 512"
  shows "load64 (fill m p 4096 v) (slot q i) = load64 m (slot q i)"
  using assms by (intro load64_cong fill_other_page [of p q]) (simp_all add: slot_in_page)

lemma load64_fill_zero [mem_simps]:
  assumes "unat i < 512"
  shows "load64 (fill m p 4096 0) (slot p i) = 0"
proof (rule bit_word_eqI)
  fix n :: nat
  have "fill m p 4096 0 (slot p i + word_of_nat (n div 8)) = 0" if "n < 64"
    using slot_in_page [OF assms, of "n div 8" p] that by (simp add: fill_def in_page_def)
  then show "bit (load64 (fill m p 4096 0) (slot p i)) n = bit 0 n"
    by (simp add: bit_load64)
qed

end
