(* ===== verification/Memlayout.thy ===== *)
theory Memlayout
  imports Prelude
begin

text \<open>
  The address constants and macros of \<open>kernel/memlayout.h\<close> and \<open>kernel/risc_v.h\<close>: device and
  RAM addresses, page rounding, page-table entry flags, interrupt-enable bits and the layout
  of trampoline, trapframe and kernel stacks at the top of the address space. The lemmas say
  that rounding gives the nearest page boundary (and where it wraps), and that the kernel stack
  addresses are distinct pages, separated by a free page and below the trampoline.
\<close>

named_theorems layout_defs \<open>values of the layout constants\<close>

section \<open>Constants of memlayout.h\<close>

definition UART0 :: u64 where [layout_defs]: "UART0 = 0x10000000"
definition UART0_IRQ :: i32 where [layout_defs]: "UART0_IRQ = 10"
definition VIRTIO0 :: u64 where [layout_defs]: "VIRTIO0 = 0x10001000"
definition VIRTIO0_IRQ :: i32 where [layout_defs]: "VIRTIO0_IRQ = 1"
definition CLINT :: u64 where [layout_defs]: "CLINT = 0x2000000"
definition CLINT_MTIME :: u64 where [layout_defs]: "CLINT_MTIME = CLINT + 0xBFF8"
definition PLIC :: u64 where [layout_defs]: "PLIC = 0x0c000000"
definition PLIC_PRIORITY :: u64 where [layout_defs]: "PLIC_PRIORITY = PLIC + 0"
definition PLIC_PENDING :: u64 where [layout_defs]: "PLIC_PENDING = PLIC + 0x1000"
definition KERNBASE :: u64 where [layout_defs]: "KERNBASE = 0x80000000"
definition PHYSTOP :: u64 where [layout_defs]: "PHYSTOP = KERNBASE + 128 * 1024 * 1024"

definition CLINT_MTIMECMP :: "u64 \<Rightarrow> u64" where
  "CLINT_MTIMECMP hartid = CLINT + 0x4000 + 8 * hartid"

definition PLIC_MENABLE :: "u64 \<Rightarrow> u64" where
  "PLIC_MENABLE hart = PLIC + 0x2000 + hart * 0x100"

definition PLIC_SENABLE :: "u64 \<Rightarrow> u64" where
  "PLIC_SENABLE hart = PLIC + 0x2080 + hart * 0x100"

definition PLIC_MPRIORITY :: "u64 \<Rightarrow> u64" where
  "PLIC_MPRIORITY hart = PLIC + 0x200000 + hart * 0x2000"

definition PLIC_SPRIORITY :: "u64 \<Rightarrow> u64" where
  "PLIC_SPRIORITY hart = PLIC + 0x201000 + hart * 0x2000"

definition PLIC_MCLAIM :: "u64 \<Rightarrow> u64" where
  "PLIC_MCLAIM hart = PLIC + 0x200004 + hart * 0x2000"

definition PLIC_SCLAIM :: "u64 \<Rightarrow> u64" where
  "PLIC_SCLAIM hart = PLIC + 0x201004 + hart * 0x2000"

section \<open>Constants and macros of risc\_v.h\<close>

definition PGSIZE :: u64 where [layout_defs]: "PGSIZE = 4096"

definition PTE_V :: u64 where [layout_defs]: "PTE_V = push_bit 0 1"
definition PTE_R :: u64 where [layout_defs]: "PTE_R = push_bit 1 1"
definition PTE_W :: u64 where [layout_defs]: "PTE_W = push_bit 2 1"
definition PTE_X :: u64 where [layout_defs]: "PTE_X = push_bit 3 1"
definition PTE_U :: u64 where [layout_defs]: "PTE_U = push_bit 4 1"

definition MIE_MEIE :: u64 where [layout_defs]: "MIE_MEIE = push_bit 11 1"
definition MIE_MTIE :: u64 where [layout_defs]: "MIE_MTIE = push_bit 7 1"
definition MIE_MSIE :: u64 where [layout_defs]: "MIE_MSIE = push_bit 3 1"

definition SSTATUS_SPP :: u64 where [layout_defs]: "SSTATUS_SPP = push_bit 8 1"
definition SSTATUS_SPIE :: u64 where [layout_defs]: "SSTATUS_SPIE = push_bit 5 1"
definition SSTATUS_UPIE :: u64 where [layout_defs]: "SSTATUS_UPIE = push_bit 4 1"
definition SSTATUS_SIE :: u64 where [layout_defs]: "SSTATUS_SIE = push_bit 1 1"
definition SSTATUS_UIE :: u64 where [layout_defs]: "SSTATUS_UIE = push_bit 0 1"

definition PGROUNDUP :: "u64 \<Rightarrow> u64" where
  "PGROUNDUP sz = (sz + PGSIZE - 1) AND NOT (PGSIZE - 1)"

definition PGROUNDDOWN :: "u64 \<Rightarrow> u64" where
  "PGROUNDDOWN a = a AND NOT (PGSIZE - 1)"

definition MAXVA :: u64 where [layout_defs]: "MAXVA = push_bit (9 + 9 + 9 + 12 - 1) 1"

section \<open>Top of the address space (memlayout.h)\<close>

definition TRAMPOLINE :: u64 where [layout_defs]: "TRAMPOLINE = MAXVA - PGSIZE"

definition KSTACK :: "u64 \<Rightarrow> u64" where
  "KSTACK p = TRAMPOLINE - (p + 1) * 2 * PGSIZE"

definition TRAPFRAME :: u64 where [layout_defs]: "TRAPFRAME = TRAMPOLINE - PGSIZE"

section \<open>Page rounding\<close>

lemma PGROUNDDOWN_shift: "PGROUNDDOWN a = push_bit 12 (drop_bit 12 a)"
proof (rule bit_word_eqI)
  fix n :: nat
  have "PGSIZE - 1 = mask 12" by (simp add: PGSIZE_def mask_eq_exp_minus_1)
  then show "bit (PGROUNDDOWN a) n = bit (push_bit 12 (drop_bit 12 a)) n"
    if "n < LENGTH(64)"
    using that by (auto simp: PGROUNDDOWN_def bit_simps)
qed

lemma unat_PGROUNDDOWN: "unat (PGROUNDDOWN a) = unat a - unat a mod 4096"
proof -
  have "unat (PGROUNDDOWN a) = unat a div 4096 * 4096 mod 2 ^ 64"
    by (simp add: PGROUNDDOWN_shift push_bit_eq_mult drop_bit_eq_div unat_word_ariths unat_div mod_mult_left_eq)
  also have "\<dots> = unat a div 4096 * 4096"
  proof (rule mod_less)
    have "unat a div 4096 * 4096 \<le> unat a" by simp
    also have "\<dots> < 2 ^ 64" using unsigned_less [of a] by simp
    finally show "unat a div 4096 * 4096 < 2 ^ 64" .
  qed
  finally show ?thesis by (simp add: minus_mod_eq_div_mult)
qed

lemma PGROUNDUP_eq: "PGROUNDUP sz = PGROUNDDOWN (sz + 4095)"
  by (simp add: PGROUNDUP_def PGROUNDDOWN_def PGSIZE_def add.commute)

lemma page_aligned_PGROUNDDOWN [simp, intro]: "page_aligned (PGROUNDDOWN a)"
  by (simp add: page_aligned_def unat_PGROUNDDOWN mod_diff_left_eq minus_mod_eq_div_mult)

lemma PGROUNDDOWN_aligned: "page_aligned a \<Longrightarrow> PGROUNDDOWN a = a"
  by (simp add: page_aligned_def word_unat_eq_iff unat_PGROUNDDOWN)

lemma PGROUNDUP_aligned:
  assumes "page_aligned a"
  shows "PGROUNDUP a = a"
proof -
  have "unat (a + of_nat 4095) = unat a + 4095"
    using assms by (intro aligned_room [of 4096]) (simp_all add: page_aligned_dvd)
  then show ?thesis using assms
    by (simp add: PGROUNDUP_eq word_unat_eq_iff unat_PGROUNDDOWN page_aligned_def mod_add_left_eq [symmetric])
qed

lemma unat_PGROUNDUP:
  "unat (PGROUNDUP sz)
    = (if unat sz \<le> 2 ^ 64 - 4096 then (unat sz + 4095) div 4096 * 4096 else 0)"
proof (cases "unat sz \<le> 2 ^ 64 - 4096")
  case True
  then have "unat (sz + 4095) = unat sz + 4095"
    by (simp add: unat_word_ariths)
  with True show ?thesis
    by (simp add: PGROUNDUP_eq unat_PGROUNDDOWN minus_mod_eq_div_mult)
next
  case False
  have "unat sz < 2 ^ 64" using unsigned_less [of sz] by simp
  with False have "(unat sz + 4095) mod 2 ^ 64 = unat sz + 4095 - 2 ^ 64"
    by (simp add: mod_if)
  with \<open>unat sz < 2 ^ 64\<close> have "unat (sz + 4095) < 4096"
    by (simp add: unat_word_ariths)
  with False show ?thesis by (simp add: PGROUNDUP_eq unat_PGROUNDDOWN)
qed

text \<open>
  \<open>PGROUNDUP\<close> gives the least page boundary that is not below its argument, as long as one
  exists below \<open>2 ^ 64\<close>; above \<open>2 ^ 64 - 4096\<close> the addition wraps and the result is address 0.
  \<open>PGROUNDDOWN\<close> gives the greatest page boundary that is not above it, for every argument.
\<close>

theorem pground_spec:
  "page_aligned (PGROUNDUP sz) \<and> page_aligned (PGROUNDDOWN sz)
    \<and> unat (PGROUNDDOWN sz) \<le> unat sz \<and> unat sz < unat (PGROUNDDOWN sz) + 4096
    \<and> (if unat sz \<le> 2 ^ 64 - 4096
       then unat sz \<le> unat (PGROUNDUP sz) \<and> unat (PGROUNDUP sz) < unat sz + 4096
       else PGROUNDUP sz = 0)"
proof -
  have "page_aligned (PGROUNDUP sz)" by (simp add: PGROUNDUP_eq)
  moreover have "unat (PGROUNDDOWN sz) \<le> unat sz \<and> unat sz < unat (PGROUNDDOWN sz) + 4096"
    unfolding unat_PGROUNDDOWN by (metis add.commute diff_le_self le_add_diff_inverse2
        mod_less_eq_dividend mod_less_divisor nat_add_left_cancel_less zero_less_numeral)
  moreover have "if unat sz \<le> 2 ^ 64 - 4096
       then unat sz \<le> unat (PGROUNDUP sz) \<and> unat (PGROUNDUP sz) < unat sz + 4096
       else PGROUNDUP sz = 0"
  proof (cases "unat sz \<le> 2 ^ 64 - 4096")
    case True
    have "unat sz \<le> (unat sz + 4095) div 4096 * 4096 \<and> (unat sz + 4095) div 4096 * 4096 < unat sz + 4096"
      using div_mult_mod_eq [of "unat sz + 4095" 4096] mod_less_divisor [of 4096 "unat sz + 4095"]
      by linarith
    with True unat_PGROUNDUP [of sz] show ?thesis by simp
  next
    case False
    with unat_PGROUNDUP [of sz] show ?thesis by (simp add: unat_eq_0)
  qed
  ultimately show ?thesis by simp
qed

section \<open>Kernel stacks\<close>

lemma unat_TRAMPOLINE: "unat TRAMPOLINE = 2 ^ 38 - 4096"
  by (simp add: layout_defs push_bit_eq_mult)

lemma unat_KSTACK:
  assumes "unat p < 64"
  shows "unat (KSTACK p) + (unat p + 1) * 8192 = unat TRAMPOLINE"
proof -
  have "unat ((p + 1) * 2 * PGSIZE) = (unat p + 1) * 8192"
    using assms by (simp add: PGSIZE_def unat_word_ariths)
  moreover from this have "(p + 1) * 2 * PGSIZE \<le> TRAMPOLINE"
    using assms by (simp add: word_le_nat_alt unat_TRAMPOLINE)
  ultimately show ?thesis using assms
    by (simp add: KSTACK_def unat_sub unat_TRAMPOLINE)
qed

lemma page_aligned_KSTACK:
  assumes "unat p < 64"
  shows "page_aligned (KSTACK p)"
proof -
  have "4096 dvd unat (KSTACK p) + (unat p + 1) * 8192"
    unfolding unat_KSTACK [OF assms] unat_TRAMPOLINE by simp
  moreover have "4096 dvd (unat p + 1) * 8192" by simp
  ultimately show ?thesis by (simp add: page_aligned_dvd dvd_add_left_iff)
qed

text \<open>
  For two different process slots the kernel stack pages differ by at least two pages, so
  the page below each stack belongs to no stack; every stack page is page aligned and, with the
  free page above it, lies below the trampoline page.
\<close>

theorem kstack_guard_pages:
  assumes "unat p < 64" "unat q < 64" "p \<noteq> q"
  shows "page_aligned (KSTACK p) \<and> unat (KSTACK p) + 4096 < unat TRAMPOLINE
    \<and> (unat (KSTACK p) + 2 * 4096 \<le> unat (KSTACK q) \<or> unat (KSTACK q) + 2 * 4096 \<le> unat (KSTACK p))"
proof -
  note kp = unat_KSTACK [OF assms(1)] and kq = unat_KSTACK [OF assms(2)]
  have "unat (KSTACK p) + 4096 < unat TRAMPOLINE" using kp by simp
  moreover have "unat p \<noteq> unat q" using assms(3) by (simp add: word_unat_eq_iff)
  then have "unat (KSTACK p) + 2 * 4096 \<le> unat (KSTACK q) \<or> unat (KSTACK q) + 2 * 4096 \<le> unat (KSTACK p)"
    using kp kq by (cases "unat p < unat q") auto
  ultimately show ?thesis by (simp add: page_aligned_KSTACK [OF assms(1)])
qed

theorem kstack_guard_pages_witness:
  "unat (KSTACK 3) + 2 * 4096 \<le> unat (KSTACK 2) \<or> unat (KSTACK 2) + 2 * 4096 \<le> unat (KSTACK 3)"
  using kstack_guard_pages [of 3 2] by simp

end
