(* ===== verification/RiscV.thy ===== *)
theory RiscV
  imports Memlayout
begin

text \<open>
  The control and status registers of one hart and the accessors of \<open>kernel/risc_v.c\<close>, and the
  interface of a memory-mapped device.

  The accessors are inline assembly, and the model is what each instruction does, with these
  readings, each of which the assembler or the compiler forces.
  \<^item> \<open>read_tp\<close> is \<open>mv tp, %0\<close> with \<open>%0\<close> an output operand: it copies the general register that the
    compiler picked for the result into \<open>tp\<close> and returns that register. What the register holds is
    not determined by the source, and may differ from call to call: \<open>outreg\<close> is an arbitrary
    sequence, of which each call of \<open>read_tp\<close> takes the next value. Nothing here says that the
    values are the number of the hart, or that two calls agree. Where a result needs that they
    agree, it has the hypothesis \<open>steady\<close> (inside \<open>id_ok\<close>, \<open>hart_ok\<close> and \<open>traps_in\<close>).
  \<^item> \<open>write_mscratch\<close> is \<open>csrw mscartch, %0\<close>. There is no register of that name, and the file does not
    assemble with it; the model repairs the name to \<open>mscratch\<close>.
  \<^item> \<open>read_sstatus\<close> is defined twice; the first definition (\<open>csrr sstatus, %0\<close>) is not an instruction
    the assembler accepts, the model is the second one. \<open>read_mstatus\<close> and \<open>write_mstatus\<close> are each
    defined twice with one body. \<open>read_stvec\<close> passes its result in the place of the inputs; it is
    read as an output, like the others.
\<close>

section \<open>Registers of a hart\<close>

record hart =
  mstatus :: u64
  mepc :: u64
  satp :: u64
  stvec :: u64
  mhartid :: u64
  tp :: u64
  sstatus :: u64
  scause :: u64
  mscratch :: u64
  mtvec :: u64
  mie :: u64
  sepc :: u64
  outreg :: "nat \<Rightarrow> u64"

section \<open>Memory-mapped devices\<close>

text \<open>
  A device behind addresses that are accessed with words of type \<open>'w\<close>: what a read and a write
  of an address do to its state. The devices are hardware, so drivers take them as a parameter.
\<close>

record ('w, 'd) bus =
  bus_read :: "u64 \<Rightarrow> 'd \<Rightarrow> 'w \<times> 'd"
  bus_write :: "u64 \<Rightarrow> 'w \<Rightarrow> 'd \<Rightarrow> 'd"

section \<open>Accessors\<close>

definition read_mstatus :: "hart \<Rightarrow> u64" where
  "read_mstatus h = mstatus h"

definition write_mstatus :: "u64 \<Rightarrow> hart \<Rightarrow> hart" where
  "write_mstatus x h = h\<lparr>mstatus := x\<rparr>"

definition write_mepc :: "u64 \<Rightarrow> hart \<Rightarrow> hart" where
  "write_mepc x h = h\<lparr>mepc := x\<rparr>"

definition write_satp :: "u64 \<Rightarrow> hart \<Rightarrow> hart" where
  "write_satp x h = h\<lparr>satp := x\<rparr>"

definition read_satp :: "hart \<Rightarrow> u64" where
  "read_satp h = satp h"

definition write_stvec :: "u64 \<Rightarrow> hart \<Rightarrow> hart" where
  "write_stvec x h = h\<lparr>stvec := x\<rparr>"

definition read_stvec :: "hart \<Rightarrow> u64" where
  "read_stvec h = stvec h"

definition read_mhartid :: "hart \<Rightarrow> u64" where
  "read_mhartid h = mhartid h"

definition write_tp :: "u64 \<Rightarrow> hart \<Rightarrow> hart" where
  "write_tp x h = h\<lparr>tp := x\<rparr>"

text \<open>The values still to come, after one is taken.\<close>

definition later :: "(nat \<Rightarrow> u64) \<Rightarrow> nat \<Rightarrow> u64" where
  "later f = (\<lambda>n. f (Suc n))"

definition read_tp :: "hart \<Rightarrow> u64 \<times> hart" where
  "read_tp h = (outreg h 0, h\<lparr>tp := outreg h 0, outreg := later (outreg h)\<rparr>)"

text \<open>All calls of \<open>read_tp\<close> agree.\<close>

definition steady :: "(nat \<Rightarrow> u64) \<Rightarrow> bool" where
  "steady f \<longleftrightarrow> (\<forall>n. f n = f 0)"

lemma later_steady [simp]: "steady f \<Longrightarrow> later f = f"
  unfolding steady_def later_def by (rule ext) metis

lemma steady_const [simp]: "steady (\<lambda>_. x)"
  by (simp add: steady_def)

definition read_scause :: "hart \<Rightarrow> u64" where
  "read_scause h = scause h"

definition write_mscratch :: "u64 \<Rightarrow> hart \<Rightarrow> hart" where
  "write_mscratch x h = h\<lparr>mscratch := x\<rparr>"

definition write_mtvec :: "u64 \<Rightarrow> hart \<Rightarrow> hart" where
  "write_mtvec x h = h\<lparr>mtvec := x\<rparr>"

definition read_mie :: "hart \<Rightarrow> u64" where
  "read_mie h = mie h"

definition write_mie :: "u64 \<Rightarrow> hart \<Rightarrow> hart" where
  "write_mie x h = h\<lparr>mie := x\<rparr>"

definition read_sstatus :: "hart \<Rightarrow> u64" where
  "read_sstatus h = sstatus h"

definition write_sstatus :: "u64 \<Rightarrow> hart \<Rightarrow> hart" where
  "write_sstatus x h = h\<lparr>sstatus := x\<rparr>"

definition write_sepc :: "u64 \<Rightarrow> hart \<Rightarrow> hart" where
  "write_sepc x h = h\<lparr>sepc := x\<rparr>"

definition read_sepc :: "hart \<Rightarrow> u64" where
  "read_sepc h = sepc h"

text \<open>\<open>check_open_interrupts\<close> masks the name \<open>read_sstatus\<close>; the model reads it as the call.\<close>

definition check_open_interrupts :: "hart \<Rightarrow> i32" where
  "check_open_interrupts h = (if read_sstatus h AND SSTATUS_SIE \<noteq> 0 then 1 else 0)"

lemmas csr_defs = read_mstatus_def write_mstatus_def write_mepc_def write_satp_def read_satp_def
  write_stvec_def read_stvec_def read_mhartid_def write_tp_def read_tp_def read_scause_def
  write_mscratch_def write_mtvec_def read_mie_def write_mie_def read_sstatus_def
  write_sstatus_def write_sepc_def read_sepc_def

text \<open>Interrupts of supervisor mode are on exactly when bit 1 of \<open>sstatus\<close> is set.\<close>

definition interrupts_on :: "hart \<Rightarrow> bool" where
  "interrupts_on h \<longleftrightarrow> bit (sstatus h) 1"

lemma and_SSTATUS_SIE: "x AND SSTATUS_SIE \<noteq> 0 \<longleftrightarrow> bit x 1"
proof -
  have "bit (x AND SSTATUS_SIE) n \<longleftrightarrow> n = 1 \<and> bit x 1" for n
    by (auto simp: SSTATUS_SIE_def bit_simps)
  then show ?thesis by (metis bit_0_eq bot_apply bot_bool_def bit_eq_iff)
qed

lemma check_open_interrupts_iff: "check_open_interrupts h = (if interrupts_on h then 1 else 0)"
  by (simp add: check_open_interrupts_def interrupts_on_def read_sstatus_def and_SSTATUS_SIE)

lemma bit_or_not_SIE: "bit (x OR NOT SSTATUS_SIE) (Suc 0) = bit x (Suc 0)"
  by (simp add: SSTATUS_SIE_def bit_simps)

lemma bit_or_SIE: "bit (x OR SSTATUS_SIE) (Suc 0)"
  by (simp add: SSTATUS_SIE_def bit_simps)

end
