(* ===== verification/Proc_Types.thy ===== *)
theory Proc_Types
  imports RiscV
begin

text \<open>
  The structures of \<open>kernel/proc.h\<close> and \<open>kernel/spinlock.h\<close>, and the machine state the kernel
  routines run on: the registers of the executing hart and the global arrays \<open>cpus\<close> and \<open>procs\<close>.
  Later components extend the record \<open>mach\<close> with their own globals; the routines of
  \<open>spinlock.c\<close> and \<open>proc.c\<close> are defined on every extension.

  A pointer into \<open>procs\<close> is an index, a null pointer is \<open>None\<close>. A \<open>void *\<close> channel is its
  address, 0 when there is none.
\<close>

section \<open>struct spinlock\<close>

record spinlock =
  available :: i32

section \<open>struct trapframe, struct context\<close>

record trapframe =
  tf_kernel_satp :: u64
  tf_kernel_sp :: u64
  tf_kernel_trap :: u64
  tf_epc :: u64
  tf_kernel_hartid :: u64
  tf_ra :: u64
  tf_sp :: u64
  tf_gp :: u64
  tf_tp :: u64
  tf_t0 :: u64
  tf_t1 :: u64
  tf_t2 :: u64
  tf_s0 :: u64
  tf_s1 :: u64
  tf_a0 :: u64
  tf_a1 :: u64
  tf_a2 :: u64
  tf_a3 :: u64
  tf_a4 :: u64
  tf_a5 :: u64
  tf_a6 :: u64
  tf_a7 :: u64
  tf_s2 :: u64
  tf_s3 :: u64
  tf_s4 :: u64
  tf_s5 :: u64
  tf_s6 :: u64
  tf_s7 :: u64
  tf_s8 :: u64
  tf_s9 :: u64
  tf_s10 :: u64
  tf_s11 :: u64
  tf_t3 :: u64
  tf_t4 :: u64
  tf_t5 :: u64
  tf_t6 :: u64

record kcontext =
  c_ra :: u64
  c_sp :: u64
  c_s0 :: u64
  c_s1 :: u64
  c_s2 :: u64
  c_s3 :: u64
  c_s4 :: u64
  c_s5 :: u64
  c_s6 :: u64
  c_s7 :: u64
  c_s8 :: u64
  c_s9 :: u64
  c_s10 :: u64
  c_s11 :: u64

section \<open>enum procstate, struct proc, struct cpu\<close>

datatype procstate = UNUSED | USED | SLEEPING | RUNNABLE | RUNNING | ZOMBIE

record proc =
  tf :: "trapframe option"
  p_context :: kcontext
  p_lock :: spinlock
  state :: procstate
  pagetable :: u64
  channel :: u64

record cpu =
  interrupt_disabled :: i32
  cpu_proc :: "nat option"
  cpu_context :: kcontext
  lock_layer :: i32

record mach =
  reg :: hart
  gpr :: kcontext
  cpus :: "cpu list"
  procs :: "proc list"

section \<open>The cpu of the executing hart\<close>

text \<open>
  \<open>int id = read_tp()\<close> truncates the 64-bit register to an \<open>int\<close>. \<open>cpu_id\<close> is the number that the next
  call of \<open>read_tp\<close> gives, and \<open>id_ok\<close> says that all calls give it and that it is a cpu. It need not
  be the number of the hart.
\<close>

definition cpu_id :: "'a mach_scheme \<Rightarrow> i32" where
  "cpu_id s = ucast (outreg (reg s) 0)"

definition id_ok :: "'a mach_scheme \<Rightarrow> bool" where
  "id_ok s \<longleftrightarrow> steady (outreg (reg s)) \<and> unat (cpu_id s) < length (cpus s)"

definition this_cpu :: "'a mach_scheme \<Rightarrow> cpu" where
  "this_cpu s = cpus s ! unat (cpu_id s)"

definition set_cpu :: "cpu \<Rightarrow> 'a mach_scheme \<Rightarrow> 'a mach_scheme" where
  "set_cpu c s = s\<lparr>cpus := (cpus s)[unat (cpu_id s) := c]\<rparr>"

text \<open>A machine as the loader leaves it: eight cpus and 64 processes, every global zero.\<close>

definition zero_context :: kcontext where
  "zero_context = \<lparr>c_ra = 0, c_sp = 0, c_s0 = 0, c_s1 = 0, c_s2 = 0, c_s3 = 0, c_s4 = 0, c_s5 = 0,
     c_s6 = 0, c_s7 = 0, c_s8 = 0, c_s9 = 0, c_s10 = 0, c_s11 = 0\<rparr>"

definition zero_cpu :: cpu where
  "zero_cpu = \<lparr>interrupt_disabled = 0, cpu_proc = None, cpu_context = zero_context, lock_layer = 0\<rparr>"

definition zero_proc :: proc where
  "zero_proc = \<lparr>tf = None, p_context = zero_context, p_lock = \<lparr>available = 0\<rparr>, state = UNUSED,
     pagetable = 0, channel = 0\<rparr>"

definition zero_hart :: hart where
  "zero_hart = \<lparr>mstatus = 0, mepc = 0, satp = 0, stvec = 0, mhartid = 0, tp = 0, sstatus = 0,
     scause = 0, mscratch = 0, mtvec = 0, mie = 0, sepc = 0, outreg = (\<lambda>_. 0)\<rparr>"

definition zero_mach :: mach where
  "zero_mach = \<lparr>reg = zero_hart, gpr = zero_context, cpus = replicate 8 zero_cpu, procs = replicate 64 zero_proc\<rparr>"

lemma cpu_id_simps [simp]:
  "cpu_id (s\<lparr>cpus := cs\<rparr>) = cpu_id s"
  "cpu_id (s\<lparr>procs := ps\<rparr>) = cpu_id s"
  "cpu_id (s\<lparr>gpr := g\<rparr>) = cpu_id s"
  "cpu_id (s\<lparr>reg := h\<rparr>) = ucast (outreg h 0)"
  by (simp_all add: cpu_id_def)

lemma cpu_id_set_cpu [simp]: "cpu_id (set_cpu c s) = cpu_id s"
  by (simp add: set_cpu_def)

lemma this_cpu_set_cpu [simp]: "id_ok s \<Longrightarrow> this_cpu (set_cpu c s) = c"
  by (simp add: this_cpu_def set_cpu_def id_ok_def)

lemma id_ok_set_cpu [simp]: "id_ok (set_cpu c s) = id_ok s"
  by (simp add: id_ok_def) (simp add: set_cpu_def)

lemma set_cpu_frame [simp]:
  "reg (set_cpu c s) = reg s"
  "procs (set_cpu c s) = procs s"
  "gpr (set_cpu c s) = gpr s"
  "mach.more (set_cpu c s) = mach.more s"
  by (simp_all add: set_cpu_def)

lemma cpu_other_fields [simp]:
  "id_ok (s\<lparr>procs := ps\<rparr>) = id_ok s" "id_ok (s\<lparr>gpr := g\<rparr>) = id_ok s"
  "this_cpu (s\<lparr>procs := ps\<rparr>) = this_cpu s" "this_cpu (s\<lparr>gpr := g\<rparr>) = this_cpu s"
  by (simp_all add: id_ok_def this_cpu_def)

lemma zero_mach_simps [simp]: "id_ok zero_mach" "this_cpu zero_mach = zero_cpu"
  by (simp_all add: id_ok_def cpu_id_def this_cpu_def zero_mach_def zero_hart_def)

end
