(* ===== verification/Spinlock.thy ===== *)
theory Spinlock
  imports Proc_Types
begin

text \<open>
  \<open>kernel/spinlock.c\<close>: the interrupt-nesting counter of a cpu and the spin lock on top of it.

  \<open>push_inter_off\<close> and \<open>pop_inter_off\<close> are the source expressions, precedence included:
  \<open>read_sstatus() & SSTATUS_SIE == 0\<close> is \<open>read_sstatus() & (SSTATUS_SIE == 0)\<close>, and what is
  written to \<open>sstatus\<close> is \<open>read_sstatus() | ~SSTATUS_SIE\<close>.

  There are two models of a lock, and a theorem that says how they are related. \<open>acquire\<close> and
  \<open>release\<close> are one hart running by itself: nobody else changes the lock during the call. The loop
  of \<open>acquire\<close> is a \<open>partial_function\<close>, with \<open>None\<close> for "does not return as long as nobody else
  releases the lock", and \<open>Inl Diverges\<close> is to be read so wherever it comes from a held lock. The
  components above are verified with this sequential model. The last section is the concurrent
  one: eight harts, whose atomic steps are interleaved in any order, so that a lock can be released
  while others spin. A hart that moves alone there computes exactly \<open>acquire\<close> and \<open>release\<close>.

  The locale \<open>lock_discipline\<close> is the contract the users of a lock rely on.
\<close>

section \<open>Interrupt nesting\<close>

definition push_inter_off :: "'a mach_scheme \<Rightarrow> 'a mach_scheme res" where
  "push_inter_off s =
     (let (t, h) = read_tp (reg s);
          s = s\<lparr>reg := h\<rparr>;
          ident = ucast t :: i32
      in if unat ident < length (cpus s) then
           let layer = lock_layer (cpus s ! unat ident);
               c = (if read_sstatus h AND (if SSTATUS_SIE = 0 then 1 else 0) \<noteq> 0 \<or> layer = 0
                    then (cpus s ! unat ident)\<lparr>interrupt_disabled := 1\<rparr>
                    else (cpus s ! unat ident)\<lparr>interrupt_disabled := 0\<rparr>);
               h = (if layer = 0 then write_sstatus (read_sstatus h OR NOT SSTATUS_SIE) h else h);
               c = c\<lparr>lock_layer := layer + 1\<rparr>
           in Inr (s\<lparr>reg := h, cpus := (cpus s)[unat ident := c]\<rparr>)
         else Inl OutOfBounds)"

definition pop_inter_off :: "'a mach_scheme \<Rightarrow> 'a mach_scheme res" where
  "pop_inter_off s =
     (let (t, h) = read_tp (reg s);
          s = s\<lparr>reg := h\<rparr>;
          ident = ucast t :: i32
      in if unat ident < length (cpus s) then
           let c = (cpus s ! unat ident)\<lparr>lock_layer := lock_layer (cpus s ! unat ident) - 1\<rparr>;
               layer = lock_layer c;
               h = (if layer = 0 \<and> interrupt_disabled c = 0
                    then write_sstatus (read_sstatus h OR SSTATUS_SIE) h else h)
           in Inr (s\<lparr>reg := h, cpus := (cpus s)[unat ident := c]\<rparr>)
         else Inl OutOfBounds)"

section \<open>The lock\<close>

definition spinlock_init :: "spinlock \<Rightarrow> spinlock" where
  "spinlock_init lock = lock\<lparr>available := 1\<rparr>"

text \<open>\<open>__sync_lock_test_and_set\<close>: the old value, and the lock with the new one.\<close>

definition test_and_set :: "spinlock \<Rightarrow> i32 \<Rightarrow> i32 \<times> spinlock" where
  "test_and_set lock v = (available lock, lock\<lparr>available := v\<rparr>)"

text \<open>One evaluation of the condition of the loop in \<open>acquire\<close>: whether to go on, and the lock.\<close>

definition try_lock :: "spinlock \<Rightarrow> bool \<times> spinlock" where
  "try_lock lock = (case test_and_set lock 0 of (old, lock') \<Rightarrow> (old = 0, lock'))"

partial_function (option) acquire_spin :: "spinlock \<Rightarrow> spinlock option" where
  "acquire_spin lock = (case try_lock lock of (again, lock') \<Rightarrow> if again then acquire_spin lock' else Some lock')"

definition acquire :: "spinlock \<Rightarrow> 'a mach_scheme \<Rightarrow> (spinlock \<times> 'a mach_scheme) res" where
  "acquire lock s = then_res (push_inter_off s)
     (\<lambda>s. case acquire_spin lock of None \<Rightarrow> Inl Diverges | Some lock' \<Rightarrow> Inr (lock', s))"

definition release :: "spinlock \<Rightarrow> 'a mach_scheme \<Rightarrow> (spinlock \<times> 'a mach_scheme) res" where
  "release lock s =
     (let (old, lock') = test_and_set lock 1
      in then_res (pop_inter_off s) (\<lambda>s. Inr (lock', s)))"

lemma spinlock_set: "(l :: spinlock)\<lparr>available := v\<rparr> = \<lparr>available = v\<rparr>"
  by (cases l) simp

section \<open>What push and pop do\<close>

text \<open>The three effects of the pair on the machine: the register file, the cpu, the rest.\<close>

definition pushed :: "'a mach_scheme \<Rightarrow> 'a mach_scheme" where
  "pushed s = (let c = this_cpu s; h = (reg s)\<lparr>tp := outreg (reg s) 0\<rparr> in
     (set_cpu (c\<lparr>interrupt_disabled := if lock_layer c = 0 then 1 else 0, lock_layer := lock_layer c + 1\<rparr>) s)
       \<lparr>reg := if lock_layer c = 0 then h\<lparr>sstatus := sstatus h OR NOT SSTATUS_SIE\<rparr> else h\<rparr>)"

definition popped :: "'a mach_scheme \<Rightarrow> 'a mach_scheme" where
  "popped s = (let c = this_cpu s; h = (reg s)\<lparr>tp := outreg (reg s) 0\<rparr> in
     (set_cpu (c\<lparr>lock_layer := lock_layer c - 1\<rparr>) s)
       \<lparr>reg := if lock_layer c = 1 \<and> interrupt_disabled c = 0
               then h\<lparr>sstatus := sstatus h OR SSTATUS_SIE\<rparr> else h\<rparr>)"

lemma push_inter_off_eq: "id_ok s \<Longrightarrow> push_inter_off s = Inr (pushed s)"
  by (simp add: push_inter_off_def pushed_def read_tp_def id_ok_def cpu_id_def this_cpu_def
      set_cpu_def write_sstatus_def read_sstatus_def SSTATUS_SIE_def Let_def)

lemma pop_inter_off_eq: "id_ok s \<Longrightarrow> pop_inter_off s = Inr (popped s)"
  by (simp add: pop_inter_off_def popped_def read_tp_def id_ok_def cpu_id_def this_cpu_def
      set_cpu_def write_sstatus_def read_sstatus_def Let_def)

text \<open>An identifier that is no cpu indexes \<open>cpus\<close> out of bounds.\<close>

lemma inter_off_bad_id:
  assumes "\<not> unat (cpu_id s) < length (cpus s)"
  shows "push_inter_off s = Inl OutOfBounds" "pop_inter_off s = Inl OutOfBounds"
  using assms by (simp_all add: push_inter_off_def pop_inter_off_def read_tp_def cpu_id_def Let_def)

text \<open>On any machine the two leave everything but the registers and \<open>cpus\<close> alone.\<close>

lemma inter_off_frame:
  assumes "push_inter_off s = Inr m \<or> pop_inter_off s = Inr m"
  shows "gpr m = gpr s" "procs m = procs s" "mach.more m = mach.more s"
  using assms by (auto simp: push_inter_off_def pop_inter_off_def Let_def split: prod.splits if_splits)

lemma inter_off_more:
  "push_inter_off s = Inr m \<Longrightarrow> mach.more m = mach.more s" "pop_inter_off s = Inr m \<Longrightarrow> mach.more m = mach.more s"
  using inter_off_frame(3) by blast+

lemma outreg_same [simp]: "outreg h = f \<Longrightarrow> h\<lparr>outreg := f\<rparr> = h"
  by auto

lemma outreg_pushed [simp]: "outreg (reg (pushed s)) = outreg (reg s)"
  by (simp add: pushed_def Let_def)

lemma outreg_popped [simp]: "outreg (reg (popped s)) = outreg (reg s)"
  by (simp add: popped_def Let_def)

lemma frame_pushed [simp]:
  "procs (pushed s) = procs s" "gpr (pushed s) = gpr s" "mach.more (pushed s) = mach.more s" "length (cpus (pushed s)) = length (cpus s)"
  by (simp_all add: pushed_def Let_def) (simp add: set_cpu_def)

lemma frame_popped [simp]:
  "procs (popped s) = procs s" "gpr (popped s) = gpr s" "mach.more (popped s) = mach.more s" "length (cpus (popped s)) = length (cpus s)"
  by (simp_all add: popped_def Let_def) (simp add: set_cpu_def)

lemma id_ok_pushed [simp]: "id_ok (pushed s) = id_ok s" "id_ok (popped s) = id_ok s"
  by (simp_all add: id_ok_def cpu_id_def)

lemma this_cpu_reg [simp]: "outreg h = outreg (reg s) \<Longrightarrow> this_cpu (s\<lparr>reg := h\<rparr>) = this_cpu s"
  by (simp add: this_cpu_def cpu_id_def)

lemma this_cpu_pushed [simp]:
  "id_ok s \<Longrightarrow> this_cpu (pushed s) = (this_cpu s)\<lparr>interrupt_disabled := if lock_layer (this_cpu s) = 0 then 1 else 0,
     lock_layer := lock_layer (this_cpu s) + 1\<rparr>"
  by (simp add: pushed_def Let_def)

lemma this_cpu_popped [simp]:
  "id_ok s \<Longrightarrow> this_cpu (popped s) = (this_cpu s)\<lparr>lock_layer := lock_layer (this_cpu s) - 1\<rparr>"
  by (simp add: popped_def Let_def)

lemma interrupts_on_pushed [simp]: "interrupts_on (reg (pushed s)) = interrupts_on (reg s)"
  by (simp add: pushed_def Let_def interrupts_on_def bit_or_not_SIE)

lemma interrupts_on_popped [simp]:
  "interrupts_on (reg (popped s)) \<longleftrightarrow>
     interrupts_on (reg s) \<or> lock_layer (this_cpu s) = 1 \<and> interrupt_disabled (this_cpu s) = 0"
  by (auto simp: popped_def Let_def interrupts_on_def bit_or_SIE)

section \<open>What acquire and release do\<close>

lemma acquire_spin_Some: "acquire_spin lock = Some lock' \<Longrightarrow> available lock \<noteq> 0"
proof (rule acquire_spin.raw_induct [where P = "\<lambda>l l'. available l \<noteq> 0"])
  fix f and l l' :: spinlock
  assume IH: "\<And>l l'. f l = Some l' \<Longrightarrow> available l \<noteq> 0"
    and eq: "(case try_lock l of (again, l'') \<Rightarrow> if again then f l'' else Some l'') = Some l'"
  show "available l \<noteq> 0"
  proof
    assume "available l = 0"
    with eq have "f (l\<lparr>available := 0\<rparr>) = Some l'" by (simp add: try_lock_def test_and_set_def)
    from IH [OF this] show False by simp
  qed
qed

lemma acquire_spin_eq [code]:
  "acquire_spin lock = (if available lock = 0 then None else Some (lock\<lparr>available := 0\<rparr>))"
proof (cases "available lock = 0")
  case True
  then show ?thesis using acquire_spin_Some [of lock] by (cases "acquire_spin lock") auto
next
  case False
  then show ?thesis by (simp add: acquire_spin.simps [of lock] try_lock_def test_and_set_def)
qed

lemma acquire_eq:
  "id_ok s \<Longrightarrow> acquire lock s = (if available lock = 0 then Inl Diverges
     else Inr (lock\<lparr>available := 0\<rparr>, pushed s))"
  by (simp add: acquire_def push_inter_off_eq acquire_spin_eq)

lemma release_eq: "id_ok s \<Longrightarrow> release lock s = Inr (lock\<lparr>available := 1\<rparr>, popped s)"
  by (simp add: release_def test_and_set_def pop_inter_off_eq)

section \<open>Nested locking\<close>

fun push_times :: "nat \<Rightarrow> 'a mach_scheme \<Rightarrow> 'a mach_scheme res" where
  "push_times 0 s = Inr s"
| "push_times (Suc n) s = then_res (push_inter_off s) (push_times n)"

fun pop_times :: "nat \<Rightarrow> 'a mach_scheme \<Rightarrow> 'a mach_scheme res" where
  "pop_times 0 s = Inr s"
| "pop_times (Suc n) s = then_res (pop_inter_off s) (pop_times n)"

lemma push_times_from:
  assumes "id_ok s" "unat (lock_layer (this_cpu s)) + n < 2 ^ 32"
  shows "\<exists>s'. push_times n s = Inr s' \<and> id_ok s'
    \<and> unat (lock_layer (this_cpu s')) = unat (lock_layer (this_cpu s)) + n
    \<and> interrupts_on (reg s') = interrupts_on (reg s)
    \<and> interrupt_disabled (this_cpu s') = (if n = 0 then interrupt_disabled (this_cpu s)
        else if n = 1 \<and> lock_layer (this_cpu s) = 0 then 1 else 0)"
  using assms
proof (induction n arbitrary: s)
  case 0
  then show ?case by simp
next
  case (Suc n)
  let ?l = "lock_layer (this_cpu s)"
  have l: "unat (?l + 1) = Suc (unat ?l)"
    using Suc.prems by (simp add: unat_word_ariths)
  then have nz: "?l + 1 \<noteq> 0" by (metis nat.simps(3) unat_0)
  from Suc.IH [of "pushed s"] Suc.prems l obtain s' where
    "push_times n (pushed s) = Inr s'" "id_ok s'"
    "unat (lock_layer (this_cpu s')) = Suc (unat ?l) + n"
    "interrupts_on (reg s') = interrupts_on (reg s)"
    "interrupt_disabled (this_cpu s') = (if n = 0 then if ?l = 0 then 1 else 0 else 0)"
    using nz by (fastforce split: if_splits)
  with Suc.prems show ?case by (simp add: push_inter_off_eq)
qed

lemma pop_times_from:
  assumes "id_ok s" "unat (lock_layer (this_cpu s)) = n"
  shows "\<exists>s'. pop_times n s = Inr s' \<and> id_ok s' \<and> lock_layer (this_cpu s') = 0
    \<and> (interrupts_on (reg s') \<longleftrightarrow>
         interrupts_on (reg s) \<or> 0 < n \<and> interrupt_disabled (this_cpu s) = 0)"
  using assms
proof (induction n arbitrary: s)
  case 0
  then show ?case by (simp add: unat_eq_0)
next
  case (Suc n)
  let ?l = "lock_layer (this_cpu s)"
  have "?l > 0" using Suc.prems by (simp add: word_less_nat_alt)
  then have l: "unat (?l - 1) = n" using Suc.prems by (simp add: unat_minus1)
  from Suc.IH [of "popped s"] Suc.prems l obtain s' where
    s': "pop_times n (popped s) = Inr s'" "id_ok s'" "lock_layer (this_cpu s') = 0"
    "interrupts_on (reg s') \<longleftrightarrow> interrupts_on (reg (popped s)) \<or> 0 < n \<and> interrupt_disabled (this_cpu s) = 0"
    by auto
  have "?l = 1 \<longleftrightarrow> n = 0" using Suc.prems by (metis One_nat_def Suc_inject unat_1 word_unat_eq_iff)
  with s' Suc.prems show ?case by (auto simp: pop_inter_off_eq)
qed

text \<open>
  C25: on a hart whose calls of \<open>read_tp\<close> all give one cpu (\<open>id_ok\<close>), \<open>n\<close> calls of \<open>push_inter_off\<close> from
  nesting level 0 followed by \<open>n\<close> calls of \<open>pop_inter_off\<close> end at level 0 again. The interrupt-enable bit is as before when \<open>n \<le> 1\<close>, and is set when
  \<open>n \<ge> 2\<close>, even if interrupts were disabled before the first call.
\<close>

theorem push_pop_balanced:
  assumes "id_ok s" "lock_layer (this_cpu s) = 0" "n < 2 ^ 32"
  shows "\<exists>s'. then_res (push_times n s) (pop_times n) = Inr s' \<and> lock_layer (this_cpu s') = 0
    \<and> (interrupts_on (reg s') \<longleftrightarrow> interrupts_on (reg s) \<or> 2 \<le> n)"
proof -
  from push_times_from [of s n] assms obtain t where t: "push_times n s = Inr t" "id_ok t"
    "unat (lock_layer (this_cpu t)) = n" "interrupts_on (reg t) = interrupts_on (reg s)"
    "interrupt_disabled (this_cpu t) = (if n = 0 then interrupt_disabled (this_cpu s) else if n = 1 then 1 else 0)"
    by auto
  from pop_times_from [OF t(2,3)] t show ?thesis by (auto split: if_splits)
qed

theorem push_pop_balanced_witness:
  "\<exists>s'. then_res (push_times 2 zero_mach) (pop_times 2) = Inr s' \<and> lock_layer (this_cpu s') = 0
    \<and> (interrupts_on (reg s') \<longleftrightarrow> interrupts_on (reg zero_mach) \<or> (2::nat) \<le> 2)"
  by (rule push_pop_balanced) (simp_all add: zero_cpu_def)

section \<open>The contract of a lock\<close>

locale lock_discipline =
  fixes acq rel :: "'l \<Rightarrow> 's \<Rightarrow> ('l \<times> 's) res"
    and free :: "'l \<Rightarrow> bool"
    and ok :: "'s \<Rightarrow> bool"
    and depth :: "'s \<Rightarrow> i32"
    and rest :: "'s \<Rightarrow> 'r"
  assumes acq_free: "ok s \<Longrightarrow> free l \<Longrightarrow> \<exists>l' s'. acq l s = Inr (l', s') \<and> \<not> free l' \<and> ok s'
      \<and> depth s' = depth s + 1 \<and> rest s' = rest s"
    and acq_held: "ok s \<Longrightarrow> \<not> free l \<Longrightarrow> acq l s = Inl Diverges"
    and rel_frees: "ok s \<Longrightarrow> \<exists>l' s'. rel l s = Inr (l', s') \<and> free l' \<and> ok s'
      \<and> depth s' = depth s - 1 \<and> rest s' = rest s"
begin

text \<open>Acquire then release: the lock is free again, the nesting level and the rest unchanged.\<close>

lemma acq_rel:
  assumes "ok s" "free l"
  shows "\<exists>l' s'. then_res (acq l s) (\<lambda>(l, s). rel l s) = Inr (l', s') \<and> free l' \<and> ok s'
    \<and> depth s' = depth s \<and> rest s' = rest s"
proof -
  from acq_free [OF assms] obtain l1 s1 where 1: "acq l s = Inr (l1, s1)" "ok s1"
    "depth s1 = depth s + 1" "rest s1 = rest s" by blast
  from rel_frees [OF 1(2), of l1] 1 show ?thesis by auto
qed

text \<open>A second acquire of the same lock with no release in between never returns.\<close>

lemma acq_twice:
  assumes "ok s" "free l"
  shows "then_res (acq l s) (\<lambda>(l, s). acq l s) = Inl Diverges"
proof -
  from acq_free [OF assms] obtain l1 s1 where "acq l s = Inr (l1, s1)" "ok s1" "\<not> free l1" by blast
  then show ?thesis by (simp add: acq_held)
qed

end

interpretation spin: lock_discipline
  acquire release "\<lambda>l. available l \<noteq> 0" id_ok "\<lambda>s. lock_layer (this_cpu s)"
  "\<lambda>s. (gpr s, procs s, mach.more s)"
  by unfold_locales (simp_all add: acquire_eq release_eq)

section \<open>Several harts on one lock\<close>

text \<open>
  The harts of the machine, each running \<open>acquire\<close> and \<open>release\<close> on one shared lock in a loop.
  One step is one atomic action of one hart: the call of \<open>push_inter_off\<close> on its own registers,
  one evaluation of the loop condition, the exchange of \<open>release\<close>, or the call of
  \<open>pop_inter_off\<close>. Any hart may move next. Nothing is assumed of what \<open>read_tp\<close> gives a hart.
\<close>

datatype lock_pc = Outside | Spinning | Holding | Leaving

record lock_sys =
  sys_lock :: spinlock
  sys_cpus :: "cpu list"
  sys_regs :: "nat \<Rightarrow> hart"
  sys_pc :: "nat \<Rightarrow> lock_pc"

definition hart_view :: "nat \<Rightarrow> lock_sys \<Rightarrow> mach" where
  "hart_view i S = \<lparr>reg = sys_regs S i, gpr = zero_context, cpus = sys_cpus S, procs = []\<rparr>"

definition hart_put :: "nat \<Rightarrow> mach \<Rightarrow> lock_sys \<Rightarrow> lock_sys" where
  "hart_put i m S = S\<lparr>sys_cpus := cpus m, sys_regs := (sys_regs S)(i := reg m)\<rparr>"

definition goto :: "nat \<Rightarrow> lock_pc \<Rightarrow> lock_sys \<Rightarrow> lock_sys" where
  "goto i pc S = S\<lparr>sys_pc := (sys_pc S)(i := pc)\<rparr>"

inductive lock_step :: "nat \<Rightarrow> lock_sys \<Rightarrow> lock_sys \<Rightarrow> bool" where
  call_acquire: "i < 8 \<Longrightarrow> sys_pc S i = Outside \<Longrightarrow> push_inter_off (hart_view i S) = Inr m \<Longrightarrow>
     lock_step i S (goto i Spinning (hart_put i m S))"
| spin_again: "i < 8 \<Longrightarrow> sys_pc S i = Spinning \<Longrightarrow> try_lock (sys_lock S) = (True, l) \<Longrightarrow>
     lock_step i S (S\<lparr>sys_lock := l\<rparr>)"
| take_lock: "i < 8 \<Longrightarrow> sys_pc S i = Spinning \<Longrightarrow> try_lock (sys_lock S) = (False, l) \<Longrightarrow>
     lock_step i S (goto i Holding (S\<lparr>sys_lock := l\<rparr>))"
| call_release: "i < 8 \<Longrightarrow> sys_pc S i = Holding \<Longrightarrow> test_and_set (sys_lock S) 1 = (old, l) \<Longrightarrow>
     lock_step i S (goto i Leaving (S\<lparr>sys_lock := l\<rparr>))"
| return_release: "i < 8 \<Longrightarrow> sys_pc S i = Leaving \<Longrightarrow> pop_inter_off (hart_view i S) = Inr m \<Longrightarrow>
     lock_step i S (goto i Outside (hart_put i m S))"

definition lock_start :: "(nat \<Rightarrow> hart) \<Rightarrow> lock_sys" where
  "lock_start regs = \<lparr>sys_lock = spinlock_init \<lparr>available = 0\<rparr>, sys_cpus = replicate 8 zero_cpu,
     sys_regs = regs, sys_pc = (\<lambda>_. Outside)\<rparr>"

inductive lock_reachable :: "(nat \<Rightarrow> hart) \<Rightarrow> lock_sys \<Rightarrow> bool" for regs where
  start: "lock_reachable regs (lock_start regs)"
| step: "lock_reachable regs S \<Longrightarrow> lock_step i S S' \<Longrightarrow> lock_reachable regs S'"

text \<open>Hart \<open>i\<close> moves alone, up to the first time that it is at \<open>pc\<close>.\<close>

inductive runs_to :: "nat \<Rightarrow> lock_pc \<Rightarrow> lock_sys \<Rightarrow> lock_sys \<Rightarrow> bool" for i pc where
  arrived: "sys_pc S i = pc \<Longrightarrow> runs_to i pc S S"
| moves: "sys_pc S i \<noteq> pc \<Longrightarrow> lock_step i S T \<Longrightarrow> runs_to i pc T U \<Longrightarrow> runs_to i pc S U"

inductive_cases lock_step_cases: "lock_step i S T"

lemma goto_simps [simp]:
  "sys_lock (goto i pc S) = sys_lock S" "sys_cpus (goto i pc S) = sys_cpus S"
  "sys_regs (goto i pc S) = sys_regs S" "sys_pc (goto i pc S) = (sys_pc S)(i := pc)"
  by (simp_all add: goto_def)

lemma hart_put_simps [simp]:
  "sys_lock (hart_put i m S) = sys_lock S" "sys_cpus (hart_put i m S) = cpus m"
  "sys_regs (hart_put i m S) = (sys_regs S)(i := reg m)" "sys_pc (hart_put i m S) = sys_pc S"
  by (simp_all add: hart_put_def)

lemma hart_view_fields [simp]:
  "cpus (hart_view i S) = sys_cpus S" "reg (hart_view i S) = sys_regs S i"
  by (simp_all add: hart_view_def)

lemma hart_view_goto [simp]: "hart_view i (goto j pc S) = hart_view i S" "hart_view i (S\<lparr>sys_lock := l\<rparr>) = hart_view i S"
  by (simp_all add: hart_view_def)

lemma try_lock_eq: "try_lock l = (available l = 0, l\<lparr>available := 0\<rparr>)"
  by (simp add: try_lock_def test_and_set_def)

subsection \<open>A hart that moves alone computes acquire and release\<close>

lemma hart_view_put:
  assumes "push_inter_off (hart_view i S) = Inr m \<or> pop_inter_off (hart_view i S) = Inr m"
  shows "hart_view i (hart_put i m S) = m"
  using inter_off_frame [OF assms] by (simp add: hart_view_def)

lemma spinning_runs:
  "runs_to i pc S T \<Longrightarrow> pc = Holding \<Longrightarrow> i < 8 \<Longrightarrow> sys_pc S i = Spinning \<Longrightarrow>
     available (sys_lock S) \<noteq> 0 \<and> T = goto i Holding (S\<lparr>sys_lock := (sys_lock S)\<lparr>available := 0\<rparr>\<rparr>)"
proof (induction rule: runs_to.induct)
  case (moves S T U)
  from moves.hyps(2) moves.prems show ?case
  proof (cases rule: lock_step.cases)
    case (take_lock l)
    from moves.hyps(3) show ?thesis
      using take_lock moves.prems by (cases rule: runs_to.cases) (auto simp: try_lock_eq)
  qed (use moves.IH moves.prems in \<open>auto simp: try_lock_eq\<close>)
qed simp

lemma acquire_runs:
  assumes "i < 8" "sys_pc S i = Outside"
  shows "acquire (sys_lock S) (hart_view i S) = Inr (l, m) \<longleftrightarrow>
    (\<exists>T. runs_to i Holding S T \<and> sys_lock T = l \<and> hart_view i T = m)"
proof
  assume "acquire (sys_lock S) (hart_view i S) = Inr (l, m)"
  then have p: "push_inter_off (hart_view i S) = Inr m" and av: "available (sys_lock S) \<noteq> 0"
    and l: "l = (sys_lock S)\<lparr>available := 0\<rparr>"
    by (auto simp: acquire_def res_simps acquire_spin_eq split: if_splits option.splits)
  let ?T = "goto i Spinning (hart_put i m S)"
  let ?U = "goto i Holding (?T\<lparr>sys_lock := l\<rparr>)"
  have "lock_step i S ?T" using assms p by (rule lock_step.call_acquire)
  moreover have "lock_step i ?T ?U" using assms(1) av l by (intro lock_step.take_lock) (simp_all add: try_lock_eq)
  moreover have "runs_to i Holding ?U ?U" by (rule runs_to.arrived) simp
  ultimately have "runs_to i Holding S ?U" using assms(2) by (metis goto_simps(4) fun_upd_same lock_pc.distinct(3,7) runs_to.moves)
  moreover have "hart_view i ?U = m" using hart_view_put p by simp
  ultimately show "\<exists>T. runs_to i Holding S T \<and> sys_lock T = l \<and> hart_view i T = m" by (metis goto_simps(1) lock_sys.select_convs(1) lock_sys.update_convs(1) lock_sys.surjective)
next
  assume "\<exists>T. runs_to i Holding S T \<and> sys_lock T = l \<and> hart_view i T = m"
  then obtain U where U: "runs_to i Holding S U" "sys_lock U = l" "hart_view i U = m" by blast
  from U(1) assms obtain T where T: "lock_step i S T" "runs_to i Holding T U"
    by (cases rule: runs_to.cases) auto
  from T(1) assms(2) obtain n where n: "push_inter_off (hart_view i S) = Inr n" "T = goto i Spinning (hart_put i n S)"
    by (cases rule: lock_step_cases) auto
  with spinning_runs [OF T(2)] assms(1) U hart_view_put [of i S n]
  show "acquire (sys_lock S) (hart_view i S) = Inr (l, m)"
    by (auto simp: acquire_def acquire_spin_eq)
qed

lemma release_runs:
  assumes "i < 8" "sys_pc S i = Holding"
  shows "release (sys_lock S) (hart_view i S) = Inr (l, m) \<longleftrightarrow>
    (\<exists>T. runs_to i Outside S T \<and> sys_lock T = l \<and> hart_view i T = m)"
proof -
  let ?T = "goto i Leaving (S\<lparr>sys_lock := (sys_lock S)\<lparr>available := 1\<rparr>\<rparr>)"
  have 1: "lock_step i S T \<longleftrightarrow> T = ?T" for T
    using assms by (auto simp: test_and_set_def elim!: lock_step_cases intro: lock_step.call_release)
  have 2: "lock_step i ?T U \<longleftrightarrow> (\<exists>n. pop_inter_off (hart_view i S) = Inr n \<and> U = goto i Outside (hart_put i n ?T))" for U
  proof
    assume "lock_step i ?T U"
    then show "\<exists>n. pop_inter_off (hart_view i S) = Inr n \<and> U = goto i Outside (hart_put i n ?T)"
      by (cases rule: lock_step_cases) auto
  next
    assume "\<exists>n. pop_inter_off (hart_view i S) = Inr n \<and> U = goto i Outside (hart_put i n ?T)"
    then show "lock_step i ?T U" using assms(1) by (auto intro!: lock_step.return_release)
  qed
  have "runs_to i Outside S U \<longleftrightarrow> (\<exists>n. pop_inter_off (hart_view i S) = Inr n \<and> U = goto i Outside (hart_put i n ?T))" for U
    using assms by (subst runs_to.simps, simp add: 1) (subst runs_to.simps, auto simp: 2 runs_to.arrived elim: runs_to.cases)
  moreover have "hart_view i (hart_put i n ?T) = n" if "pop_inter_off (hart_view i S) = Inr n" for n
    using hart_view_put [of i ?T n] that by simp
  ultimately show ?thesis
    by (auto simp: release_def test_and_set_def res_simps)
qed

subsection \<open>Mutual exclusion and progress\<close>

text \<open>
  The invariant: the lock is unavailable exactly while some hart holds it, and at most one does.
  When every hart reads its own number, the nesting counter of every cpu says whether its hart
  is between \<open>push_inter_off\<close> and \<open>pop_inter_off\<close>.
\<close>

definition lock_inv :: "lock_sys \<Rightarrow> bool" where
  "lock_inv S \<longleftrightarrow>
     (available (sys_lock S) = 0 \<longleftrightarrow> (\<exists>i. sys_pc S i = Holding))
   \<and> (\<forall>i j. sys_pc S i = Holding \<longrightarrow> sys_pc S j = Holding \<longrightarrow> i = j)
   \<and> (\<forall>i. sys_pc S i \<noteq> Outside \<longrightarrow> i < 8)"

definition own_numbers :: "(nat \<Rightarrow> hart) \<Rightarrow> bool" where
  "own_numbers regs \<longleftrightarrow> (\<forall>i < 8. outreg (regs i) = (\<lambda>_. of_nat i))"

definition layer_inv :: "lock_sys \<Rightarrow> bool" where
  "layer_inv S \<longleftrightarrow> length (sys_cpus S) = 8 \<and> own_numbers (sys_regs S)
   \<and> (\<forall>i < 8. lock_layer (sys_cpus S ! i) = (if sys_pc S i = Outside then 0 else 1))"

lemma lock_step_inv: "lock_step i S S' \<Longrightarrow> lock_inv S \<Longrightarrow> lock_inv S'"
proof (induction rule: lock_step.induct)
  case (call_acquire i S m)
  then show ?case by (auto simp: lock_inv_def; metis lock_pc.distinct)
next
  case (spin_again i S l)
  then show ?case by (auto simp: lock_inv_def try_lock_eq)
next
  case (take_lock i S l)
  then show ?case by (auto simp: lock_inv_def try_lock_eq)
next
  case (call_release i S old l)
  then show ?case by (auto simp: lock_inv_def test_and_set_def)
next
  case (return_release i S m)
  then show ?case by (auto simp: lock_inv_def; metis lock_pc.distinct)
qed

lemma hart_view_cpu:
  assumes "layer_inv S" "i < 8"
  shows "id_ok (hart_view i S)" "this_cpu (hart_view i S) = sys_cpus S ! i"
    "unat (cpu_id (hart_view i S)) = i"
proof -
  have o: "outreg (sys_regs S i) = (\<lambda>_. of_nat i)" "length (sys_cpus S) = 8"
    using assms by (simp_all add: layer_inv_def own_numbers_def)
  have "(ucast (of_nat i :: u64) :: i32) = of_nat i"
    by (simp add: word_unat_eq_iff unsigned_ucast_eq unat_of_nat take_bit_nat_eq_self
        take_bit_eq_mod mod_mod_cancel)
  moreover have "unat (of_nat i :: i32) = i" using assms(2) by (simp add: unat_of_nat)
  ultimately show "unat (cpu_id (hart_view i S)) = i" using o by (simp add: cpu_id_def)
  then show "id_ok (hart_view i S)" "this_cpu (hart_view i S) = sys_cpus S ! i"
    using assms(2) o by (simp_all add: id_ok_def this_cpu_def)
qed

lemma cpus_pushed: "cpus (pushed s) = (cpus s)[unat (cpu_id s) := this_cpu (pushed s)]" if "id_ok s"
  using that by (simp add: pushed_def Let_def) (simp add: set_cpu_def)

lemma cpus_popped: "cpus (popped s) = (cpus s)[unat (cpu_id s) := this_cpu (popped s)]" if "id_ok s"
  using that by (simp add: popped_def Let_def) (simp add: set_cpu_def)

lemma lock_step_layer_inv:
  assumes "lock_step i S S'" "layer_inv S"
  shows "layer_inv S'"
  using assms
proof cases
  case (call_acquire m)
  note v = hart_view_cpu [OF assms(2) call_acquire(2)]
  from call_acquire v have m: "m = pushed (hart_view i S)" by (simp add: push_inter_off_eq)
  from call_acquire assms(2) v show ?thesis
    by (auto simp: layer_inv_def own_numbers_def m cpus_pushed nth_list_update)
next
  case (return_release m)
  note v = hart_view_cpu [OF assms(2) return_release(2)]
  from return_release v have m: "m = popped (hart_view i S)" by (simp add: pop_inter_off_eq)
  from return_release assms(2) v show ?thesis
    by (auto simp: layer_inv_def own_numbers_def m cpus_popped nth_list_update)
qed (auto simp: layer_inv_def)

lemma lock_reachable_inv: "lock_reachable regs S \<Longrightarrow> lock_inv S"
proof (induction rule: lock_reachable.induct)
  case start
  show ?case by (simp add: lock_inv_def lock_start_def spinlock_init_def)
qed (blast intro: lock_step_inv)

lemma lock_reachable_layers: "lock_reachable regs S \<Longrightarrow> own_numbers regs \<Longrightarrow> layer_inv S"
proof (induction rule: lock_reachable.induct)
  case start
  then show ?case by (simp add: layer_inv_def lock_start_def zero_cpu_def)
qed (blast intro: lock_step_layer_inv)

text \<open>
  C3: mutual exclusion. In every state that eight harts running \<open>acquire\<close> and \<open>release\<close> on one
  initialised lock can reach, with their atomic actions interleaved in any order and with
  \<open>read_tp\<close> giving them any numbers whatever, at most one hart holds the lock, and the lock is
  unavailable while one does. If moreover every hart reads its own number, the nesting counter of
  a cpu is 1 exactly while its hart is between its \<open>push_inter_off\<close> and its \<open>pop_inter_off\<close>. The
  atomic actions are those of the code: from every state whatever, a hart that moves alone from
  outside reaches the critical section exactly when \<open>acquire\<close> returns, with its lock and its
  registers and cpus, and from the critical section it leaves exactly as \<open>release\<close> returns.
\<close>

theorem spinlock_mutual_exclusion:
  assumes "lock_reachable regs S" "sys_pc S i = Holding"
  shows "(\<forall>j. sys_pc S j = Holding \<longrightarrow> j = i) \<and> available (sys_lock S) = 0
    \<and> (own_numbers regs \<longrightarrow> (\<forall>k < 8. lock_layer (sys_cpus S ! k) = (if sys_pc S k = Outside then 0 else 1)))
    \<and> (\<forall>T k l m. k < 8 \<longrightarrow> sys_pc T k = Outside \<longrightarrow>
          acquire (sys_lock T) (hart_view k T) = Inr (l, m) \<longleftrightarrow>
          (\<exists>U. runs_to k Holding T U \<and> sys_lock U = l \<and> hart_view k U = m))
    \<and> (\<forall>T k l m. k < 8 \<longrightarrow> sys_pc T k = Holding \<longrightarrow>
          release (sys_lock T) (hart_view k T) = Inr (l, m) \<longleftrightarrow>
          (\<exists>U. runs_to k Outside T U \<and> sys_lock U = l \<and> hart_view k U = m))"
proof (intro conjI allI impI)
  show "available (sys_lock S) = 0" using lock_reachable_inv [OF assms(1)] assms(2) by (auto simp: lock_inv_def)
  show "j = i" if "sys_pc S j = Holding" for j
    using lock_reachable_inv [OF assms(1)] assms(2) that by (auto simp: lock_inv_def)
  show "lock_layer (sys_cpus S ! k) = (if sys_pc S k = Outside then 0 else 1)" if "own_numbers regs" "k < 8" for k
    using lock_reachable_layers [OF assms(1) that(1)] that(2) by (simp add: layer_inv_def)
qed (simp_all add: acquire_runs release_runs)

text \<open>A run of hart 0 through \<open>acquire\<close>, for the witnesses.\<close>

definition hart_regs :: "nat \<Rightarrow> hart" where
  "hart_regs i = zero_hart\<lparr>outreg := (\<lambda>_. of_nat i)\<rparr>"

definition hart0_spinning :: lock_sys where
  "hart0_spinning = (let S = lock_start hart_regs in goto 0 Spinning (hart_put 0 (pushed (hart_view 0 S)) S))"

lemma own_hart_regs: "own_numbers hart_regs"
  by (simp add: own_numbers_def hart_regs_def)

lemma hart0_spins: "lock_reachable hart_regs hart0_spinning" "sys_pc hart0_spinning 0 = Spinning"
proof -
  let ?S = "lock_start hart_regs"
  have inv: "layer_inv ?S" using lock_reachable_layers [OF lock_reachable.start own_hart_regs] .
  have "lock_step 0 ?S (goto 0 Spinning (hart_put 0 (pushed (hart_view 0 ?S)) ?S))"
    using hart_view_cpu(1) [OF inv, of 0]
    by (intro lock_step.call_acquire) (simp_all add: push_inter_off_eq, simp add: lock_start_def)
  then show "lock_reachable hart_regs hart0_spinning" unfolding hart0_spinning_def Let_def
    by (rule lock_reachable.step [OF lock_reachable.start])
  show "sys_pc hart0_spinning 0 = Spinning" by (simp add: hart0_spinning_def Let_def)
qed

lemma hart0_holds:
  "lock_reachable hart_regs (goto 0 Holding (hart0_spinning\<lparr>sys_lock := \<lparr>available = 0\<rparr>\<rparr>))"
proof (rule lock_reachable.step [OF hart0_spins(1)])
  show "lock_step 0 hart0_spinning (goto 0 Holding (hart0_spinning\<lparr>sys_lock := \<lparr>available = 0\<rparr>\<rparr>))"
    by (rule lock_step.take_lock)
      (simp_all add: hart0_spinning_def Let_def try_lock_eq lock_start_def spinlock_init_def)
qed

theorem spinlock_mutual_exclusion_witness:
  "\<exists>S. lock_reachable hart_regs S \<and> sys_pc S 0 = Holding \<and> available (sys_lock S) = 0
    \<and> lock_layer (sys_cpus S ! 0) = 1"
proof -
  let ?S = "goto 0 Holding (hart0_spinning\<lparr>sys_lock := \<lparr>available = 0\<rparr>\<rparr>)"
  have "sys_pc ?S 0 = Holding" by simp
  from spinlock_mutual_exclusion [OF hart0_holds this] own_hart_regs have
    "available (sys_lock ?S) = 0" "\<forall>k < 8. lock_layer (sys_cpus ?S ! k) = (if sys_pc ?S k = Outside then 0 else 1)"
    by blast+
  from this(1) this(2) [rule_format, of 0] hart0_holds show ?thesis by (intro exI [of _ ?S]) simp
qed

text \<open>
  C24: the lock is never lost. A hart that spins in \<open>acquire\<close> finds the lock unavailable only while
  some other hart holds it. When none does, its next step takes the lock; when one does, that hart
  can release, and after its release the next step of the spinning hart takes the lock, whatever
  numbers \<open>read_tp\<close> gives the harts.
\<close>

theorem spinlock_progress:
  assumes "lock_reachable regs S" "sys_pc S i = Spinning"
  shows "(fst (try_lock (sys_lock S)) \<longleftrightarrow> (\<exists>j < 8. j \<noteq> i \<and> sys_pc S j = Holding))
    \<and> ((\<forall>j < 8. sys_pc S j \<noteq> Holding) \<longrightarrow> (\<exists>U. lock_step i S U \<and> sys_pc U i = Holding))
    \<and> (\<forall>j. sys_pc S j = Holding \<longrightarrow>
         (\<exists>T U. lock_step j S T \<and> lock_step i T U \<and> sys_pc U i = Holding \<and> sys_pc U j = Leaving))"
proof -
  note inv = lock_reachable_inv [OF assms(1)]
  have i: "i < 8" using inv assms(2) by (simp add: lock_inv_def)
  have "fst (try_lock (sys_lock S)) \<longleftrightarrow> (\<exists>j < 8. j \<noteq> i \<and> sys_pc S j = Holding)"
  proof
    assume "fst (try_lock (sys_lock S))"
    then obtain j where "sys_pc S j = Holding" using inv by (auto simp: lock_inv_def try_lock_eq)
    moreover from this have "j < 8" "j \<noteq> i" using inv assms(2) by (auto simp: lock_inv_def)
    ultimately show "\<exists>j < 8. j \<noteq> i \<and> sys_pc S j = Holding" by blast
  next
    assume "\<exists>j < 8. j \<noteq> i \<and> sys_pc S j = Holding"
    then show "fst (try_lock (sys_lock S))" using inv by (auto simp: lock_inv_def try_lock_eq)
  qed
  moreover have take: "\<exists>U. lock_step i T U \<and> sys_pc U = (sys_pc T)(i := Holding)"
    if "sys_pc T i = Spinning" "available (sys_lock T) \<noteq> 0" for T
    using lock_step.take_lock [OF i that(1)] that(2) by (force simp: try_lock_eq)
  moreover have "\<exists>T U. lock_step j S T \<and> lock_step i T U \<and> sys_pc U i = Holding \<and> sys_pc U j = Leaving"
    if j: "sys_pc S j = Holding" for j
  proof -
    let ?T = "goto j Leaving (S\<lparr>sys_lock := (sys_lock S)\<lparr>available := 1\<rparr>\<rparr>)"
    have "lock_step j S ?T"
      using inv j by (intro lock_step.call_release) (auto simp: lock_inv_def test_and_set_def)
    moreover have "i \<noteq> j" using j assms(2) by auto
    ultimately show ?thesis using take [of ?T] assms(2) by force
  qed
  moreover have "available (sys_lock S) \<noteq> 0" if "\<forall>j < 8. sys_pc S j \<noteq> Holding"
  proof
    assume "available (sys_lock S) = 0"
    then obtain j where "sys_pc S j = Holding" using inv by (auto simp: lock_inv_def)
    moreover from this have "j < 8" using inv by (auto simp: lock_inv_def)
    ultimately show False using that by blast
  qed
  ultimately show ?thesis using take [OF assms(2)] by (intro conjI) (blast, fastforce, blast)
qed

theorem spinlock_progress_witness:
  "\<exists>U. lock_step 0 hart0_spinning U \<and> sys_pc U 0 = Holding"
proof -
  have "\<not> fst (try_lock (sys_lock hart0_spinning))"
    by (simp add: hart0_spinning_def Let_def lock_start_def spinlock_init_def try_lock_eq)
  with spinlock_progress [OF hart0_spins] hart0_spins(2) show ?thesis by auto
qed

end
