(* ===== verification/Tools.thy ===== *)
theory Tools
  imports Memlayout
begin

text \<open>
  The memory routines of \<open>kernel/tools.c\<close>, on byte memory. Each returns the memory it leaves
  and the pointer it returns. The loop counters and lengths have the widths of the source:
  \<open>int i\<close> and \<open>uint length\<close> are compared as unsigned 32-bit values and \<open>i\<close> indexes sign extended.
  The lemmas give closed forms: \<open>set_memory\<close> fills a range, \<open>memmove\<close> copies a range as if the
  source had been read in full before the first write.
\<close>

section \<open>set\_memory\<close>

function set_memory_loop :: "u64 \<Rightarrow> u8 \<Rightarrow> u32 \<Rightarrow> i32 \<Rightarrow> mem \<Rightarrow> mem" where
  "set_memory_loop tar_start v len i m =
     (if i < len then set_memory_loop tar_start v len (i + 1) (m(tar_start + scast i := v)) else m)"
  by pat_completeness auto
termination
proof (relation "measure (\<lambda>(t, v, len, i, m). unat len - unat i)")
  fix len i :: u32
  assume "i < len"
  then have "unat (i + 1) = unat i + 1" "unat i < unat len"
    by (simp_all add: unat_plus1_less) (simp add: word_less_nat_alt)
  then show "((t, v, len, i + 1, m'), (t, v, len, i, m)) \<in> measure (\<lambda>(t, v, len, i, m). unat len - unat i)"
    for t v m m' by simp
qed simp

definition set_memory :: "u64 \<Rightarrow> i32 \<Rightarrow> u32 \<Rightarrow> mem \<Rightarrow> mem \<times> u64" where
  "set_memory start v len m = (set_memory_loop start (ucast v) len 0 m, start)"

section \<open>memmove\<close>

function memmove_back :: "u64 \<Rightarrow> u64 \<Rightarrow> u32 \<Rightarrow> mem \<Rightarrow> mem" where
  "memmove_back d s n m =
     (if n > 0 then memmove_back (d - 1) (s - 1) (n - 1) (m(d - 1 := m (s - 1))) else m)"
  by pat_completeness auto
termination
  by (relation "measure (\<lambda>(d, s, n, m). unat n)") (auto simp: word_less_nat_alt unat_sub_if')

function memmove_forward :: "u64 \<Rightarrow> u64 \<Rightarrow> u32 \<Rightarrow> mem \<Rightarrow> mem" where
  "memmove_forward d s n m =
     (if n > 0 then memmove_forward (d + 1) (s + 1) (n - 1) (m(d := m s)) else m)"
  by pat_completeness auto
termination
  by (relation "measure (\<lambda>(d, s, n, m). unat n)") (auto simp: word_less_nat_alt unat_sub_if')

definition memmove :: "u64 \<Rightarrow> u64 \<Rightarrow> u32 \<Rightarrow> mem \<Rightarrow> mem \<times> u64" where
  "memmove dst src n m =
     (if n = 0 then (m, dst)
      else if src < dst \<and> src + ucast n > dst
        then (memmove_back (dst + ucast n) (src + ucast n) n m, dst)
        else (memmove_forward dst src n m, dst))"

declare set_memory_loop.simps [simp del] memmove_back.simps [simp del] memmove_forward.simps [simp del]

section \<open>Closed forms\<close>

text \<open>The loop of \<open>set_memory\<close> fills the bytes from index \<open>i\<close> on.\<close>

lemma scast_nonneg:
  fixes i :: i32
  assumes "unat i < 2 ^ 31"
  shows "(scast i :: u64) = ucast i"
proof -
  have "\<not> bit (unat i) 31" using assms by (simp add: bit_iff_odd)
  then have b: "\<not> bit i 31" by (simp add: bit_unsigned_iff)
  show ?thesis
  proof (rule bit_word_eqI)
    fix n :: nat
    assume "n < LENGTH(64)"
    then show "bit (scast i :: u64) n = bit (ucast i :: u64) n"
      using b bit_imp_le_length [of i n] by (cases "n \<le> 31") (auto simp: bit_simps min_def le_Suc_eq)
  qed
qed

lemma ucast_plus1:
  fixes i j :: i32
  assumes "i < j"
  shows "(ucast (i + 1) :: u64) = ucast i + 1"
proof -
  have "(ucast (i + 1) :: u64) = of_nat (unat (i + 1))" by simp
  also have "\<dots> = of_nat (Suc (unat i))" by (simp only: unat_plus1_less [OF assms])
  finally show ?thesis by simp
qed

lemma set_memory_loop_fill:
  assumes "unat len \<le> 2 ^ 31" "i \<le> len"
  shows "set_memory_loop a v len i m = fill m (a + ucast i) (unat len - unat i) v"
  using assms
proof (induction a v len i m rule: set_memory_loop.induct)
  case (1 a v len i m)
  show ?case
  proof (cases "i < len")
    case True
    note s = unat_plus1_less [OF True] and u = ucast_plus1 [OF True]
    let ?b = "a + ucast i"
    have i: "unat i < unat len" using True by (simp add: word_less_nat_alt)
    have "i + 1 \<le> len" using i s by (simp add: word_le_nat_alt)
    then have "set_memory_loop a v len (i + 1) (m(a + scast i := v))
        = fill (m(a + scast i := v)) (a + ucast (i + 1)) (unat len - unat (i + 1)) v"
      using 1 True by blast
    also have "\<dots> = fill (m(?b := v)) (?b + 1) (unat len - Suc (unat i)) v"
      using i 1 by (simp add: s u scast_nonneg add.assoc)
    also have "\<dots> = fill m ?b (unat len - unat i) v"
    proof
      fix x
      show "fill (m(?b := v)) (?b + 1) (unat len - Suc (unat i)) v x = fill m ?b (unat len - unat i) v x"
        using i unat_diff_Suc [of x ?b] by (cases "x = ?b") (auto simp: fill_def)
    qed
    finally show ?thesis using True by (simp add: set_memory_loop.simps [of a v len i m])
  next
    case False
    with 1 have "i = len" by simp
    then show ?thesis by (simp add: set_memory_loop.simps [of a v len len m] fill_def)
  qed
qed

lemma set_memory_fill:
  "unat len \<le> 2 ^ 31 \<Longrightarrow> set_memory a v len m = (fill m a (unat len) (ucast v), a)"
  by (simp add: set_memory_def set_memory_loop_fill)

lemma set_memory_page: "set_memory a v 4096 m = (fill m a 4096 (ucast v), a)"
  by (simp add: set_memory_fill)

text \<open>
  A range copied at once. A forward copy agrees with it when no write hits a byte still to be
  read, that is when \<open>d - s\<close> (modulo \<open>2 ^ 64\<close>) is 0 or at least the length; a backward copy,
  when \<open>s - d\<close> is.
\<close>

definition copy_range :: "mem \<Rightarrow> u64 \<Rightarrow> u64 \<Rightarrow> nat \<Rightarrow> mem" where
  "copy_range m d s n = (\<lambda>x. if unat (x - d) < n then m (s + (x - d)) else m x)"

lemma memmove_forward_copy:
  assumes "d = s \<or> unat n \<le> unat (d - s)"
  shows "memmove_forward d s n m = copy_range m d s (unat n)"
  using assms
proof (induction d s n m rule: memmove_forward.induct)
  case (1 d s n m)
  show ?case
  proof (cases "n > 0")
    case True
    have n: "unat n = Suc (unat (n - 1))"
      using True unat_minus1 [OF True] by (simp add: word_less_nat_alt)
    have "memmove_forward d s n m = memmove_forward (d + 1) (s + 1) (n - 1) (m(d := m s))"
      using True by (simp add: memmove_forward.simps [of d s n m])
    also have "d + 1 = s + 1 \<or> unat (n - 1) \<le> unat (d + 1 - (s + 1))"
      using "1.prems" n by auto
    then have "memmove_forward (d + 1) (s + 1) (n - 1) (m(d := m s))
        = copy_range (m(d := m s)) (d + 1) (s + 1) (unat (n - 1))"
      using "1.IH" [OF True] by blast
    also have "\<dots> = copy_range m d s (unat n)"
    proof
      fix x
      show "copy_range (m(d := m s)) (d + 1) (s + 1) (unat (n - 1)) x = copy_range m d s (unat n) x"
      proof (cases "x = d")
        case True
        then show ?thesis using n by (auto simp: copy_range_def)
      next
        case False
        note x = unat_diff_Suc [OF False]
        have r: "s + 1 + (x - (d + 1)) = s + (x - d)" by simp
        have "s + (x - d) \<noteq> d" if "unat (x - d) < unat n"
        proof
          assume *: "s + (x - d) = d"
          then have "d - s = x - d" by (simp add: algebra_simps)
          with "1.prems" that False show False by auto
        qed
        then show ?thesis using x n False by (auto simp: copy_range_def r simp del: add_diff_eq)
      qed
    qed
    finally show ?thesis .
  next
    case False
    then have "n = 0" by (simp add: word_gt_0)
    then show ?thesis by (simp add: memmove_forward.simps [of d s 0 m] copy_range_def)
  qed
qed

lemma memmove_back_copy:
  assumes "d = s \<or> unat n \<le> unat (s - d)"
  shows "memmove_back (d + ucast n) (s + ucast n) n m = copy_range m d s (unat n)"
  using assms
proof (induction "unat n" arbitrary: n m)
  case 0
  then have "n = 0" by (simp add: unat_eq_0)
  then show ?case by (simp add: memmove_back.simps [of _ _ 0] copy_range_def)
next
  case (Suc l)
  from Suc.hyps(2) have pos: "n > 0" by (simp add: word_less_nat_alt)
  then have l: "unat (n - 1) = l" using unat_minus1 Suc.hyps(2) by fastforce
  with Suc.hyps(2) have "n - 1 < n" by (simp add: word_less_nat_alt)
  then have u: "(ucast n :: u64) = ucast (n - 1) + 1" using ucast_plus1 [of "n - 1" n] by simp
  let ?k = "ucast (n - 1) :: u64"
  let ?m = "m(d + ?k := m (s + ?k))"
  have k: "unat ?k = l" by (simp add: l)
  have "memmove_back (d + ucast n) (s + ucast n) n m = memmove_back (d + ?k) (s + ?k) (n - 1) ?m"
    using pos by (subst memmove_back.simps) (simp add: u algebra_simps)
  also have "\<dots> = copy_range ?m d s (unat (n - 1))"
    using l Suc.prems Suc.hyps(2) by (intro Suc.hyps(1)) auto
  also have "\<dots> = copy_range m d s (unat n)"
  proof
    fix x
    have r: "s + (x - d) \<noteq> d + ?k" if "unat (x - d) < l"
    proof
      assume "s + (x - d) = d + ?k"
      then have *: "s - d = ?k - (x - d)" by (simp add: algebra_simps)
      have "unat (?k - (x - d)) = unat ?k - unat (x - d)"
        using that k by (intro unat_sub) (simp add: word_le_nat_alt)
      then have d: "unat (s - d) = l - unat (x - d)" unfolding * k by simp
      with that have "s \<noteq> d" by auto
      with Suc.prems have "unat n \<le> unat (s - d)" by simp
      with d that Suc.hyps(2) show False by simp
    qed
    have x: "x = d + ?k \<longleftrightarrow> unat (x - d) = l"
      using k by (metis add.commute diff_add_cancel word_unat_eq_iff add_diff_cancel_right')
    show "copy_range ?m d s (unat (n - 1)) x = copy_range m d s (unat n) x"
    proof (cases "x = d + ?k")
      case True
      then show ?thesis using k l Suc.hyps(2) by (simp add: copy_range_def)
    next
      case False
      then show ?thesis using r x l Suc.hyps(2) by (auto simp: copy_range_def less_Suc_eq)
    qed
  qed
  finally show ?case .
qed

lemma memmove_copies_range:
  assumes "unat src + unat n < 2 ^ 64"
  shows "memmove dst src n m = (copy_range m dst src (unat n), dst)"
proof -
  have sn: "unat (src + ucast n) = unat src + unat n"
    using assms by (simp add: unat_word_ariths)
  have n32: "unat n < 2 ^ 32" using unsigned_less [of n] by simp
  show ?thesis
  proof (cases "src < dst \<and> src + ucast n > dst")
    case True
    then have lt: "unat src < unat dst" "unat dst < unat src + unat n"
      by (auto simp: word_less_nat_alt sn)
    then have "unat (src - dst) = 2 ^ 64 + unat src - unat dst"
      by (simp add: unat_sub_if' word_le_nat_alt)
    then have "unat n \<le> unat (src - dst)" using lt n32 by simp
    with True lt show ?thesis by (auto simp: memmove_def memmove_back_copy)
  next
    case False
    have "dst = src \<or> unat n \<le> unat (dst - src)"
    proof (cases "src < dst")
      case True
      with False have "unat src + unat n \<le> unat dst" by (auto simp: word_le_nat_alt sn not_less)
      with True show ?thesis by (simp add: unat_sub less_imp_le le_diff_conv2 word_le_nat_alt)
    next
      case ge: False
      show ?thesis
      proof (cases "dst = src")
        case ne: False
        with ge have "unat dst < unat src" by (metis word_less_nat_alt linorder_neqE)
        then have "unat (dst - src) = 2 ^ 64 + unat dst - unat src"
          by (simp add: unat_sub_if' word_le_nat_alt)
        then have "unat n \<le> unat (dst - src)" using assms by linarith
        then show ?thesis by simp
      qed simp
    qed
    with False show ?thesis by (auto simp: memmove_def memmove_forward_copy copy_range_def)
  qed
qed

text \<open>
  C17: \<open>memmove\<close> copies \<open>n\<close> bytes from \<open>src\<close> to \<open>dst\<close> as if all of them had been read before the
  first was written, whether or not the two ranges overlap, changes no other byte and returns
  \<open>dst\<close>, provided the source range does not run past the end of the address space.
\<close>

theorem memmove_copies:
  assumes "unat src + unat n < 2 ^ 64"
  shows "snd (memmove dst src n m) = dst
    \<and> (\<forall>i < unat n. fst (memmove dst src n m) (dst + of_nat i) = m (src + of_nat i))
    \<and> (\<forall>x. unat n \<le> unat (x - dst) \<longrightarrow> fst (memmove dst src n m) x = m x)"
proof -
  have "unat (of_nat i :: u64) = i" if "i < unat n" for i
    using that unat_less_64 [of n] by (simp add: unat_of_nat)
  then show ?thesis by (simp add: memmove_copies_range [OF assms] copy_range_def)
qed

theorem memmove_copies_witness:
  "fst (memmove 0x1002 0x1000 4 (\<lambda>x. ucast x)) (0x1002 + of_nat 3) = 3"
proof -
  have "\<forall>i < unat (4 :: u32). fst (memmove 0x1002 0x1000 4 (\<lambda>x. ucast x)) (0x1002 + of_nat i) = ucast (0x1000 + of_nat i :: u64)"
    using memmove_copies [where src = "0x1000" and n = 4 and dst = "0x1002" and m = "\<lambda>x. ucast x"] by simp
  from this [rule_format, of 3] show ?thesis by simp
qed

end
