(* ===== verification/Kalloc.thy ===== *)
theory Kalloc
  imports Spinlock Tools
begin

text \<open>
  \<open>kernel/kalloc.c\<close>: the page allocator. The free pages form a linked list through their own
  first eight bytes, so the model keeps the list where the code does, in byte memory, with its
  head in \<open>page_list_keeper.page_link\<close> (\<open>kalloc\<close> writes a member \<open>free_page_link\<close>, which the
  structure does not have; it is read as \<open>page_link\<close>).

  With an empty list \<open>kalloc\<close> goes on to fill the page at address 0, where there is no memory: that
  is \<open>NullDeref\<close>, so \<open>kalloc\<close> never returns a null pointer.

  \<open>mem\<close> is the memory outside the kernel image. \<open>kernel.ld\<close> puts the image (code, and globals such as
  \<open>page_list_keeper\<close> itself) at \<open>KERNBASE\<close>, and \<open>memlayout.h\<close> says that pages are allocated from the end
  of the image up to \<open>PHYSTOP\<close>. The end of the image is a symbol of the linker, so it is a parameter
  of \<open>kalloc_init\<close>, and freeing a page that is not wholly between the two ends is a write outside
  the memory the allocator may touch: \<open>OutOfBounds\<close>. What happens after the code has been overwritten
  is not modelled.

  \<open>free_list\<close> relates the memory to an abstract list of pages. \<open>free_page\<close> pushes on it, \<open>kalloc\<close>
  pops from it, and the loop of \<open>kalloc_init\<close> fills it. The locale \<open>page_allocator\<close> is what the clients of
  the allocator use.
\<close>

section \<open>State\<close>

record keeper =
  k_lock :: spinlock
  page_link :: u64

record kmem = mach +
  mem :: mem
  page_list_keeper :: keeper

section \<open>Operations\<close>

definition free_page :: "u64 \<Rightarrow> 'a kmem_scheme \<Rightarrow> 'a kmem_scheme" where
  "free_page pa s =
     (let pa_start = PGROUNDUP pa;
          m = fst (set_memory pa_start 1 4096 (mem s));
          m = store64 m pa (page_link (page_list_keeper s))
      in s\<lparr>mem := m, page_list_keeper := (page_list_keeper s)\<lparr>page_link := pa\<rparr>\<rparr>)"

definition kalloc :: "'a kmem_scheme \<Rightarrow> (u64 \<times> 'a kmem_scheme) res" where
  "kalloc s =
     then_res (acquire (k_lock (page_list_keeper s)) s) (\<lambda>(l, s).
       let s = s\<lparr>page_list_keeper := (page_list_keeper s)\<lparr>k_lock := l\<rparr>\<rparr>;
           fp = page_link (page_list_keeper s);
           s = (if fp \<noteq> 0
                then s\<lparr>page_list_keeper := (page_list_keeper s)\<lparr>page_link := load64 (mem s) fp\<rparr>\<rparr>
                else s)
       in then_res (release (k_lock (page_list_keeper s)) s) (\<lambda>(l, s).
            let s = s\<lparr>page_list_keeper := (page_list_keeper s)\<lparr>k_lock := l\<rparr>\<rparr>
            in if fp = 0 then Inl NullDeref
               else Inr (fp, s\<lparr>mem := fst (set_memory fp 5 4096 (mem s))\<rparr>)))"

text \<open>The pages the allocator may be given: those from the end of the kernel image to \<open>PHYSTOP\<close>.\<close>

definition spare_page :: "u64 \<Rightarrow> u64 \<Rightarrow> bool" where
  "spare_page kend pa \<longleftrightarrow> kend \<le> pa \<and> pa < PHYSTOP"

function kalloc_init_loop :: "u64 \<Rightarrow> u64 \<Rightarrow> 'a kmem_scheme \<Rightarrow> 'a kmem_scheme res" where
  "kalloc_init_loop kend pa s =
     (if pa \<le> PHYSTOP then
        if spare_page kend (PGROUNDUP pa) then kalloc_init_loop kend (pa + 4096) (free_page pa s)
        else Inl OutOfBounds
      else Inr s)"
  by pat_completeness auto
termination
proof (relation "measure (\<lambda>(kend, pa, s). unat PHYSTOP + 4096 - unat pa)")
  fix kend pa :: u64 and s :: "'a kmem_scheme"
  assume "pa \<le> PHYSTOP"
  then have "unat pa \<le> unat PHYSTOP" "unat PHYSTOP = 0x88000000"
    by (simp_all add: word_le_nat_alt) (simp add: layout_defs)
  then show "((kend, pa + 4096, free_page pa s), (kend, pa, s)) \<in> measure (\<lambda>(kend, pa, s). unat PHYSTOP + 4096 - unat pa)"
    by (simp add: unat_word_ariths)
qed simp

definition kalloc_init :: "u64 \<Rightarrow> 'a kmem_scheme \<Rightarrow> 'a kmem_scheme res" where
  "kalloc_init kend s = kalloc_init_loop kend KERNBASE s"

declare kalloc_init_loop.simps [simp del]

section \<open>The free list in memory\<close>

fun free_list :: "mem \<Rightarrow> u64 \<Rightarrow> u64 list \<Rightarrow> bool" where
  "free_list m p [] \<longleftrightarrow> p = 0"
| "free_list m p (x # xs) \<longleftrightarrow> p = x \<and> x \<noteq> 0 \<and> page_aligned x \<and> free_list m (load64 m x) xs"

definition free_pages :: "'a kmem_scheme \<Rightarrow> u64 list \<Rightarrow> bool" where
  "free_pages s xs \<longleftrightarrow> distinct xs \<and> free_list (mem s) (page_link (page_list_keeper s)) xs"

lemma free_list_cong:
  "(\<And>x. x \<in> set xs \<Longrightarrow> load64 m x = load64 m' x) \<Longrightarrow> free_list m p xs = free_list m' p xs"
  by (induction xs arbitrary: p) auto

lemma free_list_aligned: "free_list m p xs \<Longrightarrow> x \<in> set xs \<Longrightarrow> page_aligned x \<and> x \<noteq> 0"
  by (induction xs arbitrary: p) auto

lemma free_list_unique: "free_list m p xs \<Longrightarrow> free_list m p ys \<Longrightarrow> xs = ys"
proof (induction xs arbitrary: p ys)
  case Nil
  then show ?case by (cases ys) auto
next
  case (Cons x xs)
  then show ?case by (cases ys) auto
qed

lemma slot_0 [simp]: "slot p 0 = p"
  by (simp add: slot_def)

lemma load64_page_store [mem_simps]:
  assumes "page_aligned p" "page_aligned q"
  shows "load64 (store64 m p v) q = (if p = q then v else load64 m q)"
  using load64_store64_slot [of p q 0 0 m v] assms by simp

lemma load64_page_fill [mem_simps]:
  assumes "page_aligned p" "page_aligned q" "p \<noteq> q"
  shows "load64 (fill m p 4096 v) q = load64 m q"
  using load64_fill_other [of p q 0 m v] assms by simp

section \<open>free\_page pushes, kalloc pops\<close>

lemma free_page_eq:
  "page_aligned pa \<Longrightarrow> free_page pa s =
     s\<lparr>mem := store64 (fill (mem s) pa 4096 1) pa (page_link (page_list_keeper s)),
       page_list_keeper := (page_list_keeper s)\<lparr>page_link := pa\<rparr>\<rparr>"
  by (simp add: free_page_def PGROUNDUP_aligned set_memory_page)

lemma free_page_push:
  assumes "free_pages s xs" "page_aligned pa" "pa \<noteq> 0" "pa \<notin> set xs"
  shows "free_pages (free_page pa s) (pa # xs)"
proof -
  let ?m = "store64 (fill (mem s) pa 4096 1) pa (page_link (page_list_keeper s))"
  have "load64 (mem s) x = load64 ?m x" if "x \<in> set xs" for x
    using assms that free_list_aligned [of "mem s" _ xs x]
    by (auto simp: free_pages_def mem_simps)
  then have "free_list ?m (page_link (page_list_keeper s)) xs"
    using assms free_list_cong [of xs "mem s" ?m] by (simp add: free_pages_def)
  then show ?thesis using assms by (simp add: free_pages_def free_page_eq mem_simps)
qed

lemma free_page_other:
  assumes "page_aligned pa" "page_aligned q" "pa \<noteq> q" "in_page q x"
  shows "mem (free_page pa s) x = mem s x"
  using assms store64_other_page [of pa q 0 x] fill_other_page [of pa q x]
  by (simp add: free_page_eq)

lemma free_page_frame [simp]:
  "mach.truncate (free_page pa s) = mach.truncate s"
  "kmem.more (free_page pa s) = kmem.more s"
  "k_lock (page_list_keeper (free_page pa s)) = k_lock (page_list_keeper s)"
  "cpus (free_page pa s) = cpus s" "reg (free_page pa s) = reg s" "procs (free_page pa s) = procs s"
  by (simp_all add: free_page_def mach.truncate_def Let_def)

lemma set_cpu_kmem [simp]:
  "mem (set_cpu c s) = mem s" "page_list_keeper (set_cpu c s) = page_list_keeper s"
  "kmem.more (set_cpu c s) = kmem.more s"
  by (simp_all add: set_cpu_def)

lemma pushed_kmem [simp]:
  "mem (pushed s) = mem s" "page_list_keeper (pushed s) = page_list_keeper s" "kmem.more (pushed s) = kmem.more s"
  "mem (popped s) = mem s" "page_list_keeper (popped s) = page_list_keeper s" "kmem.more (popped s) = kmem.more s"
  by (simp_all add: pushed_def popped_def Let_def)

lemma cpu_kmem [simp]:
  "id_ok (s\<lparr>page_list_keeper := k\<rparr>) = id_ok s" "id_ok (s\<lparr>mem := m\<rparr>) = id_ok s"
  "this_cpu (s\<lparr>page_list_keeper := k\<rparr>) = this_cpu s" "this_cpu (s\<lparr>mem := m\<rparr>) = this_cpu s"
  by (simp_all add: id_ok_def this_cpu_def cpu_id_def)

lemma popped_keeper: "popped (s\<lparr>page_list_keeper := k\<rparr>) = (popped s)\<lparr>page_list_keeper := k\<rparr>"
  by (simp add: popped_def set_cpu_def this_cpu_def cpu_id_def Let_def)

lemma kalloc_eq:
  "id_ok s \<Longrightarrow> kalloc s =
     (let fp = page_link (page_list_keeper s) in
      if available (k_lock (page_list_keeper s)) = 0 then Inl Diverges
      else if fp = 0 then Inl NullDeref
      else Inr (fp, (popped (pushed s))
        \<lparr>mem := fill (mem s) fp 4096 5,
         page_list_keeper := \<lparr>k_lock = (k_lock (page_list_keeper s))\<lparr>available := 1\<rparr>,
           page_link = load64 (mem s) fp\<rparr>\<rparr>))"
  by (simp add: kalloc_def acquire_eq release_eq set_memory_page popped_keeper Let_def)

definition kalloc_ready :: "'a kmem_scheme \<Rightarrow> bool" where
  "kalloc_ready s \<longleftrightarrow> id_ok s \<and> available (k_lock (page_list_keeper s)) \<noteq> 0"

text \<open>\<open>kalloc\<close> leaves all but one page of memory alone, and every global but the keeper.\<close>

definition kalloc_frame :: "u64 \<Rightarrow> 'a kmem_scheme \<Rightarrow> 'a kmem_scheme \<Rightarrow> bool" where
  "kalloc_frame p s s' \<longleftrightarrow> mem s' = fill (mem s) p 4096 5 \<and> kmem.more s' = kmem.more s
     \<and> procs s' = procs s \<and> lock_layer (this_cpu s') = lock_layer (this_cpu s)"

lemma kalloc_pop:
  assumes "free_pages s (x # xs)" "kalloc_ready s"
  shows "\<exists>s'. kalloc s = Inr (x, s') \<and> free_pages s' xs \<and> kalloc_ready s' \<and> kalloc_frame x s s'"
proof -
  from assms have x: "page_link (page_list_keeper s) = x" "x \<noteq> 0" "page_aligned x" "x \<notin> set xs"
    and xs: "distinct xs" "free_list (mem s) (load64 (mem s) x) xs"
    by (auto simp: free_pages_def)
  have "load64 (mem s) y = load64 (fill (mem s) x 4096 5) y" if "y \<in> set xs" for y
    using x free_list_aligned [OF xs(2) that] that by (metis load64_page_fill)
  then have "free_list (fill (mem s) x 4096 5) (load64 (mem s) x) xs"
    using xs(2) free_list_cong [of xs "mem s"] by simp
  with x xs assms(2) show ?thesis
    by (simp add: kalloc_eq kalloc_ready_def kalloc_frame_def free_pages_def)
qed

lemma kalloc_empty: "free_pages s [] \<Longrightarrow> kalloc_ready s \<Longrightarrow> kalloc s = Inl NullDeref"
  by (simp add: kalloc_eq kalloc_ready_def free_pages_def)

text \<open>
  C16: \<open>kalloc\<close> and \<open>free_page\<close> implement a stack of pages. With the free list holding \<open>xs\<close>, freeing
  a page that is aligned, not null and not on the list gives \<open>pa # xs\<close>; the next \<open>kalloc\<close> returns
  \<open>pa\<close>, leaves \<open>xs\<close>, releases the lock it took, fills the page with the byte 5 and changes no
  byte of any other page.
\<close>

theorem kalloc_after_free:
  assumes "free_pages s xs" "kalloc_ready s" "page_aligned pa" "pa \<noteq> 0" "pa \<notin> set xs"
  shows "\<exists>s'. kalloc (free_page pa s) = Inr (pa, s') \<and> free_pages s' xs \<and> kalloc_ready s'
    \<and> (\<forall>x. mem s' x = (if in_page pa x then 5 else mem s x))"
proof -
  have "kalloc_ready (free_page pa s)"
    using assms(2) by (simp add: kalloc_ready_def id_ok_def cpu_id_def)
  from kalloc_pop [OF free_page_push [OF assms(1,3-5)] this] obtain s' where
    s': "kalloc (free_page pa s) = Inr (pa, s')" "free_pages s' xs" "kalloc_ready s'"
    "mem s' = fill (mem (free_page pa s)) pa 4096 5"
    by (auto simp: kalloc_frame_def)
  have "mem s' x = (if in_page pa x then 5 else mem s x)" for x
  proof (cases "in_page pa x")
    case False
    moreover have "\<not> unat (x - pa) < 8" using False by (auto simp: in_page_def)
    ultimately show ?thesis
      using assms(3) by (simp add: s'(4) fill_def in_page_def free_page_eq store64_def)
  qed (simp add: s'(4) fill_def in_page_def)
  with s' show ?thesis by blast
qed

definition empty_kmem :: kmem where
  "empty_kmem = mach.extend zero_mach
     \<lparr>mem = (\<lambda>_. 0), page_list_keeper = \<lparr>k_lock = \<lparr>available = 1\<rparr>, page_link = 0\<rparr>\<rparr>"

lemma empty_kmem_ok: "free_pages empty_kmem []" "kalloc_ready empty_kmem"
  by (simp_all add: empty_kmem_def free_pages_def kalloc_ready_def id_ok_def cpu_id_def
      mach.extend_def zero_mach_def zero_hart_def)

theorem kalloc_after_free_witness:
  "\<exists>s'. kalloc (free_page 0x80001000 empty_kmem) = Inr (0x80001000, s') \<and> free_pages s' []"
  using kalloc_after_free [OF empty_kmem_ok, of "0x80001000"] by (auto simp: page_aligned_def)

section \<open>kalloc\_init\<close>

definition ram_page :: "nat \<Rightarrow> u64" where
  "ram_page k = KERNBASE + 4096 * of_nat k"

lemma unat_ram_page: "k \<le> 32769 \<Longrightarrow> unat (ram_page k) = 0x80000000 + 4096 * k"
  by (simp add: ram_page_def KERNBASE_def unat_word_ariths unat_of_nat)

lemma ram_page_ok:
  assumes "k \<le> 32769"
  shows "page_aligned (ram_page k)" "ram_page k \<noteq> 0" "ram_page k \<le> PHYSTOP \<longleftrightarrow> k \<le> 32768"
    "ram_page k + 4096 = ram_page (Suc k)"
proof -
  note u = unat_ram_page [OF assms]
  show "page_aligned (ram_page k)" by (simp add: page_aligned_def u)
  show "ram_page k \<noteq> 0" using u by (metis unat_0 add_is_0 zero_neq_numeral)
  show "ram_page k \<le> PHYSTOP \<longleftrightarrow> k \<le> 32768" by (simp add: word_le_nat_alt u PHYSTOP_def KERNBASE_def)
  show "ram_page k + 4096 = ram_page (Suc k)" by (simp add: ram_page_def)
qed

lemma ram_page_inj: "j \<le> 32769 \<Longrightarrow> k \<le> 32769 \<Longrightarrow> ram_page j = ram_page k \<longleftrightarrow> j = k"
  by (simp add: word_unat_eq_iff unat_ram_page)

lemma free_pages_fold:
  assumes "free_pages s xs" "distinct (ps @ xs)" "\<forall>p \<in> set ps. page_aligned p \<and> p \<noteq> 0"
  shows "free_pages (fold free_page ps s) (rev ps @ xs)"
  using assms
proof (induction ps arbitrary: s xs)
  case (Cons p ps)
  then have "free_pages (free_page p s) (p # xs)" using free_page_push [of s xs p] by simp
  from Cons.IH [OF this] Cons.prems show ?case by auto
qed simp

lemma fold_free_page_frame:
  "k_lock (page_list_keeper (fold free_page ps s)) = k_lock (page_list_keeper s)
   \<and> reg (fold free_page ps s) = reg s \<and> cpus (fold free_page ps s) = cpus s"
  by (induction ps arbitrary: s) simp_all

lemma ram_pages_ok: "distinct (map ram_page [j..<k])" "\<forall>p \<in> set (map ram_page [j..<k]). page_aligned p \<and> p \<noteq> 0"
  if "k \<le> 32769"
  using that by (auto simp: distinct_map inj_on_def ram_page_inj ram_page_ok)

lemma PHYSTOP_page: "ram_page 32768 = PHYSTOP"
  by (simp add: ram_page_def PHYSTOP_def)

lemma ram_page_spare: "spare_page kend (ram_page k)" if "kend \<le> ram_page j" "j \<le> k" "k < 32768"
proof -
  have "ram_page j \<le> ram_page k" using that by (simp add: word_le_nat_alt unat_ram_page)
  moreover have "ram_page k < PHYSTOP" unfolding PHYSTOP_page [symmetric]
    using that by (simp add: word_less_nat_alt unat_ram_page)
  ultimately show ?thesis using that(1) by (simp add: spare_page_def)
qed

lemma kalloc_init_loop_run:
  assumes "kend \<le> ram_page j" "j \<le> k" "k \<le> 32768"
  shows "kalloc_init_loop kend (ram_page k) s
    = kalloc_init_loop kend PHYSTOP (fold free_page (map ram_page [k..<32768]) s)"
  using assms(2,3)
proof (induction "32768 - k" arbitrary: k s)
  case 0
  then show ?case by (simp add: PHYSTOP_page)
next
  case (Suc n)
  then have k: "k < 32768" "n = 32768 - Suc k" by auto
  then have "kalloc_init_loop kend (ram_page k) s = kalloc_init_loop kend (ram_page (Suc k)) (free_page (ram_page k) s)"
    using ram_page_spare [OF assms(1) Suc.prems(1)] 
    by (subst kalloc_init_loop.simps) (simp add: ram_page_ok PGROUNDUP_aligned)
  then show ?case using Suc.hyps(1) [OF k(2)] Suc.prems k by (simp add: upt_conv_Cons)
qed

lemma kalloc_init_loop_stops: "kalloc_init_loop kend PHYSTOP s = Inl OutOfBounds"
proof -
  have "page_aligned PHYSTOP" unfolding PHYSTOP_page [symmetric] by (rule ram_page_ok) simp
  then show ?thesis by (subst kalloc_init_loop.simps) (simp add: PGROUNDUP_aligned spare_page_def)
qed

lemma kalloc_init_faults: "kalloc_init kend s = Inl OutOfBounds"
proof (cases "kend \<le> ram_page 0")
  case True
  then show ?thesis
    using kalloc_init_loop_run [OF True, of 0] by (simp add: kalloc_init_def ram_page_def kalloc_init_loop_stops)
next
  case False
  moreover have "page_aligned KERNBASE" "KERNBASE \<le> PHYSTOP"
    using ram_page_ok [of 0] by (simp_all add: ram_page_def)
  ultimately show ?thesis unfolding kalloc_init_def
    by (subst kalloc_init_loop.simps) (simp add: PGROUNDUP_aligned spare_page_def ram_page_def)
qed



section \<open>The contract of the allocator\<close>

text \<open>
  What the clients of the allocator use: a state, the pages it owns, and the memory. Allocation
  takes the first owned page and writes to no other; with no page left it follows a null pointer.
\<close>

locale page_allocator =
  fixes alloc :: "'s \<Rightarrow> (u64 \<times> 's) res"
    and owns :: "'s \<Rightarrow> u64 list \<Rightarrow> bool"
    and ready :: "'s \<Rightarrow> bool"
    and bytes :: "'s \<Rightarrow> mem"
  assumes alloc_first: "owns s (x # xs) \<Longrightarrow> ready s \<Longrightarrow>
      \<exists>s'. alloc s = Inr (x, s') \<and> owns s' xs \<and> ready s' \<and> (\<forall>y. \<not> in_page x y \<longrightarrow> bytes s' y = bytes s y)"
    and alloc_none: "owns s [] \<Longrightarrow> ready s \<Longrightarrow> alloc s = Inl NullDeref"
    and owned_aligned: "owns s xs \<Longrightarrow> x \<in> set xs \<Longrightarrow> page_aligned x \<and> x \<noteq> 0"
    and owned_distinct: "owns s xs \<Longrightarrow> distinct xs"
begin

text \<open>Two allocations in a row: different pages, and the second does not touch the first.\<close>

lemma alloc_two:
  assumes "owns s (x # y # zs)" "ready s"
  shows "\<exists>s' s''. alloc s = Inr (x, s') \<and> alloc s' = Inr (y, s'') \<and> x \<noteq> y \<and> owns s'' zs
    \<and> (\<forall>a. in_page x a \<longrightarrow> bytes s'' a = bytes s' a)"
proof -
  from alloc_first [OF assms] obtain s' where s': "alloc s = Inr (x, s')" "owns s' (y # zs)" "ready s'"
    by blast
  from alloc_first [OF s'(2,3)] obtain s'' where s'': "alloc s' = Inr (y, s'')" "owns s'' zs"
    "\<forall>a. \<not> in_page y a \<longrightarrow> bytes s'' a = bytes s' a" by blast
  have "x \<noteq> y" using owned_distinct [OF assms(1)] by auto
  moreover have "page_aligned x" "page_aligned y" using owned_aligned [OF assms(1)] by auto
  ultimately have "\<forall>a. in_page x a \<longrightarrow> \<not> in_page y a" by (blast dest: in_page_unique)
  with s' s'' \<open>x \<noteq> y\<close> show ?thesis by blast
qed

end

interpretation kalloc: page_allocator kalloc free_pages kalloc_ready mem
proof
  fix s :: "'a kmem_scheme" and x xs
  assume "free_pages s (x # xs)" "kalloc_ready s"
  from kalloc_pop [OF this] show "\<exists>s'. kalloc s = Inr (x, s') \<and> free_pages s' xs \<and> kalloc_ready s'
      \<and> (\<forall>y. \<not> in_page x y \<longrightarrow> mem s' y = mem s y)"
    by (auto simp: kalloc_frame_def fill_def in_page_def)
next
  fix s :: "'a kmem_scheme"
  assume "free_pages s []" "kalloc_ready s"
  then show "kalloc s = Inl NullDeref" by (rule kalloc_empty)
next
  fix s :: "'a kmem_scheme" and x xs
  assume "free_pages s xs" "x \<in> set xs"
  then show "page_aligned x \<and> x \<noteq> 0" unfolding free_pages_def by (blast dest: free_list_aligned)
next
  fix s :: "'a kmem_scheme" and xs
  assume "free_pages s xs"
  then show "distinct xs" by (simp add: free_pages_def)
qed

end
