(* ===== verification/Vm.thy ===== *)
theory Vm
  imports Kalloc
begin

text \<open>
  \<open>kernel/vm.c\<close>: Sv39 page tables in physical memory. Page tables are pages of 512 entries in
  the byte memory of the allocator; \<open>walk\<close> descends two levels and allocates missing tables,
  \<open>map\<close> (here \<open>map_vm\<close>) writes leaf entries, \<open>find_pa\<close> translates.

  \<open>wf_pt\<close> ties the memory to a tree of tables, named by the path of indices that leads to them,
  and \<open>pt_abs\<close> abstracts that tree to a function from index triples to leaf entries. The lemmas
  say that \<open>walk\<close> does not change the abstraction, that \<open>map\<close> updates it at the pages it was
  asked for and nowhere else, and that \<open>find_pa\<close> reads it. A page table needs at most two new
  pages per mapped page, which is the bound the theorems ask of the free list.
\<close>

section \<open>Operations\<close>

definition walk_index :: "u64 \<Rightarrow> nat \<Rightarrow> u64" where
  "walk_index va i = drop_bit (12 + 9 * (2 - i)) va AND 0x1FF"

text \<open>The body of the loop of \<open>walk\<close>: the table of the next level, allocated if it is missing.\<close>

definition walk_step :: "nat \<Rightarrow> u64 \<Rightarrow> u64 \<Rightarrow> 'a kmem_scheme \<Rightarrow> (u64 \<times> 'a kmem_scheme) res" where
  "walk_step i va pt s =
     (let cur_pte = slot pt (walk_index va i) in
      if load64 (mem s) cur_pte AND PTE_V \<noteq> 0
      then Inr (push_bit 12 (drop_bit 10 (load64 (mem s) cur_pte)), s)
      else then_res (kalloc s) (\<lambda>(p, s).
        let m = fst (set_memory p 0 4096 (mem s))
        in Inr (p, s\<lparr>mem := store64 m cur_pte (push_bit 10 (drop_bit 12 p) OR PTE_V)\<rparr>)))"

function walk_loop :: "nat \<Rightarrow> u64 \<Rightarrow> u64 \<Rightarrow> 'a kmem_scheme \<Rightarrow> (u64 \<times> 'a kmem_scheme) res" where
  "walk_loop i va pt s =
     (if i < 2 then then_res (walk_step i va pt s) (\<lambda>(pt, s). walk_loop (Suc i) va pt s)
      else Inr (pt, s))"
  by pat_completeness auto
termination
  by (relation "measure (\<lambda>(i, va, pt, s). 2 - i)") auto

declare walk_loop.simps [simp del]

definition walk :: "u64 \<Rightarrow> u64 \<Rightarrow> 'a kmem_scheme \<Rightarrow> (u64 \<times> 'a kmem_scheme) res" where
  "walk pt va s =
     then_res (walk_loop 0 va pt s) (\<lambda>(pt, s). Inr (slot pt (drop_bit 12 va AND 0x1FF), s))"

definition find_pa :: "u64 \<Rightarrow> u64 \<Rightarrow> 'a kmem_scheme \<Rightarrow> (u64 \<times> 'a kmem_scheme) res" where
  "find_pa pt va s = then_res (walk pt va s) (\<lambda>(pte, s).
     Inr (push_bit 12 (drop_bit 10 (load64 (mem s) pte)) OR (va AND 0xFFF), s))"

text \<open>
  The loop of \<open>map\<close> runs \<open>size\<close> times; every caller passes a size below \<open>2 ^ 31\<close>, so its counter
  \<open>int i\<close> does not overflow and the model counts the remaining pages.
\<close>

fun map_loop :: "nat \<Rightarrow> u64 \<Rightarrow> u64 \<Rightarrow> u64 \<Rightarrow> u64 \<Rightarrow> 'a kmem_scheme \<Rightarrow> 'a kmem_scheme res" where
  "map_loop 0 va_start pa pt permission s = Inr s"
| "map_loop (Suc n) va_start pa pt permission s =
     then_res (walk pt va_start s) (\<lambda>(pte_cur, s).
       let s = s\<lparr>mem := store64 (mem s) pte_cur
             (push_bit 10 (drop_bit 12 pa) OR permission OR PTE_V)\<rparr>
       in map_loop n (va_start + 4096) (pa + 4096) pt permission s)"

definition map_vm :: "u64 \<Rightarrow> u64 \<Rightarrow> u64 \<Rightarrow> u64 \<Rightarrow> u64 \<Rightarrow> 'a kmem_scheme \<Rightarrow> 'a kmem_scheme res" where
  "map_vm va pa pt sz permission s = map_loop (unat sz) (PGROUNDDOWN va) pa pt permission s"

record kvm = kmem +
  kernel_pagetable :: u64

text \<open>
  The boot-time mappings; \<open>etext\<close> and \<open>trampoline\<close> are addresses the linker provides. The fourth
  argument of \<open>map\<close> is a number of pages; what the code passes is a number of bytes.
\<close>

definition fatal_pa_map :: "u64 \<Rightarrow> u64 \<Rightarrow> 'a kvm_scheme \<Rightarrow> 'a kvm_scheme res" where
  "fatal_pa_map etext trampoline s =
     then_res (map_vm UART0 UART0 (kernel_pagetable s) PGSIZE (PTE_R OR PTE_W) s) (\<lambda>s.
     then_res (map_vm VIRTIO0 VIRTIO0 (kernel_pagetable s) PGSIZE (PTE_R OR PTE_W) s) (\<lambda>s.
     then_res (map_vm PLIC PLIC (kernel_pagetable s) 0x400000 (PTE_R OR PTE_W) s) (\<lambda>s.
     then_res (map_vm KERNBASE KERNBASE (kernel_pagetable s) (etext - KERNBASE) (PTE_R OR PTE_X) s) (\<lambda>s.
     then_res (map_vm etext etext (kernel_pagetable s) (PHYSTOP - etext) (PTE_R OR PTE_W) s) (\<lambda>s.
     map_vm TRAMPOLINE trampoline (kernel_pagetable s) PGSIZE (PTE_R OR PTE_X) s)))))"

text \<open>\<open>copy_out\<close> calls \<open>memmove\<close> with \<open>source\<close> as the destination, as the code does.\<close>

definition copy_in :: "u64 \<Rightarrow> u64 \<Rightarrow> u64 \<Rightarrow> u64 \<Rightarrow> 'a kmem_scheme \<Rightarrow> 'a kmem_scheme res" where
  "copy_in pt target addr len s = then_res (find_pa pt addr s) (\<lambda>(pa_star, s).
     Inr (s\<lparr>mem := fst (memmove target pa_star (ucast len) (mem s))\<rparr>))"

definition copy_out :: "u64 \<Rightarrow> u64 \<Rightarrow> u64 \<Rightarrow> u64 \<Rightarrow> 'a kmem_scheme \<Rightarrow> 'a kmem_scheme res" where
  "copy_out pt target source len s = then_res (find_pa pt target s) (\<lambda>(pa_star, s).
     Inr (s\<lparr>mem := fst (memmove source pa_star (ucast len) (mem s))\<rparr>))"

text \<open>\<open>init_proc_kstack\<close> of \<open>kernel/proc.c\<close>, which \<open>kvm_init\<close> calls.\<close>

fun init_proc_kstack_loop :: "nat \<Rightarrow> nat \<Rightarrow> u64 \<Rightarrow> 'a kmem_scheme \<Rightarrow> 'a kmem_scheme res" where
  "init_proc_kstack_loop 0 i pgt s = Inr s"
| "init_proc_kstack_loop (Suc n) i pgt s =
     then_res (kalloc s) (\<lambda>(pa, s).
     then_res (map_vm (KSTACK (of_nat i)) pa pgt 4096 (PTE_R OR PTE_W) s) (\<lambda>s.
     init_proc_kstack_loop n (Suc i) pgt s))"

definition init_proc_kstack :: "u64 \<Rightarrow> 'a kmem_scheme \<Rightarrow> 'a kmem_scheme res" where
  "init_proc_kstack pgt s = init_proc_kstack_loop 64 0 pgt s"

definition kvm_init :: "u64 \<Rightarrow> u64 \<Rightarrow> 'a kvm_scheme \<Rightarrow> 'a kvm_scheme res" where
  "kvm_init etext trampoline s =
     then_res (kalloc s) (\<lambda>(p, s).
     let s = s\<lparr>kernel_pagetable := p\<rparr>;
         s = s\<lparr>mem := fst (set_memory (kernel_pagetable s) 0 4096 (mem s))\<rparr>
     in then_res (fatal_pa_map etext trampoline s) (\<lambda>s.
        init_proc_kstack (kernel_pagetable s) s))"

text \<open>
  \<open>vm.c\<close> sees \<open>write_satp\<close> through its prototype in \<open>risc_v.h\<close>, whose parameter is a \<open>uint\<close>: the
  argument is truncated to 32 bits, and passed sign extended as the calling convention has it.
\<close>

definition kvm_page_start :: "'a kvm_scheme \<Rightarrow> 'a kvm_scheme" where
  "kvm_page_start s =
     (let sv39_mode = push_bit 60 8 :: u64;
          arg = ucast (drop_bit 12 (kernel_pagetable s) OR sv39_mode) :: u32
      in s\<lparr>reg := write_satp (scast arg) (reg s)\<rparr>)"

definition empty_vm_create :: "'a kmem_scheme \<Rightarrow> (u64 \<times> 'a kmem_scheme) res" where
  "empty_vm_create s = then_res (kalloc s) (\<lambda>(p, s).
     Inr (p, s\<lparr>mem := fst (set_memory p 0 4096 (mem s))\<rparr>))"

section \<open>Page-table entries\<close>

definition mk_pte :: "u64 \<Rightarrow> u64 \<Rightarrow> u64" where
  "mk_pte pa flags = push_bit 10 (drop_bit 12 pa) OR flags"

definition pte_page :: "u64 \<Rightarrow> u64" where
  "pte_page e = push_bit 12 (drop_bit 10 e)"

lemma pte_page_mk_pte: "drop_bit 10 flags = 0 \<Longrightarrow> pte_page (mk_pte pa flags) = PGROUNDDOWN pa"
proof -
  assume f: "drop_bit 10 flags = 0"
  have "drop_bit 10 (push_bit 10 (drop_bit 12 pa)) = drop_bit 12 pa"
    by (rule bit_word_eqI) (auto simp: bit_simps dest: bit_imp_le_length)
  then show ?thesis using f by (simp add: pte_page_def mk_pte_def PGROUNDDOWN_shift drop_bit_or)
qed

lemma mk_pte_valid: "mk_pte pa (f OR PTE_V) AND PTE_V \<noteq> 0"
proof
  assume "mk_pte pa (f OR PTE_V) AND PTE_V = 0"
  then have "\<not> bit (mk_pte pa (f OR PTE_V) AND PTE_V) 0" by simp
  then show False by (simp add: mk_pte_def PTE_V_def bit_simps)
qed

lemma mk_pte_PTE_V: "mk_pte pa PTE_V AND PTE_V \<noteq> 0"
  using mk_pte_valid [of pa 0] by simp

lemma drop_PTE_V [simp]: "drop_bit 10 PTE_V = 0"
  by (simp add: PTE_V_def)

lemma and_1FF_less: "unat (x AND 0x1FF :: u64) < 512"
proof -
  have "x AND 0x1FF \<le> 0x1FF" by (rule word_and_le1)
  then show ?thesis by (simp add: word_le_nat_alt)
qed

lemma walk_index_less [simp]: "unat (walk_index va i) < 512"
  by (simp add: walk_index_def and_1FF_less)

section \<open>The tree of tables\<close>

text \<open>
  \<open>tbl p\<close> is the table reached from the root by the indices \<open>p\<close>. Tables are aligned and pairwise
  different, every table but the root hangs below another one, and an entry of a table above
  the last level is valid exactly when it leads to a table.
\<close>

definition wf_pt :: "mem \<Rightarrow> u64 \<Rightarrow> (u64 list \<rightharpoonup> u64) \<Rightarrow> bool" where
  "wf_pt m root tbl \<longleftrightarrow> tbl [] = Some root
   \<and> (\<forall>p q. tbl p = Some q \<longrightarrow> page_aligned q \<and> length p \<le> 2)
   \<and> (\<forall>p p' q. tbl p = Some q \<longrightarrow> tbl p' = Some q \<longrightarrow> p = p')
   \<and> (\<forall>p i. tbl p = None \<longrightarrow> tbl (p @ [i]) = None)
   \<and> (\<forall>p q i. tbl p = Some q \<longrightarrow> length p < 2 \<longrightarrow> unat i < 512 \<longrightarrow>
        tbl (p @ [i]) = (if load64 m (slot q i) AND PTE_V \<noteq> 0
                         then Some (pte_page (load64 m (slot q i))) else None))"

definition pt_abs :: "mem \<Rightarrow> (u64 list \<rightharpoonup> u64) \<Rightarrow> u64 \<times> u64 \<times> u64 \<Rightarrow> u64" where
  "pt_abs m tbl = (\<lambda>(i, j, k). case tbl [i, j] of None \<Rightarrow> 0
     | Some q \<Rightarrow> if unat k < 512 then load64 m (slot q k) else 0)"

lemma wf_pt_root: "wf_pt m root tbl \<Longrightarrow> tbl [] = Some root"
  by (simp add: wf_pt_def)

lemma wf_pt_aligned: "wf_pt m root tbl \<Longrightarrow> tbl p = Some q \<Longrightarrow> page_aligned q"
  by (simp add: wf_pt_def)

lemma wf_pt_length: "wf_pt m root tbl \<Longrightarrow> tbl p = Some q \<Longrightarrow> length p \<le> 2"
  by (simp add: wf_pt_def)

lemma wf_pt_inj: "wf_pt m root tbl \<Longrightarrow> tbl p = Some q \<Longrightarrow> tbl p' = Some q \<Longrightarrow> p = p'"
  unfolding wf_pt_def by blast

lemma wf_pt_prefix: "wf_pt m root tbl \<Longrightarrow> tbl p = None \<Longrightarrow> tbl (p @ [i]) = None"
  by (simp add: wf_pt_def)

lemma wf_pt_entry:
  "wf_pt m root tbl \<Longrightarrow> tbl p = Some q \<Longrightarrow> length p < 2 \<Longrightarrow> unat i < 512 \<Longrightarrow>
     tbl (p @ [i]) = (if load64 m (slot q i) AND PTE_V \<noteq> 0
                      then Some (pte_page (load64 m (slot q i))) else None)"
  by (simp add: wf_pt_def)

lemma wf_pt_cong:
  assumes "wf_pt m root tbl"
    and "\<And>p q i. tbl p = Some q \<Longrightarrow> length p < 2 \<Longrightarrow> unat i < 512 \<Longrightarrow>
      load64 m' (slot q i) = load64 m (slot q i)"
  shows "wf_pt m' root tbl"
  using assms by (simp add: wf_pt_def)

text \<open>A fresh zeroed page linked into an invalid entry extends the tree, and adds no leaf.\<close>

definition link_table :: "mem \<Rightarrow> u64 \<Rightarrow> u64 \<Rightarrow> u64 \<Rightarrow> mem" where
  "link_table m q i x = store64 (fill m x 4096 0) (slot q i) (mk_pte x PTE_V)"

lemma load64_link_table:
  assumes "page_aligned q" "page_aligned q'" "page_aligned x" "x \<noteq> q" "unat i < 512" "unat j < 512"
  shows "load64 (link_table m q i x) (slot q' j) =
    (if q' = q \<and> j = i then mk_pte x PTE_V else if q' = x then 0 else load64 m (slot q' j))"
  using assms by (auto simp: link_table_def mem_simps)

lemma link_table_wf:
  assumes wf: "wf_pt m root tbl" and p: "tbl p = Some q" "length p < 2" "unat i < 512" "tbl (p @ [i]) = None"
    and x: "page_aligned x" "x \<notin> ran tbl"
  shows "wf_pt (link_table m q i x) root (tbl(p @ [i] \<mapsto> x))"
    "pt_abs (link_table m q i x) (tbl(p @ [i] \<mapsto> x)) = pt_abs m tbl"
proof -
  let ?m = "link_table m q i x" and ?t = "tbl(p @ [i] \<mapsto> x)"
  have q: "page_aligned q" "x \<noteq> q" using wf_pt_aligned [OF wf p(1)] p(1) x(2) by (auto intro: ranI)
  have old: "load64 ?m (slot q' j) = (if q' = q \<and> j = i then mk_pte x PTE_V else load64 m (slot q' j))"
    if "tbl p' = Some q'" "unat j < 512" for p' q' j
    using load64_link_table [OF q(1) wf_pt_aligned [OF wf that(1)] x(1) q(2) p(3) that(2)]
      that(1) x(2) by (auto dest: ranI)
  have new: "load64 ?m (slot x j) = 0" if "unat j < 512" for j
    using load64_link_table [OF q(1) x(1) x(1) q(2) p(3) that] q(2) by simp
  have inv: "load64 m (slot q i) AND PTE_V = 0"
    using wf_pt_entry [OF wf p(1-3)] p(4) by (simp split: if_splits)
  have parent: "tbl [a, b] = Some q' \<Longrightarrow> q' \<noteq> q" for a b q'
    using wf_pt_inj [OF wf p(1)] p(2) by fastforce
  show "pt_abs ?m ?t = pt_abs m tbl"
  proof (rule ext, clarify)
    fix a b k
    show "pt_abs ?m ?t (a, b, k) = pt_abs m tbl (a, b, k)"
    proof (cases "[a, b] = p @ [i]")
      case True
      then show ?thesis using p(4) new by (auto simp: pt_abs_def)
    next
      case False
      then show ?thesis using old parent by (auto simp: pt_abs_def split: option.splits)
    qed
  qed
  show "wf_pt ?m root ?t"
    unfolding wf_pt_def
  proof (intro conjI allI impI)
    show "?t [] = Some root" using wf_pt_root [OF wf] by simp
  next
    fix p' q' assume "?t p' = Some q'"
    then show "page_aligned q'" "length p' \<le> 2"
      using wf_pt_aligned [OF wf] wf_pt_length [OF wf] x(1) p(2) by (auto split: if_splits)
  next
    fix p1 p2 q' assume "?t p1 = Some q'" "?t p2 = Some q'"
    then show "p1 = p2" using wf_pt_inj [OF wf] x(2) by (auto split: if_splits dest: ranI)
  next
    fix p' j assume "?t p' = None"
    then show "?t (p' @ [j]) = None" using wf_pt_prefix [OF wf] p(1) by (auto split: if_splits)
  next
    fix p' q' and j :: u64 assume *: "?t p' = Some q'" "length p' < 2" "unat j < 512"
    show "?t (p' @ [j]) = (if load64 ?m (slot q' j) AND PTE_V \<noteq> 0
        then Some (pte_page (load64 ?m (slot q' j))) else None)"
    proof (cases "p' = p @ [i]")
      case True
      then show ?thesis using * new wf_pt_prefix [OF wf p(4)] by simp
    next
      case False
      with * have t: "tbl p' = Some q'" by simp
      show ?thesis
      proof (cases "p' = p \<and> j = i")
        case True
        with t p(1) have "q' = q" by simp
        with True * t show ?thesis
          using mk_pte_PTE_V [of x] pte_page_mk_pte [of PTE_V x] PGROUNDDOWN_aligned [OF x(1)]
          by (simp add: old)
      next
        case ne: False
        then have "\<not> (q' = q \<and> j = i)" using wf_pt_inj [OF wf t] p(1) by blast
        then show ?thesis using ne wf_pt_entry [OF wf t *(2,3)] old [OF t *(3)] by auto
      qed
    qed
  qed
qed

section \<open>walk\<close>

text \<open>The page table together with the pages the allocator still owns.\<close>

definition vm_inv :: "'a kmem_scheme \<Rightarrow> u64 \<Rightarrow> (u64 list \<rightharpoonup> u64) \<Rightarrow> u64 list \<Rightarrow> bool" where
  "vm_inv s root tbl xs \<longleftrightarrow> wf_pt (mem s) root tbl \<and> free_pages s xs \<and> kalloc_ready s
     \<and> ran tbl \<inter> set xs = {} \<and> 0 \<notin> ran tbl"

lemma fill_fill [simp]: "fill (fill m p n v) p n w = fill m p n w"
  by (auto simp: fill_def)

lemma free_pages_mem:
  assumes "free_pages s xs" "\<And>x. x \<in> set xs \<Longrightarrow> load64 m x = load64 (mem s) x"
  shows "free_pages (s\<lparr>mem := m\<rparr>) xs"
  using assms free_list_cong [of xs m "mem s"] by (simp add: free_pages_def)

lemma walk_step_ok:
  assumes "vm_inv s root tbl xs" "tbl p = Some q" "length p < 2" "Suc n \<le> length xs"
  shows "\<exists>s' tbl' xs' q'. walk_step l va q s = Inr (q', s') \<and> vm_inv s' root tbl' xs'
    \<and> tbl' (p @ [walk_index va l]) = Some q' \<and> tbl \<subseteq>\<^sub>m tbl'
    \<and> pt_abs (mem s') tbl' = pt_abs (mem s) tbl \<and> n \<le> length xs'
    \<and> (\<exists>us. xs = us @ xs')"
proof -
  let ?i = "walk_index va l" and ?e = "load64 (mem s) (slot q (walk_index va l))"
  have wf: "wf_pt (mem s) root tbl" and fp: "free_pages s xs" and rd: "kalloc_ready s"
    and dj: "ran tbl \<inter> set xs = {}"
    using assms(1) by (auto simp: vm_inv_def)
  note entry = wf_pt_entry [OF wf assms(2,3), of ?i]
  show ?thesis
  proof (cases "?e AND PTE_V \<noteq> 0")
    case True
    then have "walk_step l va q s = Inr (pte_page ?e, s)"
      by (simp add: walk_step_def pte_page_def Let_def)
    with True entry assms show ?thesis by (intro exI [of _ s] exI [of _ tbl] exI [of _ xs]) auto
  next
    case False
    from assms(4) obtain x ys where xs: "xs = x # ys" by (cases xs) auto
    from kalloc_pop [OF fp [unfolded xs] rd] obtain s1 where
      s1: "kalloc s = Inr (x, s1)" "free_pages s1 ys" "kalloc_ready s1" "mem s1 = fill (mem s) x 4096 5"
      by (auto simp: kalloc_frame_def)
    have x: "page_aligned x" "x \<notin> ran tbl" "x \<notin> set ys" "distinct ys"
      using kalloc.owned_aligned [OF fp, of x] dj kalloc.owned_distinct [OF fp] xs by auto
    have none: "tbl (p @ [?i]) = None" using entry False by simp
    let ?s = "s1\<lparr>mem := link_table (mem s) q ?i x\<rparr>"
    have "walk_step l va q s = Inr (x, ?s)"
      using False s1 by (simp add: walk_step_def set_memory_page link_table_def mk_pte_def Let_def)
    moreover note link = link_table_wf [OF wf assms(2,3) walk_index_less none x(1,2)]
    moreover have "free_pages ?s ys"
    proof (rule free_pages_mem [OF s1(2)])
      fix y assume y: "y \<in> set ys"
      then have ya: "page_aligned y" "y \<noteq> x" "y \<noteq> q"
        using kalloc.owned_aligned [OF fp, of y] x(3) xs dj assms(2) by (auto dest: ranI)
      then show "load64 (link_table (mem s) q ?i x) y = load64 (mem s1) y"
        using load64_link_table [of q y x ?i 0] wf_pt_aligned [OF wf assms(2)] x assms(2) s1(4)
        by (metis load64_page_fill ranI slot_0 unat_0 walk_index_less zero_less_numeral)
    qed
    moreover have "ran (tbl(p @ [?i] \<mapsto> x)) \<inter> set ys = {}" "0 \<notin> ran (tbl(p @ [?i] \<mapsto> x))"
      using dj xs x(3) none fp assms(1) by (auto simp: free_pages_def vm_inv_def)
    ultimately show ?thesis
      using s1(3) none xs assms(4)
      by (intro exI [of _ ?s] exI [of _ "tbl(p @ [?i] \<mapsto> x)"] exI [of _ ys] exI [of _ x])
        (auto simp: vm_inv_def kalloc_ready_def map_le_def)
  qed
qed

lemma walk_ok:
  assumes "vm_inv s root tbl xs" "n + 2 \<le> length xs"
  shows "\<exists>s' tbl' xs' q. walk root va s = Inr (slot q (walk_index va 2), s') \<and> vm_inv s' root tbl' xs'
    \<and> tbl' [walk_index va 0, walk_index va 1] = Some q \<and> tbl \<subseteq>\<^sub>m tbl'
    \<and> pt_abs (mem s') tbl' = pt_abs (mem s) tbl \<and> n \<le> length xs' \<and> (\<exists>us. xs = us @ xs')"
proof -
  have "tbl [] = Some root" using assms(1) by (simp add: vm_inv_def wf_pt_def)
  from walk_step_ok [OF assms(1) this, of "Suc n" 0 va] assms(2) obtain s1 t1 x1 q1 where
    1: "walk_step 0 va root s = Inr (q1, s1)" "vm_inv s1 root t1 x1" "t1 [walk_index va 0] = Some q1"
      "tbl \<subseteq>\<^sub>m t1" "pt_abs (mem s1) t1 = pt_abs (mem s) tbl" "Suc n \<le> length x1" "\<exists>us. xs = us @ x1"
    by auto
  from walk_step_ok [OF 1(2,3), of n 1 va] 1(6) obtain s2 t2 x2 q2 where
    2: "walk_step 1 va q1 s1 = Inr (q2, s2)" "vm_inv s2 root t2 x2"
      "t2 [walk_index va 0, walk_index va 1] = Some q2"
      "t1 \<subseteq>\<^sub>m t2" "pt_abs (mem s2) t2 = pt_abs (mem s1) t1" "n \<le> length x2" "\<exists>us. x1 = us @ x2"
    by auto
  have "walk root va s = Inr (slot q2 (walk_index va 2), s2)"
    using 1(1) 2(1) by (simp add: walk_def walk_loop.simps walk_index_def)
  moreover have "\<exists>us. xs = us @ x2" using 1(7) 2(7) by (metis append_assoc)
  moreover have "tbl \<subseteq>\<^sub>m t2" using 1(4) 2(4) by (rule map_le_trans)
  ultimately show ?thesis using 1(5) 2
    by (intro exI [of _ s2] exI [of _ t2] exI [of _ x2] exI [of _ q2]) simp
qed

section \<open>map\<close>

definition va_index :: "u64 \<Rightarrow> u64 \<times> u64 \<times> u64" where
  "va_index va = (walk_index va 0, walk_index va 1, walk_index va 2)"

definition va_tables :: "u64 \<Rightarrow> u64 list" where
  "va_tables va = [walk_index va 0, walk_index va 1]"

text \<open>What \<open>map\<close> does to the abstract page table.\<close>

fun map_abs :: "nat \<Rightarrow> u64 \<Rightarrow> u64 \<Rightarrow> u64 \<Rightarrow> (u64 \<times> u64 \<times> u64 \<Rightarrow> u64) \<Rightarrow> (u64 \<times> u64 \<times> u64 \<Rightarrow> u64)" where
  "map_abs 0 va pa f A = A"
| "map_abs (Suc n) va pa f A = map_abs n (va + 4096) (pa + 4096) f (A(va_index va := mk_pte pa f))"

lemma leaf_store:
  assumes wf: "wf_pt m root tbl" and q: "tbl [i, j] = Some q" and k: "unat k < 512"
  shows "wf_pt (store64 m (slot q k) v) root tbl"
    "pt_abs (store64 m (slot q k) v) tbl = (pt_abs m tbl)((i, j, k) := v)"
proof -
  note qa = wf_pt_aligned [OF wf q]
  have other: "load64 (store64 m (slot q k) v) (slot q' k') =
      (if p = [i, j] \<and> k' = k then v else load64 m (slot q' k'))"
    if "tbl p = Some q'" "unat k' < 512" for p q' k'
    using load64_store64_slot [OF qa wf_pt_aligned [OF wf that(1)] k that(2)] that(1) q
      wf_pt_inj [OF wf q, of p] by auto
  show "wf_pt (store64 m (slot q k) v) root tbl"
    by (rule wf_pt_cong [OF wf]) (auto simp: other)
  show "pt_abs (store64 m (slot q k) v) tbl = (pt_abs m tbl)((i, j, k) := v)"
  proof (rule ext, clarify)
    fix a b c
    show "pt_abs (store64 m (slot q k) v) tbl (a, b, c) = ((pt_abs m tbl)((i, j, k) := v)) (a, b, c)"
      using other [of "[a, b]" _ c] q k by (cases "tbl [a, b]") (auto simp: pt_abs_def)
  qed
qed

lemma map_loop_ok:
  assumes "vm_inv s root tbl xs" "2 * n + e \<le> length xs"
  shows "\<exists>s' tbl' xs'. map_loop n va pa root f s = Inr s' \<and> vm_inv s' root tbl' xs' \<and> tbl \<subseteq>\<^sub>m tbl'
    \<and> e \<le> length xs'
    \<and> pt_abs (mem s') tbl' = map_abs n va pa (f OR PTE_V) (pt_abs (mem s) tbl)
    \<and> (\<forall>j < n. tbl' (va_tables (va + 4096 * of_nat j)) \<noteq> None)"
  using assms
proof (induction n arbitrary: s tbl xs va pa)
  case 0
  then show ?case
    by (intro exI [of _ s] exI [of _ tbl] exI [of _ xs]) simp
next
  case (Suc n)
  from walk_ok [OF Suc.prems(1), of "2 * n + e" va] Suc.prems(2) obtain s1 t1 x1 q us where
    1: "walk root va s = Inr (slot q (walk_index va 2), s1)" "vm_inv s1 root t1 x1"
      "t1 [walk_index va 0, walk_index va 1] = Some q" "tbl \<subseteq>\<^sub>m t1"
      "pt_abs (mem s1) t1 = pt_abs (mem s) tbl" "2 * n + e \<le> length x1"
    by auto
  let ?m = "store64 (mem s1) (slot q (walk_index va 2)) (mk_pte pa (f OR PTE_V))"
  have wf: "wf_pt (mem s1) root t1" and dj: "ran t1 \<inter> set x1 = {}" and fp: "free_pages s1 x1"
    using 1(2) by (auto simp: vm_inv_def)
  note ls = leaf_store [OF wf 1(3) walk_index_less, of va 2 "mk_pte pa (f OR PTE_V)"]
  have "free_pages (s1\<lparr>mem := ?m\<rparr>) x1"
  proof (rule free_pages_mem [OF fp])
    fix x assume "x \<in> set x1"
    then have "page_aligned x" "x \<noteq> q"
      using kalloc.owned_aligned [OF fp] dj 1(3) by (auto dest: ranI)
    then show "load64 ?m x = load64 (mem s1) x"
      using load64_store64_slot [of q x "walk_index va 2" 0] wf_pt_aligned [OF wf 1(3)] by simp
  qed
  then have "vm_inv (s1\<lparr>mem := ?m\<rparr>) root t1 x1"
    using 1(2) ls(1) by (simp add: vm_inv_def kalloc_ready_def)
  from Suc.IH [OF this 1(6), of "va + 4096" "pa + 4096"] obtain s2 t2 x2 where
    2: "map_loop n (va + 4096) (pa + 4096) root f (s1\<lparr>mem := ?m\<rparr>) = Inr s2" "vm_inv s2 root t2 x2"
      "t1 \<subseteq>\<^sub>m t2" "e \<le> length x2"
      "pt_abs (mem s2) t2 = map_abs n (va + 4096) (pa + 4096) (f OR PTE_V) (pt_abs ?m t1)"
      "\<forall>j < n. t2 (va_tables (va + 4096 + 4096 * of_nat j)) \<noteq> None"
    by auto
  have "map_loop (Suc n) va pa root f s = Inr s2"
    using 1(1) 2(1) by (simp add: mk_pte_def or.assoc)
  moreover have "t2 (va_tables (va + 4096 * of_nat j)) \<noteq> None" if "j < Suc n" for j
  proof (cases j)
    case 0
    then show ?thesis using 1(3) 2(3) by (auto simp: va_tables_def map_le_def dom_def)
  next
    case (Suc i)
    then show ?thesis using 2(6) that by (auto simp: algebra_simps)
  qed
  moreover have "pt_abs (mem s2) t2 = map_abs (Suc n) va pa (f OR PTE_V) (pt_abs (mem s) tbl)"
    using 2(5) ls(2) 1(5) by (simp add: va_index_def)
  ultimately show ?case using 2 1(4) map_le_trans by blast
qed

section \<open>Virtual addresses and their indices\<close>

lemma unat_and_1FF: "unat (x AND 0x1FF :: u64) = unat x mod 512"
proof -
  have "x AND 0x1FF = take_bit 9 x" by (simp add: take_bit_eq_mask mask_eq_exp_minus_1)
  then show ?thesis by (simp add: take_bit_eq_mod unat_mod)
qed

lemma unat_walk_index: "unat (walk_index va i) = unat va div 2 ^ (12 + 9 * (2 - i)) mod 512"
  unfolding walk_index_def unat_and_1FF unat_drop_bit_eq by (simp only: drop_bit_eq_div)

lemma page_number_split:
  assumes "(v :: nat) < 2 ^ 27"
  shows "v = v div 2 ^ 18 mod 512 * 2 ^ 18 + v div 2 ^ 9 mod 512 * 2 ^ 9 + v mod 512"
proof -
  have "v div 2 ^ 18 < 512" using assms by (simp add: less_mult_imp_div_less)
  moreover have "v div 2 ^ 9 div 512 = v div 2 ^ 18" by (simp add: div_mult2_eq [symmetric])
  then have "v div 512 div 512 = v div 2 ^ 18" by simp
  moreover have "v div 512 = v div 512 div 512 * 512 + v div 512 mod 512"
    by (rule div_mult_mod_eq [symmetric])
  moreover have "v = v div 512 * 512 + v mod 512" by simp
  ultimately have "v = (v div 2 ^ 18 * 512 + v div 512 mod 512) * 512 + v mod 512" by metis
  with \<open>v div 2 ^ 18 < 512\<close> show ?thesis by (simp add: add_mult_distrib)
qed

lemma va_index_inject:
  assumes "unat va < 2 ^ 39" "unat va' < 2 ^ 39" "va_index va = va_index va'"
  shows "unat va div 4096 = unat va' div 4096"
proof -
  have eq: "unat (walk_index va i) = unat (walk_index va' i)" if "i < 3" for i
    using assms(3) that by (auto simp: va_index_def numeral_3_eq_3 numeral_2_eq_2 less_Suc_eq)
  have d: "x div 4096 div 2 ^ 18 = x div 2 ^ 30" "x div 4096 div 2 ^ 9 = x div 2 ^ 21" for x :: nat
    by (simp_all add: div_mult2_eq [symmetric])
  have "unat va div 4096 < 2 ^ 27" "unat va' div 4096 < 2 ^ 27"
    using assms(1,2) by (simp_all add: less_mult_imp_div_less)
  from page_number_split [OF this(1)] page_number_split [OF this(2)] eq [of 0] eq [of 1] eq [of 2]
  show ?thesis unfolding d by (simp add: unat_walk_index)
qed

lemma map_abs_other:
  "(\<And>j. j < n \<Longrightarrow> t \<noteq> va_index (va + 4096 * of_nat j)) \<Longrightarrow> map_abs n va pa f A t = A t"
proof (induction n arbitrary: va pa A)
  case (Suc n)
  have "t \<noteq> va_index (va + 4096 + 4096 * of_nat j)" if "j < n" for j
    using Suc.prems [of "Suc j"] that by (simp add: algebra_simps)
  moreover have "t \<noteq> va_index va" using Suc.prems [of 0] by simp
  ultimately show ?case by (simp add: Suc.IH)
qed simp

lemma unat_add_pages:
  "unat va + 4096 * j < 2 ^ 39 \<Longrightarrow> unat (va + 4096 * of_nat j :: u64) = unat va + 4096 * j"
  by (simp add: unat_word_ariths unat_of_nat)

lemma map_abs_nth:
  assumes "unat va + 4096 * n \<le> 2 ^ 39" "j < n"
  shows "map_abs n va pa f A (va_index (va + 4096 * of_nat j)) = mk_pte (pa + 4096 * of_nat j) f"
  using assms
proof (induction n arbitrary: va pa A j)
  case (Suc n)
  show ?case
  proof (cases j)
    case 0
    have "va_index va \<noteq> va_index (va + 4096 + 4096 * of_nat i)" if "i < n" for i
    proof
      assume *: "va_index va = va_index (va + 4096 + 4096 * of_nat i)"
      have u: "unat (va + 4096 + 4096 * of_nat i) = unat va + 4096 * Suc i"
        using unat_add_pages [of va "Suc i"] Suc.prems that by (simp add: algebra_simps)
      then have "unat va div 4096 = (unat va + 4096 * Suc i) div 4096"
        using va_index_inject [OF _ _ *] Suc.prems that by simp
      then show False by simp
    qed
    then show ?thesis using 0 by (simp add: map_abs_other)
  next
    case (Suc i)
    have "unat (va + 4096) + 4096 * n \<le> 2 ^ 39"
      using unat_add_pages [of va 1] Suc.prems Suc by simp
    from Suc.IH [OF this, of i "pa + 4096"] Suc.prems Suc show ?thesis by (simp add: algebra_simps)
  qed
qed simp

lemma page_plus_offset:
  assumes "page_aligned p" "unat off < 4096"
  shows "drop_bit 12 (p + off) = drop_bit 12 p" "(p + off) AND 0xFFF = off" "p OR off = p + off"
proof -
  have u: "unat (p + off) = unat p + unat off"
    using aligned_room [of 4096 p "unat off"] assms by (simp add: page_aligned_dvd)
  show d: "drop_bit 12 (p + off) = drop_bit 12 p"
    using assms by (simp add: word_unat_eq_iff drop_bit_eq_div unat_div u page_aligned_dvd div_plus_div_distrib_dvd_left)
  have m: "x AND 0xFFF = take_bit 12 x" for x :: u64 by (simp add: take_bit_eq_mask mask_eq_exp_minus_1)
  show "(p + off) AND 0xFFF = off"
    using assms unfolding m
    by (simp add: word_unat_eq_iff take_bit_eq_mod unat_mod u page_aligned_def mod_add_left_eq [symmetric])
  have "take_bit 12 p = 0" "take_bit 12 off = off"
    using assms by (simp_all add: word_unat_eq_iff take_bit_eq_mod unat_mod page_aligned_def)
  then have "\<not> bit p n \<or> \<not> bit off n" for n by (metis bit_0_eq bit_take_bit_iff bot_apply bot_bool_def)
  then show "p OR off = p + off" by (simp add: disjunctive_add)
qed

lemma walk_index_offset:
  assumes "page_aligned p" "unat off < 4096"
  shows "walk_index (p + off) i = walk_index p i"
proof -
  have "drop_bit (12 + n) (x :: u64) = drop_bit n (drop_bit 12 x)" for n x
    by (simp add: add.commute)
  then show ?thesis by (simp only: walk_index_def page_plus_offset(1) [OF assms])
qed

section \<open>find\_pa\<close>

lemma walk_step_present:
  assumes "wf_pt (mem s) root tbl" "tbl p = Some q" "length p < 2" "tbl (p @ [walk_index va l]) = Some q'"
  shows "walk_step l va q s = Inr (q', s)"
  using wf_pt_entry [OF assms(1-3), of "walk_index va l"] assms(4)
  by (simp add: walk_step_def pte_page_def Let_def split: if_splits)

text \<open>Where the tables are there, \<open>walk\<close> is a lookup: it changes nothing.\<close>

lemma walk_present:
  assumes wf: "wf_pt (mem s) root tbl" and q: "tbl (va_tables va) = Some q"
  shows "walk root va s = Inr (slot q (walk_index va 2), s)"
proof -
  from wf_pt_prefix [OF wf, of "[walk_index va 0]" "walk_index va 1"] q obtain q1 where
    q1: "tbl [walk_index va 0] = Some q1" by (auto simp: va_tables_def)
  have "walk_step 0 va root s = Inr (q1, s)"
    using walk_step_present [OF wf wf_pt_root [OF wf]] q1 by simp
  moreover have "walk_step 1 va q1 s = Inr (q, s)"
    using walk_step_present [OF wf q1] q by (simp add: va_tables_def)
  ultimately show ?thesis by (simp add: walk_def walk_loop.simps walk_index_def)
qed

lemma pt_abs_leaf:
  "tbl (va_tables va) = Some q \<Longrightarrow> pt_abs m tbl (va_index va) = load64 m (slot q (walk_index va 2))"
  by (simp add: pt_abs_def va_tables_def va_index_def)

lemma find_pa_present:
  assumes "wf_pt (mem s) root tbl" "tbl (va_tables va) \<noteq> None"
  shows "find_pa root va s = Inr (pte_page (pt_abs (mem s) tbl (va_index va)) OR (va AND 0xFFF), s)"
proof -
  from assms(2) obtain q where q: "tbl (va_tables va) = Some q" by auto
  show ?thesis
    by (simp add: find_pa_def walk_present [OF assms(1) q] pt_abs_leaf [of tbl va q, OF q] pte_page_def)
qed

text \<open>After a mapping of \<open>n\<close> pages, the translation of byte \<open>off\<close> of page \<open>j\<close>.\<close>

lemma mapped_page_translates:
  assumes wf: "wf_pt (mem s) root tbl" and v: "page_aligned v" "unat v + 4096 * n \<le> 2 ^ 39"
    and abs: "pt_abs (mem s) tbl = map_abs n v pa (perm OR PTE_V) A" and perm: "drop_bit 10 perm = 0"
    and present: "\<forall>j < n. tbl (va_tables (v + 4096 * of_nat j)) \<noteq> None"
    and j: "j < n" and off: "unat off < 4096"
  shows "find_pa root (v + 4096 * of_nat j + off) s = Inr (PGROUNDDOWN (pa + 4096 * of_nat j) + off, s)"
proof -
  let ?p = "v + 4096 * of_nat j"
  have "unat ?p = unat v + 4096 * j" using v(2) j by (intro unat_add_pages) simp
  then have al: "page_aligned ?p" using v(1) by (simp add: page_aligned_dvd)
  have same: "va_index (?p + off) = va_index ?p" "va_tables (?p + off) = va_tables ?p"
    by (simp_all add: va_index_def va_tables_def walk_index_offset [OF al off])
  have "drop_bit 10 (perm OR PTE_V) = 0" using perm by (simp add: drop_bit_or)
  then have "pte_page (pt_abs (mem s) tbl (va_index ?p)) = PGROUNDDOWN (pa + 4096 * of_nat j)"
    by (simp add: abs map_abs_nth [OF v(2) j] pte_page_mk_pte)
  then show ?thesis
    using find_pa_present [OF wf, of "?p + off"] present j same page_plus_offset(2) [OF al off]
      page_plus_offset(3) [OF page_aligned_PGROUNDDOWN off]
    by simp
qed

text \<open>
  C2: translation agrees with mapping. On a well-formed page table with two free pages for each
  page to be mapped, \<open>map\<close> of \<open>n\<close> pages below \<open>2 ^ 39\<close> with flags in the low ten bits succeeds and
  keeps the page table well formed; afterwards \<open>find_pa\<close> sends every byte of page \<open>j < n\<close> of the
  virtual range to the same byte of page \<open>j\<close> of the physical range without changing the state,
  and the leaf entry of every other page is what it was.
\<close>

theorem map_then_find_pa:
  assumes inv: "vm_inv s root tbl xs" and room: "2 * unat n \<le> length xs"
    and va: "unat (PGROUNDDOWN va) + 4096 * unat n \<le> 2 ^ 39" and perm: "drop_bit 10 perm = 0"
  shows "\<exists>s' tbl' xs'. map_vm va pa root n perm s = Inr s' \<and> vm_inv s' root tbl' xs'
    \<and> (\<forall>j off. j < unat n \<longrightarrow> unat off < 4096 \<longrightarrow>
         find_pa root (PGROUNDDOWN va + 4096 * of_nat j + off) s'
           = Inr (PGROUNDDOWN (pa + 4096 * of_nat j) + off, s'))
    \<and> (\<forall>t. (\<forall>j < unat n. t \<noteq> va_index (PGROUNDDOWN va + 4096 * of_nat j)) \<longrightarrow>
         pt_abs (mem s') tbl' t = pt_abs (mem s) tbl t)"
proof -
  let ?v = "PGROUNDDOWN va"
  from map_loop_ok [OF inv, of "unat n" 0 ?v pa perm] room obtain s' tbl' xs' where
    1: "map_vm va pa root n perm s = Inr s'" "vm_inv s' root tbl' xs'"
      "pt_abs (mem s') tbl' = map_abs (unat n) ?v pa (perm OR PTE_V) (pt_abs (mem s) tbl)"
      "\<forall>j < unat n. tbl' (va_tables (?v + 4096 * of_nat j)) \<noteq> None"
    by (auto simp: map_vm_def)
  have wf: "wf_pt (mem s') root tbl'" using 1(2) by (simp add: vm_inv_def)
  note tr = mapped_page_translates [OF wf page_aligned_PGROUNDDOWN va 1(3) perm 1(4)]
  have "pt_abs (mem s') tbl' t = pt_abs (mem s) tbl t"
    if "\<forall>j < unat n. t \<noteq> va_index (?v + 4096 * of_nat j)" for t
    using that by (simp add: 1(3) map_abs_other)
  with 1(1,2) tr show ?thesis by blast
qed

section \<open>A new page table\<close>

lemma single_table_wf:
  assumes "page_aligned x"
  shows "wf_pt (fill m x 4096 0) x [[] \<mapsto> x]" "pt_abs (fill m x 4096 0) [[] \<mapsto> x] = (\<lambda>_. 0)"
  using assms by (auto simp: wf_pt_def pt_abs_def mem_simps)

lemma new_table_inv:
  assumes "free_pages s xs" "kalloc_ready s" "page_aligned x" "x \<notin> set xs" "x \<noteq> 0"
  shows "vm_inv (s\<lparr>mem := fill (mem s) x 4096 0\<rparr>) x [[] \<mapsto> x] xs"
proof -
  let ?m = "fill (mem s) x 4096 0"
  have "free_pages (s\<lparr>mem := ?m\<rparr>) xs"
  proof (rule free_pages_mem [OF assms(1)])
    fix y assume "y \<in> set xs"
    then show "load64 ?m y = load64 (mem s) y"
      using kalloc.owned_aligned [OF assms(1), of y] assms(3,4) by (metis load64_page_fill)
  qed
  then show ?thesis
    using assms single_table_wf(1) [OF assms(3), of "mem s"] by (simp add: vm_inv_def kalloc_ready_def)
qed

text \<open>
  \<open>empty_vm_create\<close> takes one page from the allocator and makes it a well-formed page table in
  which no page is mapped; the pages the allocator still owns are the rest of its list.
\<close>

theorem empty_vm_create_ok:
  assumes "free_pages s (x # xs)" "kalloc_ready s"
  shows "\<exists>s'. empty_vm_create s = Inr (x, s') \<and> vm_inv s' x [[] \<mapsto> x] xs
    \<and> pt_abs (mem s') [[] \<mapsto> x] = (\<lambda>_. 0)"
proof -
  from kalloc_pop [OF assms] obtain s1 where
    s1: "kalloc s = Inr (x, s1)" "free_pages s1 xs" "kalloc_ready s1" by blast
  have x: "page_aligned x" "x \<notin> set xs" "x \<noteq> 0"
    using kalloc.owned_aligned [OF assms(1), of x] kalloc.owned_distinct [OF assms(1)] assms(1)
    by (auto simp: free_pages_def)
  let ?m = "fill (mem s1) x 4096 0"
  have "vm_inv (s1\<lparr>mem := ?m\<rparr>) x [[] \<mapsto> x] xs" by (rule new_table_inv [OF s1(2,3) x])
  moreover have "empty_vm_create s = Inr (x, s1\<lparr>mem := ?m\<rparr>)"
    using s1(1) by (simp add: empty_vm_create_def set_memory_page)
  ultimately show ?thesis using single_table_wf(2) [OF x(1), of "mem s1"] by simp
qed

text \<open>A state with all pages of the memory and the next one free.\<close>

definition stocked :: kmem where
  "stocked = fold free_page (map ram_page [0..<32769]) empty_kmem"

lemma stocked_pages:
  "free_pages stocked (PHYSTOP # rev (map ram_page [0..<32768]))" "kalloc_ready stocked"
proof -
  have "rev (map ram_page [0..<32769]) = PHYSTOP # rev (map ram_page [0..<32768])"
    unfolding PHYSTOP_page [symmetric] using upt_Suc [of 0 32768] by simp
  then show "free_pages stocked (PHYSTOP # rev (map ram_page [0..<32768]))"
    using free_pages_fold [OF empty_kmem_ok(1) _ ram_pages_ok(2) [of 32769 0]] ram_pages_ok(1) [of 32769 0]
    unfolding stocked_def by (metis append_Nil2 order.refl)
  show "kalloc_ready stocked"
    using empty_kmem_ok(2) fold_free_page_frame [of _ empty_kmem]
    by (simp add: stocked_def kalloc_ready_def id_ok_def cpu_id_def)
qed

theorem empty_vm_create_ok_witness:
  "\<exists>s'. empty_vm_create stocked = Inr (PHYSTOP, s')
    \<and> vm_inv s' PHYSTOP [[] \<mapsto> PHYSTOP] (rev (map ram_page [0..<32768]))"
  using empty_vm_create_ok [OF stocked_pages] by blast

lemma some_vm_inv:
  "\<exists>s :: kmem. vm_inv s PHYSTOP [[] \<mapsto> PHYSTOP] (rev (map ram_page [0..<32768]))"
proof -
  let ?x = PHYSTOP and ?xs = "rev (map ram_page [0..<32768])"
  from kalloc_pop [OF stocked_pages] obtain s1 :: kmem where
    "free_pages s1 ?xs" "kalloc_ready s1" by auto
  moreover have "page_aligned ?x" "?x \<notin> set ?xs"
    using kalloc.owned_aligned [OF stocked_pages(1), of ?x] kalloc.owned_distinct [OF stocked_pages(1)] by auto
  moreover have "?x \<noteq> 0" by (simp add: layout_defs)
  ultimately show ?thesis using new_table_inv by blast
qed

theorem map_then_find_pa_witness:
  "\<exists>(s :: kmem) s'. map_vm 0x3000 0x80005000 PHYSTOP 2 (PTE_R OR PTE_W) s = Inr s'
    \<and> find_pa PHYSTOP 0x4010 s' = Inr (0x80006010, s')"
proof -
  from some_vm_inv obtain s :: kmem where
    s: "vm_inv s PHYSTOP [[] \<mapsto> PHYSTOP] (rev (map ram_page [0..<32768]))" by blast
  have pg: "PGROUNDDOWN 0x3000 = 0x3000" "PGROUNDDOWN 0x80006000 = 0x80006000"
    by (simp_all add: PGROUNDDOWN_aligned page_aligned_def)
  have room: "2 * unat (2 :: u64) \<le> length (rev (map ram_page [0..<32768]))" by simp
  have flags: "drop_bit 10 (PTE_R OR PTE_W) = 0" by (simp add: PTE_R_def PTE_W_def)
  have range: "unat (PGROUNDDOWN 0x3000) + 4096 * unat (2 :: u64) \<le> 2 ^ 39" by (simp add: pg)
  from map_then_find_pa [OF s room range flags, of "0x80005000"] obtain s' where
    s': "map_vm 0x3000 0x80005000 PHYSTOP 2 (PTE_R OR PTE_W) s = Inr s'"
    and tr: "\<forall>j off. j < unat (2 :: u64) \<longrightarrow> unat off < 4096 \<longrightarrow>
         find_pa PHYSTOP (PGROUNDDOWN 0x3000 + 4096 * of_nat j + off) s'
           = Inr (PGROUNDDOWN (0x80005000 + 4096 * of_nat j) + off, s')"
    by blast
  have "find_pa PHYSTOP 0x4010 s' = Inr (0x80006010, s')"
    using tr [rule_format, of 1 "0x10"] by (simp add: pg)
  with s' show ?thesis by blast
qed

section \<open>Translating an address that need not be mapped\<close>

text \<open>
  C23: with two free pages, \<open>find_pa\<close> returns for every address: the physical address its leaf entry
  gives, and for an address with no leaf entry the bare page offset, with no error. It may add
  tables, but leaves every leaf entry as it was.
\<close>

theorem find_pa_total:
  assumes "vm_inv s root tbl xs" "2 \<le> length xs"
  shows "\<exists>s' tbl' xs'. find_pa root va s
      = Inr (pte_page (pt_abs (mem s) tbl (va_index va)) OR (va AND 0xFFF), s')
    \<and> vm_inv s' root tbl' xs' \<and> pt_abs (mem s') tbl' = pt_abs (mem s) tbl
    \<and> (pt_abs (mem s) tbl (va_index va) = 0 \<longrightarrow> find_pa root va s = Inr (va AND 0xFFF, s'))"
proof -
  from walk_ok [OF assms(1), of 0 va] assms(2) obtain s' tbl' xs' q where
    w: "walk root va s = Inr (slot q (walk_index va 2), s')" "vm_inv s' root tbl' xs'"
      "tbl' (va_tables va) = Some q" "pt_abs (mem s') tbl' = pt_abs (mem s) tbl"
    by (auto simp: va_tables_def)
  have "find_pa root va s = Inr (pte_page (pt_abs (mem s) tbl (va_index va)) OR (va AND 0xFFF), s')"
    using w(1) pt_abs_leaf [of tbl' va q "mem s'", OF w(3)] by (simp add: find_pa_def pte_page_def w(4))
  with w(2,4) show ?thesis by (auto simp: pte_page_def)
qed

theorem find_pa_total_witness:
  "\<exists>(s :: kmem) s'. find_pa PHYSTOP 0x3123 s = Inr (0x123, s')"
proof -
  from some_vm_inv obtain s :: kmem where
    s: "vm_inv s PHYSTOP [[] \<mapsto> PHYSTOP] (rev (map ram_page [0..<32768]))" by blast
  have "pt_abs (mem s) [[] \<mapsto> PHYSTOP] (va_index 0x3123) = 0" by (simp add: pt_abs_def va_index_def)
  with find_pa_total [OF s, of "0x3123"] show ?thesis by auto
qed

section \<open>copy\_in and copy\_out\<close>

definition translate :: "mem \<Rightarrow> (u64 list \<rightharpoonup> u64) \<Rightarrow> u64 \<Rightarrow> u64" where
  "translate m tbl va = pte_page (pt_abs m tbl (va_index va)) OR (va AND 0xFFF)"

lemma copy_in_present:
  assumes "wf_pt (mem s) root tbl" "tbl (va_tables addr) \<noteq> None"
    "unat (translate (mem s) tbl addr) + unat len < 2 ^ 64" "unat len < 2 ^ 32"
  shows "copy_in root target addr len s
    = Inr (s\<lparr>mem := copy_range (mem s) target (translate (mem s) tbl addr) (unat len)\<rparr>)"
proof -
  have l: "unat (ucast len :: u32) = unat len"
    using assms(4) by (simp add: unsigned_ucast_eq take_bit_nat_eq_self)
  show ?thesis
    using assms(3) memmove_copies_range [of "translate (mem s) tbl addr" "ucast len" target "mem s"]
    by (simp add: copy_in_def find_pa_present [OF assms(1,2)] translate_def [symmetric] l)
qed

lemma copy_out_is_copy_in: "copy_out root target source len s = copy_in root source target len s"
  by (simp add: copy_out_def copy_in_def)

lemma page_split: "PGROUNDDOWN a + (a AND 0xFFF) = a"
proof -
  have "a AND 0xFFF = take_bit 12 a" by (simp add: take_bit_eq_mask mask_eq_exp_minus_1)
  then show ?thesis by (simp only: PGROUNDDOWN_shift bits_ident)
qed

lemma unat_offset_less: "unat (a AND 0xFFF :: u64) < 4096"
  using word_and_le1 [of a "0xFFF"] by (simp add: word_le_nat_alt)

lemma page_aligned_pte_page [simp]: "page_aligned (pte_page e)"
proof -
  have "PGROUNDDOWN (pte_page e) = pte_page e"
    unfolding PGROUNDDOWN_shift pte_page_def
    by (rule bit_word_eqI) (auto simp: bit_simps)
  then show ?thesis by (metis page_aligned_PGROUNDDOWN)
qed

lemma translate_page:
  assumes "page_aligned p" "unat off < 4096"
  shows "translate m tbl (p + off) = pte_page (pt_abs m tbl (va_index p)) + off"
proof -
  have "va_index (p + off) = va_index p" by (simp add: va_index_def walk_index_offset [OF assms])
  then show ?thesis
    by (simp add: translate_def page_plus_offset(2) [OF assms] page_plus_offset(3) assms(2))
qed

lemma translate_add:
  assumes "unat (addr AND 0xFFF) + i < 4096"
  shows "translate m tbl (addr + of_nat i) = translate m tbl addr + of_nat i"
proof -
  let ?p = "PGROUNDDOWN addr" and ?o = "addr AND 0xFFF"
  have u: "unat (?o + of_nat i) = unat ?o + i"
    using assms by (simp add: unat_word_ariths unat_of_nat)
  have "translate m tbl (?p + (?o + of_nat i)) = pte_page (pt_abs m tbl (va_index ?p)) + (?o + of_nat i)"
    using assms by (intro translate_page) (simp_all add: u)
  moreover have "translate m tbl (?p + ?o) = pte_page (pt_abs m tbl (va_index ?p)) + ?o"
    by (intro translate_page) (simp_all add: unat_offset_less)
  ultimately show ?thesis by (simp add: page_split add.assoc [symmetric])
qed

text \<open>
  C26: \<open>copy_in\<close> of a range that does not cross a page boundary of a mapped page copies the bytes
  found at the translations of \<open>addr\<close>, \<open>addr + 1\<close>, and so on, to \<open>target\<close>, and changes nothing else.
\<close>

theorem copy_in_within_page:
  assumes "wf_pt (mem s) root tbl" "tbl (va_tables addr) \<noteq> None"
    "unat (addr AND 0xFFF) + unat len \<le> 4096"
    "unat (translate (mem s) tbl addr) + unat len < 2 ^ 64"
  shows "\<exists>s'. copy_in root target addr len s = Inr s'
    \<and> (\<forall>i < unat len. mem s' (target + of_nat i) = mem s (translate (mem s) tbl (addr + of_nat i)))
    \<and> (\<forall>x. unat len \<le> unat (x - target) \<longrightarrow> mem s' x = mem s x)"
proof -
  have "unat (of_nat i :: u64) = i" if "i < unat len" for i
    using that assms(3) by (simp add: unat_of_nat)
  with copy_in_present [OF assms(1,2,4), of target] assms(3) show ?thesis
    by (auto simp: copy_range_def translate_add)
qed

text \<open>A state in which one page is mapped, and a page that is no page table.\<close>

lemma some_mapped_spare:
  "\<exists>(s :: kmem) tbl x. wf_pt (mem s) PHYSTOP tbl \<and> tbl (va_tables 0x3000) \<noteq> None
    \<and> translate (mem s) tbl 0x3000 = 0x80005000 \<and> page_aligned x \<and> x \<notin> ran tbl \<and> 0 \<notin> ran tbl"
proof -
  from some_vm_inv obtain s :: kmem where
    s: "vm_inv s PHYSTOP [[] \<mapsto> PHYSTOP] (rev (map ram_page [0..<32768]))" by blast
  from map_loop_ok [OF s, of 1 1 "0x3000" "0x80005000" "PTE_R OR PTE_W"] obtain s' :: kmem and tbl' xs' where
    1: "vm_inv s' PHYSTOP tbl' xs'"
      "pt_abs (mem s') tbl' = map_abs 1 0x3000 0x80005000 (PTE_R OR PTE_W OR PTE_V) (pt_abs (mem s) [[] \<mapsto> PHYSTOP])"
      "tbl' (va_tables 0x3000) \<noteq> None" "1 \<le> length xs'"
    by (auto simp: or.assoc)
  from 1(4) obtain x ys where x: "xs' = x # ys" by (cases xs') auto
  have fl: "drop_bit 10 (PTE_R OR PTE_W OR PTE_V) = 0" by (simp add: PTE_R_def PTE_W_def PTE_V_def)
  have "translate (mem s') tbl' (0x3000 + 0) = 0x80005000"
    using translate_page [of "0x3000" 0 "mem s'" tbl'] pte_page_mk_pte [OF fl, of "0x80005000"]
    by (simp add: 1(2) page_aligned_def PGROUNDDOWN_aligned)
  moreover have "page_aligned x" "x \<notin> ran tbl'" "0 \<notin> ran tbl'" using 1(1) x by (auto simp: vm_inv_def free_pages_def)
  ultimately show ?thesis using 1 by (auto simp: vm_inv_def)
qed

lemma some_mapped:
  "\<exists>(s :: kmem) tbl. wf_pt (mem s) PHYSTOP tbl \<and> tbl (va_tables 0x3000) \<noteq> None
    \<and> translate (mem s) tbl 0x3000 = 0x80005000"
  using some_mapped_spare by blast

theorem copy_in_within_page_witness:
  "\<exists>(s :: kmem) s'. copy_in PHYSTOP 0x100 0x3000 8 s = Inr s' \<and> mem s' (0x100 + of_nat 0) = mem s 0x80005000"
proof -
  from some_mapped obtain s :: kmem and tbl where
    s: "wf_pt (mem s) PHYSTOP tbl" "tbl (va_tables 0x3000) \<noteq> None" "translate (mem s) tbl 0x3000 = 0x80005000"
    by blast
  from copy_in_within_page [OF s(1,2), of 8 "0x100"] s(3) show ?thesis by fastforce
qed

text \<open>
  C38: \<open>copy_out\<close> of a range inside a mapped page writes to \<open>source\<close>, not to the page: it leaves every
  byte outside \<open>source .. source + len\<close> as it was, the mapped page included, and puts the bytes of
  the page at \<open>source\<close>.
\<close>

theorem copy_out_writes_source:
  assumes "wf_pt (mem s) root tbl" "tbl (va_tables target) \<noteq> None"
    "unat (target AND 0xFFF) + unat len \<le> 4096"
    "unat (translate (mem s) tbl target) + unat len < 2 ^ 64"
  shows "\<exists>s'. copy_out root target source len s = Inr s'
    \<and> (\<forall>i < unat len. mem s' (source + of_nat i) = mem s (translate (mem s) tbl (target + of_nat i)))
    \<and> (\<forall>x. unat len \<le> unat (x - source) \<longrightarrow> mem s' x = mem s x)"
proof -
  have "unat (of_nat i :: u64) = i" if "i < unat len" for i
    using that assms(3) by (simp add: unat_of_nat)
  then show ?thesis
    using copy_in_present [OF assms(1,2,4), of source] assms(3)
    by (auto simp: copy_out_is_copy_in copy_range_def translate_add)
qed

theorem copy_out_writes_source_witness:
  "\<exists>(s :: kmem) s'. copy_out PHYSTOP 0x3000 0x100 8 s = Inr s' \<and> mem s' 0x80005000 = mem s 0x80005000"
proof -
  from some_mapped obtain s :: kmem and tbl where
    s: "wf_pt (mem s) PHYSTOP tbl" "tbl (va_tables 0x3000) \<noteq> None" "translate (mem s) tbl 0x3000 = 0x80005000"
    by blast
  from copy_out_writes_source [OF s(1,2), of 8 "0x100"] s(3) show ?thesis by fastforce
qed

section \<open>Turning paging on\<close>

text \<open>
  C40: \<open>kvm_page_start\<close> leaves \<open>satp\<close> with the page number of the kernel page table and mode 0, no
  translation, for every page table below \<open>2 ^ 43\<close>: the mode bits are lost in the truncation.
\<close>

theorem kvm_page_start_mode:
  assumes "unat (kernel_pagetable s) < 2 ^ 43"
  shows "satp (reg (kvm_page_start s)) = drop_bit 12 (kernel_pagetable s)
    \<and> drop_bit 60 (satp (reg (kvm_page_start s))) = 0"
proof -
  let ?k = "kernel_pagetable s"
  have small: "unat (drop_bit 12 ?k) < 2 ^ 31"
    using assms by (simp add: drop_bit_eq_div unat_div less_mult_imp_div_less)
  let ?a = "ucast (drop_bit 12 ?k OR push_bit 60 8 :: u64) :: u32"
  have z: "(ucast (push_bit 60 8 :: u64) :: u32) = 0" by (simp add: word_unat_eq_iff)
  have a: "?a = ucast (drop_bit 12 ?k)" unfolding unsigned_or_eq z by simp
  have "unat ?a = unat (drop_bit 12 ?k)"
    using small unfolding a by (simp add: unsigned_ucast_eq take_bit_nat_eq_self)
  then have "(scast ?a :: u64) = drop_bit 12 ?k"
    using small scast_nonneg [of ?a] by (simp add: word_unat_eq_iff)
  moreover have "unat (drop_bit 60 (drop_bit 12 ?k)) = 0"
    using small unfolding unat_drop_bit_eq [of 60] by (simp add: drop_bit_eq_div)
  ultimately show ?thesis by (simp add: kvm_page_start_def write_satp_def Let_def unat_eq_0)
qed

theorem kvm_page_start_mode_witness:
  "satp (reg (kvm_page_start (kmem.extend empty_kmem \<lparr>kernel_pagetable = 0x87fff000\<rparr>))) = 0x87fff"
  using kvm_page_start_mode [of "kmem.extend empty_kmem \<lparr>kernel_pagetable = 0x87fff000\<rparr>"]
  by (simp add: kmem.extend_def)

section \<open>Kernel stacks and the trampoline\<close>

text \<open>
  C39: each round of \<open>init_proc_kstack\<close> maps 4096 pages from the kernel stack upwards, and so maps
  the trampoline page over: after round \<open>i\<close>, \<open>TRAMPOLINE\<close> translates to the physical page
  \<open>2 * (i + 1)\<close> pages above the one allocated for the stack.
\<close>

theorem kstack_overmaps_trampoline:
  assumes "vm_inv s root tbl (x # xs)" "8192 \<le> length xs" "i < 64"
  shows "\<exists>s'. init_proc_kstack_loop 1 i root s = Inr s'
    \<and> find_pa root TRAMPOLINE s' = Inr (x + 4096 * of_nat (2 * (i + 1)), s')"
proof -
  have fp: "free_pages s (x # xs)" and rd: "kalloc_ready s" and wf0: "wf_pt (mem s) root tbl"
    and dj: "ran tbl \<inter> set (x # xs) = {}" using assms(1) by (auto simp: vm_inv_def)
  from kalloc_pop [OF fp rd] obtain s1 where s1: "kalloc s = Inr (x, s1)" "free_pages s1 xs"
    "kalloc_ready s1" "mem s1 = fill (mem s) x 4096 5" by (auto simp: kalloc_frame_def)
  have x: "page_aligned x" using kalloc.owned_aligned [OF fp] by simp
  have "wf_pt (mem s1) root tbl"
  proof (rule wf_pt_cong [OF wf0])
    fix p q and i :: u64
    assume "tbl p = Some q" "unat i < 512"
    moreover from this dj have "x \<noteq> q" by (auto dest: ranI)
    ultimately show "load64 (mem s1) (slot q i) = load64 (mem s) (slot q i)"
      using x wf_pt_aligned [OF wf0] by (simp add: s1(4) load64_fill_other)
  qed
  then have inv: "vm_inv s1 root tbl xs" using s1 dj assms(1) by (auto simp: vm_inv_def)
  let ?k = "KSTACK (of_nat i)" and ?j = "2 * (i + 1)"
  have i: "unat (of_nat i :: u64) = i" using assms(3) by (simp add: unat_of_nat)
  note k = unat_KSTACK [of "of_nat i", unfolded i, OF assms(3)]
  have al: "page_aligned ?k" using assms(3) i by (simp add: page_aligned_KSTACK)
  have bound: "unat ?k + 4096 * 4096 \<le> 2 ^ 39" using k unfolding unat_TRAMPOLINE by simp
  have "unat (?k + 4096 * of_nat ?j) = unat ?k + 4096 * ?j"
    using bound assms(3) by (intro unat_add_pages) simp
  then have tramp: "?k + 4096 * of_nat ?j = TRAMPOLINE"
    using k by (simp add: word_unat_eq_iff)
  from map_loop_ok [OF inv, of 4096 0 ?k x "PTE_R OR PTE_W"] assms(2) obtain s' tbl' xs' where
    2: "map_loop 4096 ?k x root (PTE_R OR PTE_W) s1 = Inr s'" "vm_inv s' root tbl' xs'"
      "pt_abs (mem s') tbl' = map_abs 4096 ?k x ((PTE_R OR PTE_W) OR PTE_V) (pt_abs (mem s1) tbl)"
      "\<forall>j < 4096. tbl' (va_tables (?k + 4096 * of_nat j)) \<noteq> None"
    by auto
  have wf: "wf_pt (mem s') root tbl'" using 2(2) by (simp add: vm_inv_def)
  have fl: "drop_bit 10 (PTE_R OR PTE_W) = 0" by (simp add: PTE_R_def PTE_W_def)
  have "find_pa root (?k + 4096 * of_nat ?j + 0) s' = Inr (PGROUNDDOWN (x + 4096 * of_nat ?j) + 0, s')"
    by (rule mapped_page_translates [OF wf al bound 2(3) fl 2(4)]) (use assms(3) in simp_all)
  moreover have "page_aligned (x + 4096 * of_nat ?j)"
    unfolding page_aligned_dvd
    using x assms(3) by (intro dvd_unat_add) (simp_all add: page_aligned_dvd unat_word_ariths unat_of_nat)
  ultimately have "find_pa root TRAMPOLINE s' = Inr (x + 4096 * of_nat ?j, s')"
    unfolding tramp by (simp add: PGROUNDDOWN_aligned)
  moreover have "init_proc_kstack_loop 1 i root s = Inr s'"
    using s1(1) 2(1) al by (simp add: map_vm_def PGROUNDDOWN_aligned)
  ultimately show ?thesis by blast
qed

theorem kstack_overmaps_trampoline_witness:
  "\<exists>(s :: kmem) s'. init_proc_kstack_loop 1 63 PHYSTOP s = Inr s'
    \<and> find_pa PHYSTOP TRAMPOLINE s' = Inr (ram_page 32767 + 4096 * of_nat (2 * (63 + 1)), s')"
proof -
  from some_vm_inv obtain s :: kmem where
    s: "vm_inv s PHYSTOP [[] \<mapsto> PHYSTOP] (rev (map ram_page [0..<32768]))" by blast
  have "rev (map ram_page [0..<32768]) = ram_page 32767 # rev (map ram_page [0..<32767])"
    using upt_Suc [of 0 32767] by simp
  with s have "vm_inv s PHYSTOP [[] \<mapsto> PHYSTOP] (ram_page 32767 # rev (map ram_page [0..<32767]))" by metis
  from kstack_overmaps_trampoline [OF this, of 63] show ?thesis by auto
qed

end
