(* ===== verification/Proc.thy ===== *)
theory Proc
  imports Spinlock
begin

text \<open>
  \<open>kernel/proc.c\<close>: the current process, the scheduler, and sleeping and waking.

  A context switch hands control to other code. What that code does, from \<open>swtch\<close> until control
  comes back, is a parameter (\<open>run\<close> in the scheduler, \<open>resume\<close> in a process); the routines are
  the code before and after it. \<open>struct cpu c = cpus[\<dots>]\<close> and \<open>struct proc cursor\<close> declare local
  copies, and the model keeps them apart from the arrays. The lock that \<open>sleep\<close> is handed by
  pointer is a pair of functions that read and write it in the state.
\<close>

section \<open>Operations\<close>

definition cur_proc :: "'a mach_scheme \<Rightarrow> (nat option \<times> 'a mach_scheme) res" where
  "cur_proc s =
     then_res (push_inter_off s) (\<lambda>s.
       let (t, h) = read_tp (reg s);
           s = s\<lparr>reg := h\<rparr>;
           ident = ucast t :: i32
       in if unat ident < length (cpus s) then
            let p = cpu_proc (cpus s ! unat ident)
            in then_res (pop_inter_off s) (\<lambda>s. Inr (p, s))
          else Inl OutOfBounds)"

text \<open>\<open>cpus[read_tp()]\<close>, indexed with the 64-bit value.\<close>

definition cpu_copy :: "'a mach_scheme \<Rightarrow> (cpu \<times> 'a mach_scheme) res" where
  "cpu_copy s =
     (let (t, h) = read_tp (reg s)
      in if unat t < length (cpus s) then Inr (cpus s ! unat t, s\<lparr>reg := h\<rparr>) else Inl OutOfBounds)"

definition proc_at :: "nat \<Rightarrow> 'a mach_scheme \<Rightarrow> proc" where
  "proc_at i s = procs s ! i"

definition set_proc :: "nat \<Rightarrow> (proc \<Rightarrow> proc) \<Rightarrow> 'a mach_scheme \<Rightarrow> 'a mach_scheme" where
  "set_proc i f s = s\<lparr>procs := (procs s)[i := f (procs s ! i)]\<rparr>"

definition acquire_proc :: "nat \<Rightarrow> 'a mach_scheme \<Rightarrow> 'a mach_scheme res" where
  "acquire_proc i s =
     (if i < length (procs s)
      then then_res (acquire (p_lock (proc_at i s)) s) (\<lambda>(l, s). Inr (set_proc i (p_lock_update (\<lambda>_. l)) s))
      else Inl OutOfBounds)"

definition release_proc :: "nat \<Rightarrow> 'a mach_scheme \<Rightarrow> 'a mach_scheme res" where
  "release_proc i s =
     (if i < length (procs s)
      then then_res (release (p_lock (proc_at i s)) s) (\<lambda>(l, s). Inr (set_proc i (p_lock_update (\<lambda>_. l)) s))
      else Inl OutOfBounds)"

text \<open>
  One turn of the inner loop of \<open>scheduler\<close>, on the local copy \<open>c\<close> and the machine. \<open>swtch\<close> saves
  the registers in \<open>c.context\<close> and loads those of the process; when control comes back the
  registers are those saved in \<open>c.context\<close>.
\<close>

definition scheduler_step ::
  "(nat \<Rightarrow> 'a mach_scheme \<Rightarrow> 'a mach_scheme res) \<Rightarrow> nat \<Rightarrow> cpu \<times> 'a mach_scheme \<Rightarrow> (cpu \<times> 'a mach_scheme) res" where
  "scheduler_step run i = (\<lambda>(c, s).
     then_res (acquire_proc i s) (\<lambda>s.
     then_res
       (if state (proc_at i s) = RUNNABLE then
          let s = set_proc i (state_update (\<lambda>_. RUNNING)) s;
              c = c\<lparr>cpu_proc := Some i\<rparr>;
              c = c\<lparr>cpu_context := gpr s\<rparr>;
              s = s\<lparr>gpr := p_context (proc_at i s)\<rparr>
          in then_res (run i s) (\<lambda>s.
               let s = s\<lparr>gpr := cpu_context c\<rparr>;
                   c = c\<lparr>cpu_proc := None\<rparr>
               in Inr (c, s))
        else Inr (c, s)) (\<lambda>(c, s).
     then_res (release_proc i s) (\<lambda>s. Inr (c, s)))))"

fun scheduler_scan ::
  "(nat \<Rightarrow> 'a mach_scheme \<Rightarrow> 'a mach_scheme res) \<Rightarrow> nat list \<Rightarrow> cpu \<times> 'a mach_scheme \<Rightarrow> (cpu \<times> 'a mach_scheme) res" where
  "scheduler_scan run [] cs = Inr cs"
| "scheduler_scan run (i # is) cs = then_res (scheduler_step run i cs) (scheduler_scan run is)"

text \<open>\<open>scheduler\<close> never returns; \<open>scheduler_rounds n\<close> is its first \<open>n\<close> passes over the table.\<close>

fun scheduler_loop ::
  "(nat \<Rightarrow> 'a mach_scheme \<Rightarrow> 'a mach_scheme res) \<Rightarrow> nat \<Rightarrow> cpu \<times> 'a mach_scheme \<Rightarrow> (cpu \<times> 'a mach_scheme) res" where
  "scheduler_loop run 0 cs = Inr cs"
| "scheduler_loop run (Suc n) cs = then_res (scheduler_scan run [0..<64] cs) (scheduler_loop run n)"

definition scheduler_rounds ::
  "(nat \<Rightarrow> 'a mach_scheme \<Rightarrow> 'a mach_scheme res) \<Rightarrow> nat \<Rightarrow> 'a mach_scheme \<Rightarrow> (cpu \<times> 'a mach_scheme) res" where
  "scheduler_rounds run n s =
     then_res (cpu_copy s) (\<lambda>(c, s). scheduler_loop run n (c\<lparr>cpu_proc := None\<rparr>, s))"

definition enter_sched :: "('a mach_scheme \<Rightarrow> 'a mach_scheme res) \<Rightarrow> 'a mach_scheme \<Rightarrow> 'a mach_scheme res" where
  "enter_sched resume s =
     then_res (cpu_copy s) (\<lambda>(c, s).
     then_res (cur_proc s) (\<lambda>(p, s).
       if lock_layer c = 1 then
         (case p of
            None \<Rightarrow> Inl NullDeref
          | Some i \<Rightarrow>
              if i < length (procs s) then
                let s = set_proc i (p_context_update (\<lambda>_. gpr s)) s;
                    s = s\<lparr>gpr := cpu_context c\<rparr>
                in then_res (resume s) (\<lambda>s. Inr (s\<lparr>gpr := p_context (proc_at i s)\<rparr>))
              else Inl OutOfBounds)
       else Inr s))"

definition give_up :: "('a mach_scheme \<Rightarrow> 'a mach_scheme res) \<Rightarrow> 'a mach_scheme \<Rightarrow> 'a mach_scheme res" where
  "give_up resume s =
     then_res (cur_proc s) (\<lambda>(p, s).
       case p of
         None \<Rightarrow> Inl NullDeref
       | Some i \<Rightarrow>
           then_res (acquire_proc i s) (\<lambda>s.
           then_res (enter_sched resume (set_proc i (state_update (\<lambda>_. RUNNABLE)) s)) (\<lambda>s.
           release_proc i s)))"

text \<open>
  One turn of the loop of \<open>wakeup\<close>: \<open>cursor\<close> is a copy of \<open>procs[i]\<close>, whose address is never that
  of the current process.
\<close>

definition wakeup_step :: "u64 \<Rightarrow> nat \<Rightarrow> 'a mach_scheme \<Rightarrow> 'a mach_scheme res" where
  "wakeup_step chan i s =
     (if i < length (procs s) then
        let cursor = procs s ! i in
        then_res (cur_proc s) (\<lambda>(p, s).
        then_res (acquire (p_lock cursor) s) (\<lambda>(l, s).
          let cursor = cursor\<lparr>p_lock := l\<rparr>;
              cursor = (if channel cursor = chan \<and> state cursor = SLEEPING
                        then cursor\<lparr>state := RUNNABLE\<rparr> else cursor)
          in then_res (release (p_lock cursor) s) (\<lambda>(l, s). Inr s)))
      else Inl OutOfBounds)"

fun wakeup_loop :: "u64 \<Rightarrow> nat list \<Rightarrow> 'a mach_scheme \<Rightarrow> 'a mach_scheme res" where
  "wakeup_loop chan [] s = Inr s"
| "wakeup_loop chan (i # is) s = then_res (wakeup_step chan i s) (wakeup_loop chan is)"

definition wakeup :: "u64 \<Rightarrow> 'a mach_scheme \<Rightarrow> 'a mach_scheme res" where
  "wakeup chan s = wakeup_loop chan [0..<64] s"

definition sleep ::
  "('a mach_scheme \<Rightarrow> spinlock) \<Rightarrow> (spinlock \<Rightarrow> 'a mach_scheme \<Rightarrow> 'a mach_scheme) \<Rightarrow> u64 \<Rightarrow>
   ('a mach_scheme \<Rightarrow> 'a mach_scheme res) \<Rightarrow> 'a mach_scheme \<Rightarrow> 'a mach_scheme res" where
  "sleep get put chan resume s =
     then_res (cur_proc s) (\<lambda>(p, s).
       case p of
         None \<Rightarrow> Inl NullDeref
       | Some i \<Rightarrow>
           then_res (acquire_proc i s) (\<lambda>s.
           let s = set_proc i (\<lambda>p. p\<lparr>state := SLEEPING, channel := chan\<rparr>) s
           in then_res (release (get s) s) (\<lambda>(l, s).
           let s = put l s
           in then_res (enter_sched resume s) (\<lambda>s.
           let s = set_proc i (channel_update (\<lambda>_. 0)) s
           in then_res (release_proc i s) (\<lambda>s.
           then_res (acquire (get s) s) (\<lambda>(l, s).
           Inr (put l s)))))))"

section \<open>The current process\<close>

text \<open>What \<open>cur_proc\<close> leaves: the machine after a push and a pop.\<close>

definition cycled :: "'a mach_scheme \<Rightarrow> 'a mach_scheme" where
  "cycled s = popped ((pushed s)\<lparr>reg := (reg (pushed s))\<lparr>tp := outreg (reg s) 0\<rparr>\<rparr>)"

lemma cur_proc_eq:
  assumes "id_ok s"
  shows "cur_proc s = Inr (cpu_proc (this_cpu s), cycled s)"
proof -
  have "cpu_proc (cpus (pushed s) ! unat (ucast (outreg (reg s) 0) :: i32)) = cpu_proc (this_cpu (pushed s))"
    by (simp add: this_cpu_def cpu_id_def)
  with assms show ?thesis
    by (simp add: cur_proc_def push_inter_off_eq pop_inter_off_eq read_tp_def cycled_def Let_def id_ok_def cpu_id_def)
qed

lemma cycled_frame [simp]:
  "procs (cycled s) = procs s" "gpr (cycled s) = gpr s" "mach.more (cycled s) = mach.more s"
  "outreg (reg (cycled s)) = outreg (reg s)" "length (cpus (cycled s)) = length (cpus s)"
  by (simp_all add: cycled_def)

lemma id_ok_cycled [simp]: "id_ok (cycled s) = id_ok s"
  by (simp add: id_ok_def cpu_id_def)

lemma this_cpu_cycled [simp]:
  "id_ok s \<Longrightarrow> this_cpu (cycled s) =
     (this_cpu s)\<lparr>interrupt_disabled := if lock_layer (this_cpu s) = 0 then 1 else 0\<rparr>"
  by (simp add: cycled_def id_ok_def cpu_id_def)

lemma cpu_copy_eq:
  "steady (outreg (reg s)) \<Longrightarrow> cpu_copy s = (if unat (outreg (reg s) 0) < length (cpus s)
     then Inr (cpus s ! unat (outreg (reg s) 0), s\<lparr>reg := (reg s)\<lparr>tp := outreg (reg s) 0\<rparr>\<rparr>) else Inl OutOfBounds)"
  by (simp add: cpu_copy_def read_tp_def Let_def)

lemma id_ok_steady: "id_ok s \<Longrightarrow> steady (outreg (reg s))"
  by (simp add: id_ok_def)

lemma set_proc_frame [simp]:
  "reg (set_proc i f s) = reg s" "cpus (set_proc i f s) = cpus s" "gpr (set_proc i f s) = gpr s"
  "mach.more (set_proc i f s) = mach.more s" "length (procs (set_proc i f s)) = length (procs s)"
  "id_ok (set_proc i f s) = id_ok s" "this_cpu (set_proc i f s) = this_cpu s"
  by (simp_all add: set_proc_def)

lemma proc_at_set_proc [simp]:
  "i < length (procs s) \<Longrightarrow> proc_at j (set_proc i f s) = (if i = j then f (proc_at i s) else proc_at j s)"
  by (simp add: proc_at_def set_proc_def)

lemma proc_at_simps [simp]:
  "proc_at i (pushed s) = proc_at i s" "proc_at i (popped s) = proc_at i s"
  "proc_at i (cycled s) = proc_at i s" "proc_at i (s\<lparr>gpr := g\<rparr>) = proc_at i s"
  "proc_at i (s\<lparr>reg := h\<rparr>) = proc_at i s" "proc_at i (s\<lparr>cpus := cs\<rparr>) = proc_at i s"
  by (simp_all add: proc_at_def)

lemma acquire_proc_eq:
  "i < length (procs s) \<Longrightarrow> id_ok s \<Longrightarrow> acquire_proc i s =
     (if available (p_lock (proc_at i s)) = 0 then Inl Diverges
      else Inr (set_proc i (\<lambda>p. p\<lparr>p_lock := (p_lock p)\<lparr>available := 0\<rparr>\<rparr>) (pushed s)))"
  by (simp add: acquire_proc_def acquire_eq set_proc_def proc_at_def)

lemma release_proc_eq:
  "i < length (procs s) \<Longrightarrow> id_ok s \<Longrightarrow> release_proc i s =
     Inr (set_proc i (\<lambda>p. p\<lparr>p_lock := (p_lock p)\<lparr>available := 1\<rparr>\<rparr>) (popped s))"
  by (simp add: release_proc_def release_eq set_proc_def proc_at_def)

section \<open>wakeup\<close>

lemma wakeup_step_eq:
  assumes "id_ok s" "i < length (procs s)"
  shows "wakeup_step chan i s = (if available (p_lock (procs s ! i)) = 0 then Inl Diverges
    else Inr (popped (pushed (cycled s))))"
  using assms by (simp add: wakeup_step_def cur_proc_eq acquire_eq release_eq Let_def)

lemma wakeup_loop_spec:
  assumes "id_ok s" "\<And>i. i \<in> set is \<Longrightarrow> i < length (procs s)"
  shows "case wakeup_loop chan is s of
      Inr s' \<Rightarrow> (\<forall>i \<in> set is. available (p_lock (procs s ! i)) \<noteq> 0) \<and> procs s' = procs s
        \<and> gpr s' = gpr s \<and> mach.more s' = mach.more s \<and> id_ok s'
        \<and> lock_layer (this_cpu s') = lock_layer (this_cpu s)
    | Inl e \<Rightarrow> e = Diverges \<and> (\<exists>i \<in> set is. available (p_lock (procs s ! i)) = 0)"
  using assms
proof (induction "is" arbitrary: s)
  case Nil
  then show ?case by simp
next
  case (Cons i "is")
  let ?s = "popped (pushed (cycled s))"
  show ?case
  proof (cases "available (p_lock (procs s ! i)) = 0")
    case True
    then show ?thesis using Cons.prems by (auto simp: wakeup_step_eq)
  next
    case False
    then have "wakeup_loop chan (i # is) s = wakeup_loop chan is ?s"
      using Cons.prems by (simp add: wakeup_step_eq)
    moreover have "lock_layer (this_cpu ?s) = lock_layer (this_cpu s)" using Cons.prems by simp
    ultimately show ?thesis
      using Cons.IH [of ?s] Cons.prems False by (auto split: sum.splits)
  qed
qed

lemma wakeup_ok:
  assumes "id_ok s" "length (procs s) = 64" "\<forall>p \<in> set (procs s). available (p_lock p) \<noteq> 0"
  shows "\<exists>t. wakeup chan s = Inr t \<and> procs t = procs s \<and> gpr t = gpr s \<and> mach.more t = mach.more s
    \<and> id_ok t \<and> lock_layer (this_cpu t) = lock_layer (this_cpu s)"
  using wakeup_loop_spec [of s "[0..<64]" chan] assms by (auto simp: wakeup_def split: sum.splits)

text \<open>
  C36: \<open>wakeup\<close> changes no process: on a machine with 64 processes it returns exactly when every
  process lock is available, with the process table, the nesting level and the rest of the
  state as they were, so a process asleep on the channel is still asleep; when some process
  lock is held it never returns, because it spins on its own copy of that lock.
\<close>

theorem wakeup_wakes_nobody:
  assumes "id_ok s" "length (procs s) = 64"
  shows "case wakeup chan s of
      Inr s' \<Rightarrow> (\<forall>p \<in> set (procs s). available (p_lock p) \<noteq> 0) \<and> procs s' = procs s
        \<and> gpr s' = gpr s \<and> mach.more s' = mach.more s
        \<and> lock_layer (this_cpu s') = lock_layer (this_cpu s)
    | Inl e \<Rightarrow> e = Diverges \<and> (\<exists>p \<in> set (procs s). available (p_lock p) = 0)"
proof -
  have "(\<forall>i \<in> set [0..<64]. available (p_lock (procs s ! i)) \<noteq> 0) \<longleftrightarrow> (\<forall>p \<in> set (procs s). available (p_lock p) \<noteq> 0)"
    using assms(2) by (auto simp: all_set_conv_all_nth)
  moreover have "(\<exists>i \<in> set [0..<64]. available (p_lock (procs s ! i)) = 0) \<longleftrightarrow> (\<exists>p \<in> set (procs s). available (p_lock p) = 0)"
    using assms(2) by (metis atLeastLessThan_iff bot_nat_0.extremum in_set_conv_nth set_upt)
  ultimately show ?thesis
    using wakeup_loop_spec [of s "[0..<64]" chan] assms unfolding wakeup_def
    by (auto split: sum.splits)
qed

text \<open>A machine whose process locks are free and whose process 0 sleeps on channel 7.\<close>

definition sleeper_mach :: mach where
  "sleeper_mach = zero_mach\<lparr>procs := replicate 64 (zero_proc\<lparr>p_lock := \<lparr>available = 1\<rparr>, state := SLEEPING, channel := 7\<rparr>)\<rparr>"

theorem wakeup_wakes_nobody_witness:
  "\<exists>s'. wakeup 7 sleeper_mach = Inr s' \<and> state (procs s' ! 0) = SLEEPING"
proof -
  have "id_ok sleeper_mach" "length (procs sleeper_mach) = 64" by (simp_all add: sleeper_mach_def)
  from wakeup_wakes_nobody [OF this, of 7] show ?thesis
    by (auto simp: sleeper_mach_def split: sum.splits)
qed

section \<open>The scheduler\<close>

text \<open>Where a switch to process \<open>i\<close> leads: it is marked running, its lock is held, its registers are loaded.\<close>

definition switched_to :: "nat \<Rightarrow> 'a mach_scheme \<Rightarrow> bool" where
  "switched_to i s \<longleftrightarrow> state (proc_at i s) = RUNNING \<and> available (p_lock (proc_at i s)) = 0
     \<and> gpr s = p_context (proc_at i s)"

definition switch_state :: "nat \<Rightarrow> 'a mach_scheme \<Rightarrow> 'a mach_scheme" where
  "switch_state i s = (let t = set_proc i (\<lambda>p. p\<lparr>p_lock := (p_lock p)\<lparr>available := 0\<rparr>, state := RUNNING\<rparr>) (pushed s)
     in t\<lparr>gpr := p_context (proc_at i t)\<rparr>)"

lemma set_proc_set_proc: "i < length (procs s) \<Longrightarrow> set_proc i f (set_proc i g s) = set_proc i (\<lambda>p. f (g p)) s"
  by (simp add: set_proc_def)

lemma scheduler_step_runnable:
  assumes "id_ok s" "i < length (procs s)" "available (p_lock (proc_at i s)) \<noteq> 0" "state (proc_at i s) = RUNNABLE"
  shows "scheduler_step run i (c, s) =
    then_res (run i (switch_state i s)) (\<lambda>s'.
      then_res (release_proc i (s'\<lparr>gpr := gpr s\<rparr>)) (\<lambda>s''. Inr (c\<lparr>cpu_proc := None, cpu_context := gpr s\<rparr>, s'')))"
  using assms
  by (cases "run i (switch_state i s)"; cases c)
    (simp_all add: scheduler_step_def acquire_proc_eq switch_state_def set_proc_set_proc Let_def)

lemma scheduler_step_other:
  assumes "id_ok s" "i < length (procs s)" "available (p_lock (proc_at i s)) \<noteq> 0" "state (proc_at i s) \<noteq> RUNNABLE"
  shows "scheduler_step run i (c, s) = Inr (c, set_proc i (\<lambda>p. p\<lparr>p_lock := (p_lock p)\<lparr>available := 1\<rparr>\<rparr>) (popped
      (set_proc i (\<lambda>p. p\<lparr>p_lock := (p_lock p)\<lparr>available := 0\<rparr>\<rparr>) (pushed s))))"
  using assms by (simp add: scheduler_step_def acquire_proc_eq release_proc_eq)

lemma switch_state_props:
  assumes "id_ok s" "i < length (procs s)"
  shows "switched_to i (switch_state i s)" "id_ok (switch_state i s)"
    "cpu_proc (this_cpu (switch_state i s)) = cpu_proc (this_cpu s)"
    "cpu_context (this_cpu (switch_state i s)) = cpu_context (this_cpu s)"
    "\<And>j. j \<noteq> i \<Longrightarrow> proc_at j (switch_state i s) = proc_at j s"
    "mach.more (switch_state i s) = mach.more s"
  using assms by (simp_all add: switch_state_def switched_to_def Let_def)

text \<open>A pass over processes that are not runnable locks and unlocks each and does nothing else.\<close>

lemma scan_skip:
  assumes "id_ok s" "distinct is"
    and "\<forall>j \<in> set is. j < length (procs s) \<and> available (p_lock (proc_at j s)) \<noteq> 0 \<and> state (proc_at j s) \<noteq> RUNNABLE"
  shows "\<exists>u. (\<forall>js. scheduler_scan run (is @ js) (c, s) = scheduler_scan run js (c, u))
    \<and> id_ok u \<and> length (procs u) = length (procs s) \<and> gpr u = gpr s \<and> mach.more u = mach.more s
    \<and> lock_layer (this_cpu u) = lock_layer (this_cpu s) \<and> cpu_proc (this_cpu u) = cpu_proc (this_cpu s)
    \<and> (\<forall>j. proc_at j u = (if j \<in> set is then (proc_at j s)\<lparr>p_lock := (p_lock (proc_at j s))\<lparr>available := 1\<rparr>\<rparr> else proc_at j s))"
  using assms
proof (induction "is" arbitrary: s)
  case Nil
  then show ?case by (intro exI [of _ s]) simp
next
  case (Cons i "is")
  let ?t = "set_proc i (\<lambda>p. p\<lparr>p_lock := (p_lock p)\<lparr>available := 1\<rparr>\<rparr>) (popped
      (set_proc i (\<lambda>p. p\<lparr>p_lock := (p_lock p)\<lparr>available := 0\<rparr>\<rparr>) (pushed s)))"
  have t: "id_ok ?t" "length (procs ?t) = length (procs s)" "gpr ?t = gpr s" "mach.more ?t = mach.more s"
    "lock_layer (this_cpu ?t) = lock_layer (this_cpu s)" "cpu_proc (this_cpu ?t) = cpu_proc (this_cpu s)"
    "\<And>j. proc_at j ?t = (if j = i then (proc_at i s)\<lparr>p_lock := (p_lock (proc_at i s))\<lparr>available := 1\<rparr>\<rparr> else proc_at j s)"
    using Cons.prems by simp_all
  have "\<forall>j \<in> set is. j < length (procs ?t) \<and> available (p_lock (proc_at j ?t)) \<noteq> 0 \<and> state (proc_at j ?t) \<noteq> RUNNABLE"
    unfolding t(2,7) using Cons.prems by auto
  from Cons.IH [OF t(1) _ this] Cons.prems(2) obtain u where u:
    "\<forall>js. scheduler_scan run (is @ js) (c, ?t) = scheduler_scan run js (c, u)" "id_ok u"
    "length (procs u) = length (procs ?t)" "gpr u = gpr ?t" "mach.more u = mach.more ?t"
    "lock_layer (this_cpu u) = lock_layer (this_cpu ?t)" "cpu_proc (this_cpu u) = cpu_proc (this_cpu ?t)"
    "\<And>j. proc_at j u = (if j \<in> set is then (proc_at j ?t)\<lparr>p_lock := (p_lock (proc_at j ?t))\<lparr>available := 1\<rparr>\<rparr> else proc_at j ?t)"
    by auto
  have "scheduler_scan run ((i # is) @ js) (c, s) = scheduler_scan run js (c, u)" for js
    using scheduler_step_other [of s i run c] Cons.prems u(1) by simp
  moreover have "proc_at j u = (if j \<in> set (i # is) then (proc_at j s)\<lparr>p_lock := (p_lock (proc_at j s))\<lparr>available := 1\<rparr>\<rparr> else proc_at j s)" for j
    unfolding u(8) t(7) using Cons.prems(2) by auto
  ultimately show ?case using u(2-7) t(2-6) by (intro exI [of _ u]) presburger
qed

lemma scheduler_loop_runnable:
  assumes "id_ok s" "length (procs s) = 64" "k < 64" "state (proc_at k s) = RUNNABLE"
    and "\<forall>j < k. state (proc_at j s) \<noteq> RUNNABLE" "\<forall>j \<le> k. available (p_lock (proc_at j s)) \<noteq> 0"
  shows "\<exists>t. scheduler_loop run (Suc n) (c, s) =
      then_res (run k t) (\<lambda>u. then_res (release_proc k (u\<lparr>gpr := gpr s\<rparr>)) (\<lambda>v.
        then_res (scheduler_scan run [Suc k..<64] (c\<lparr>cpu_proc := None, cpu_context := gpr s\<rparr>, v)) (scheduler_loop run n)))
    \<and> gpr t = p_context (proc_at k s) \<and> lock_layer (this_cpu t) = lock_layer (this_cpu s) + 1
    \<and> cpu_proc (this_cpu t) = cpu_proc (this_cpu s)
    \<and> (\<forall>j. proc_at j t = (if j < k then (proc_at j s)\<lparr>p_lock := (p_lock (proc_at j s))\<lparr>available := 1\<rparr>\<rparr>
         else if j = k then (proc_at k s)\<lparr>p_lock := (p_lock (proc_at k s))\<lparr>available := 0\<rparr>, state := RUNNING\<rparr>
         else proc_at j s))"
proof -
  from scan_skip [OF assms(1), of "[0..<k]" run c] assms obtain u where u:
    "\<And>js. scheduler_scan run ([0..<k] @ js) (c, s) = scheduler_scan run js (c, u)"
    "id_ok u" "length (procs u) = 64" "gpr u = gpr s"
    "lock_layer (this_cpu u) = lock_layer (this_cpu s)" "cpu_proc (this_cpu u) = cpu_proc (this_cpu s)"
    "\<And>j. proc_at j u = (if j < k then (proc_at j s)\<lparr>p_lock := (p_lock (proc_at j s))\<lparr>available := 1\<rparr>\<rparr> else proc_at j s)"
    by auto
  let ?t = "switch_state k u"
  have "[0..<64] = [0..<k] @ k # [Suc k..<64]" 
    using assms(3) upt_add_eq_append [of 0 k "64 - k"] upt_conv_Cons [of k 64] by simp
  then have "scheduler_loop run (Suc n) (c, s) = then_res (scheduler_scan run (k # [Suc k..<64]) (c, u)) (scheduler_loop run n)"
    using u(1) by simp
  also have "\<dots> = then_res (run k ?t) (\<lambda>w. then_res (release_proc k (w\<lparr>gpr := gpr s\<rparr>)) (\<lambda>v.
      then_res (scheduler_scan run [Suc k..<64] (c\<lparr>cpu_proc := None, cpu_context := gpr s\<rparr>, v)) (scheduler_loop run n)))"
    using scheduler_step_runnable [of u k run c] u assms by (simp add: then_res_assoc)
  finally show ?thesis
    using u(2-7) assms(3) by (intro exI [of _ ?t] conjI) (simp_all add: switch_state_def Let_def)
qed

text \<open>
  C18: a pass of \<open>scheduler\<close> over the process table hands the cpu to the first process, in the order of
  the table, that is RUNNABLE: with the locks of the entries up to it available, every earlier
  entry is only locked and unlocked, and the switch happens in a state where this process is
  RUNNING, its lock is held, the registers are its saved context and every later entry is as it
  was. When control comes back the scheduler's own registers are restored, the lock of the process
  is released, and the pass goes on with the next entry. The entry \<open>cpu_proc\<close> of the \<open>cpus\<close> array,
  which \<open>cur_proc\<close> reads, is not touched: it is set in the local copy only.
\<close>

theorem scheduler_switches:
  assumes "id_ok s" "unat (outreg (reg s) 0) < length (cpus s)" "length (procs s) = 64"
    and "k < 64" "state (proc_at k s) = RUNNABLE"
    and "\<forall>j < k. state (proc_at j s) \<noteq> RUNNABLE" "\<forall>j \<le> k. available (p_lock (proc_at j s)) \<noteq> 0"
  shows "\<exists>t c. scheduler_rounds run (Suc n) s =
      then_res (run k t) (\<lambda>u. then_res (release_proc k (u\<lparr>gpr := gpr s\<rparr>)) (\<lambda>v.
        then_res (scheduler_scan run [Suc k..<64] (c, v)) (scheduler_loop run n)))
    \<and> cpu_proc c = None \<and> cpu_context c = gpr s
    \<and> state (proc_at k t) = RUNNING \<and> available (p_lock (proc_at k t)) = 0 \<and> gpr t = p_context (proc_at k s)
    \<and> (\<forall>j < k. state (proc_at j t) = state (proc_at j s) \<and> available (p_lock (proc_at j t)) = 1)
    \<and> (\<forall>j > k. proc_at j t = proc_at j s)
    \<and> lock_layer (this_cpu t) = lock_layer (this_cpu s) + 1
    \<and> cpu_proc (this_cpu t) = cpu_proc (this_cpu s)"
proof -
  let ?c = "(cpus s ! unat (outreg (reg s) 0))\<lparr>cpu_proc := None\<rparr>"
  let ?s = "s\<lparr>reg := (reg s)\<lparr>tp := outreg (reg s) 0\<rparr>\<rparr>"
  have ok: "id_ok ?s" using assms(1) by (simp add: id_ok_def cpu_id_def)
  have r: "scheduler_rounds run (Suc n) s = scheduler_loop run (Suc n) (?c, ?s)"
    using assms(1,2) by (simp add: scheduler_rounds_def cpu_copy_eq id_ok_steady del: scheduler_loop.simps)
  from scheduler_loop_runnable [OF ok, of k run n ?c] assms(3-7) obtain t where
    "scheduler_loop run (Suc n) (?c, ?s) =
      then_res (run k t) (\<lambda>u. then_res (release_proc k (u\<lparr>gpr := gpr s\<rparr>)) (\<lambda>v.
        then_res (scheduler_scan run [Suc k..<64] (?c\<lparr>cpu_proc := None, cpu_context := gpr s\<rparr>, v)) (scheduler_loop run n)))"
    "gpr t = p_context (proc_at k s)" "lock_layer (this_cpu t) = lock_layer (this_cpu s) + 1"
    "cpu_proc (this_cpu t) = cpu_proc (this_cpu s)"
    "\<And>j. proc_at j t = (if j < k then (proc_at j s)\<lparr>p_lock := (p_lock (proc_at j s))\<lparr>available := 1\<rparr>\<rparr>
         else if j = k then (proc_at k s)\<lparr>p_lock := (p_lock (proc_at k s))\<lparr>available := 0\<rparr>, state := RUNNING\<rparr>
         else proc_at j s)"
    by auto
  then show ?thesis unfolding r
    by (intro exI [of _ t] exI [of _ "?c\<lparr>cpu_proc := None, cpu_context := gpr s\<rparr>"]) simp
qed

definition runnable_mach :: mach where
  "runnable_mach = zero_mach\<lparr>procs := replicate 64 (zero_proc\<lparr>p_lock := \<lparr>available = 1\<rparr>, state := RUNNABLE\<rparr>)\<rparr>"

lemma runnable_mach_simps [simp]:
  "id_ok runnable_mach" "length (procs runnable_mach) = 64" "this_cpu runnable_mach = zero_cpu"
  "i < 64 \<Longrightarrow> proc_at i runnable_mach = zero_proc\<lparr>p_lock := \<lparr>available = 1\<rparr>, state := RUNNABLE\<rparr>"
  "length (cpus runnable_mach) = 8" "outreg (reg runnable_mach) = (\<lambda>_. 0)"
  by (simp_all add: runnable_mach_def proc_at_def) (simp_all add: zero_mach_def zero_hart_def)

theorem scheduler_switches_witness:
  "\<exists>t c. scheduler_rounds (\<lambda>_. Inr) (Suc 0) (set_proc 0 (state_update (\<lambda>_. SLEEPING)) runnable_mach) =
      then_res (Inr t) (\<lambda>u. then_res (release_proc 1 (u\<lparr>gpr := gpr runnable_mach\<rparr>)) (\<lambda>v.
        then_res (scheduler_scan (\<lambda>_. Inr) [2..<64] (c, v)) (scheduler_loop (\<lambda>_. Inr) 0)))
    \<and> state (proc_at 1 t) = RUNNING \<and> state (proc_at 0 t) = SLEEPING"
proof -
  let ?s = "set_proc 0 (state_update (\<lambda>_. SLEEPING)) runnable_mach"
  have "id_ok ?s" "unat (outreg (reg ?s) 0) < length (cpus ?s)" "length (procs ?s) = 64" "(1 :: nat) < 64"
    "state (proc_at 1 ?s) = RUNNABLE" "\<forall>j < 1. state (proc_at j ?s) \<noteq> RUNNABLE"
    "\<forall>j \<le> 1. available (p_lock (proc_at j ?s)) \<noteq> 0"
    by (simp_all add: le_Suc_eq)
  from scheduler_switches [OF this, of "\<lambda>_. Inr" 0] show ?thesis
    by (auto simp: numeral_2_eq_2)
qed

text \<open>One pass over processes that are not runnable changes nothing the pass looks at.\<close>

definition idle_state :: "'a mach_scheme \<Rightarrow> 'a mach_scheme \<Rightarrow> bool" where
  "idle_state s t \<longleftrightarrow> id_ok t \<and> length (procs t) = length (procs s)
     \<and> cpu_proc (this_cpu t) = cpu_proc (this_cpu s)
     \<and> (\<forall>j. state (proc_at j t) = state (proc_at j s)
          \<and> (available (p_lock (proc_at j s)) \<noteq> 0 \<longrightarrow> available (p_lock (proc_at j t)) \<noteq> 0))"

lemma scan_to_runnable:
  assumes "id_ok s" "\<forall>j \<in> set is. j < length (procs s) \<and> available (p_lock (proc_at j s)) \<noteq> 0"
    "k \<in> set is" "state (proc_at k s) = RUNNABLE"
  shows "\<exists>i is' t. idle_state s t \<and> i \<in> set is \<and> state (proc_at i t) = RUNNABLE \<and>
    scheduler_scan run is (c, s) = then_res (scheduler_step run i (c, t)) (scheduler_scan run is')"
  using assms
proof (induction "is" arbitrary: s)
  case Nil
  then show ?case by simp
next
  case (Cons i "is")
  show ?case
  proof (cases "state (proc_at i s) = RUNNABLE")
    case True
    then show ?thesis using Cons.prems
      by (intro exI [of _ i] exI [of _ "is"] exI [of _ s]) (simp add: idle_state_def)
  next
    case False
    let ?t = "set_proc i (\<lambda>p. p\<lparr>p_lock := (p_lock p)\<lparr>available := 1\<rparr>\<rparr>) (popped
      (set_proc i (\<lambda>p. p\<lparr>p_lock := (p_lock p)\<lparr>available := 0\<rparr>\<rparr>) (pushed s)))"
    have idle: "idle_state s ?t" using Cons.prems by (auto simp: idle_state_def)
    have "scheduler_scan run (i # is) (c, s) = scheduler_scan run is (c, ?t)"
      using scheduler_step_other [of s i run c] False Cons.prems by simp
    moreover have "\<exists>i is' u. idle_state ?t u \<and> i \<in> set is \<and> state (proc_at i u) = RUNNABLE \<and>
        scheduler_scan run is (c, ?t) = then_res (scheduler_step run i (c, u)) (scheduler_scan run is')"
      using idle Cons.prems False by (intro Cons.IH) (auto simp: idle_state_def)
    moreover have "idle_state ?t u \<Longrightarrow> idle_state s u" for u
      using idle by (auto simp: idle_state_def)
    ultimately show ?thesis by fastforce
  qed
qed

lemma give_up_no_proc: "id_ok s \<Longrightarrow> cpu_proc (this_cpu s) = None \<Longrightarrow> give_up resume s = Inl NullDeref"
  by (simp add: give_up_def cur_proc_eq)

text \<open>
  C35: with every process lock available and some process runnable, the first process the scheduler
  runs dereferences a null pointer as soon as it gives up the cpu: \<open>cur_proc\<close> reads the \<open>cpus\<close>
  array, where the scheduler never recorded the process.
\<close>

theorem first_give_up_faults:
  assumes "id_ok s" "unat (outreg (reg s) 0) < length (cpus s)" "length (procs s) = 64"
    and "cpu_proc (this_cpu s) = None"
    and "\<forall>j < 64. available (p_lock (proc_at j s)) \<noteq> 0" "k < 64" "state (proc_at k s) = RUNNABLE"
  shows "scheduler_rounds (\<lambda>i. give_up resume) (Suc n) s = Inl NullDeref"
proof -
  let ?c = "(cpus s ! unat (outreg (reg s) 0))\<lparr>cpu_proc := None\<rparr>"
  let ?s = "s\<lparr>reg := (reg s)\<lparr>tp := outreg (reg s) 0\<rparr>\<rparr>"
  have ok: "id_ok ?s" using assms(1) by (simp add: id_ok_def cpu_id_def)
  have "\<exists>i is' t. idle_state ?s t \<and> i \<in> set [0..<64] \<and> state (proc_at i t) = RUNNABLE \<and>
      scheduler_scan (\<lambda>i. give_up resume) [0..<64] (?c, ?s) =
        then_res (scheduler_step (\<lambda>i. give_up resume) i (?c, t)) (scheduler_scan (\<lambda>i. give_up resume) is')"
    by (rule scan_to_runnable [of _ _ k, OF ok]) (use assms in auto)
  then obtain i is' t where t: "idle_state ?s t" "i < 64" "state (proc_at i t) = RUNNABLE"
    "scheduler_scan (\<lambda>i. give_up resume) [0..<64] (?c, ?s) =
        then_res (scheduler_step (\<lambda>i. give_up resume) i (?c, t)) (scheduler_scan (\<lambda>i. give_up resume) is')"
    by auto
  then have i: "id_ok t" "i < length (procs t)" "available (p_lock (proc_at i t)) \<noteq> 0"
    "cpu_proc (this_cpu t) = None"
    using assms by (auto simp: idle_state_def)
  have "give_up resume (switch_state i t) = Inl NullDeref"
    using switch_state_props [OF i(1,2)] i by (intro give_up_no_proc) simp_all
  then have "scheduler_scan (\<lambda>i. give_up resume) [0..<64] (?c, ?s) = Inl NullDeref"
    using t i by (simp add: scheduler_step_runnable)
  then show ?thesis using assms(1,2) by (simp add: scheduler_rounds_def cpu_copy_eq id_ok_steady)
qed

theorem first_give_up_faults_witness:
  "scheduler_rounds (\<lambda>i. give_up Inr) (Suc 0) runnable_mach = Inl NullDeref"
  by (rule first_give_up_faults [where k = 5]) (simp_all add: zero_cpu_def)

text \<open>
  \<open>p_lock\<close> is never initialised; while the lock of process 0 is 0, the first pass of the
  scheduler never gets past it.
\<close>

theorem scheduler_needs_lock_init:
  assumes "id_ok s" "unat (outreg (reg s) 0) < length (cpus s)" "procs s \<noteq> []" "available (p_lock (proc_at 0 s)) = 0"
  shows "scheduler_rounds run (Suc n) s = Inl Diverges"
proof -
  have "id_ok (s\<lparr>reg := (reg s)\<lparr>tp := outreg (reg s) 0\<rparr>\<rparr>)" using assms(1) by (simp add: id_ok_def cpu_id_def)
  then have "acquire_proc 0 (s\<lparr>reg := (reg s)\<lparr>tp := outreg (reg s) 0\<rparr>\<rparr>) = Inl Diverges"
    using assms by (simp add: acquire_proc_eq)
  moreover have "[0..<64] = 0 # [1..<(64::nat)]" by (simp add: upt_conv_Cons)
  ultimately show ?thesis
    using assms(1,2) by (simp add: scheduler_rounds_def cpu_copy_eq id_ok_steady scheduler_step_def)
qed

theorem scheduler_needs_lock_init_witness: "scheduler_rounds (\<lambda>_. Inr) (Suc 0) zero_mach = Inl Diverges"
  by (rule scheduler_needs_lock_init)
    (simp_all add: proc_at_def, simp_all add: zero_mach_def zero_hart_def zero_proc_def)

section \<open>Sleeping\<close>

text \<open>\<open>cpus[read_tp()]\<close> and \<open>cpus[id]\<close> name the same, existing cpu.\<close>

definition hart_ok :: "'a mach_scheme \<Rightarrow> bool" where
  "hart_ok s \<longleftrightarrow> id_ok s \<and> unat (outreg (reg s) 0) = unat (cpu_id s)"

lemma hart_ok_simps [simp]:
  "hart_ok (pushed s) = hart_ok s" "hart_ok (popped s) = hart_ok s" "hart_ok (cycled s) = hart_ok s"
  "hart_ok (set_proc i f s) = hart_ok s"
  by (simp_all add: hart_ok_def cpu_id_def)

lemma hart_ok_id_ok: "hart_ok s \<Longrightarrow> id_ok s"
  by (simp add: hart_ok_def)

lemma hart_ok_zero [simp]: "hart_ok zero_mach"
  by (simp add: hart_ok_def cpu_id_def) (simp add: zero_mach_def zero_hart_def)

lemma cycled_tp: "cycled (s\<lparr>reg := (reg s)\<lparr>tp := outreg (reg s) 0\<rparr>\<rparr>) = cycled s"
proof -
  have "pushed (s\<lparr>reg := (reg s)\<lparr>tp := outreg (reg s) 0\<rparr>\<rparr>) = pushed s"
    by (simp add: pushed_def Let_def set_cpu_def this_cpu_def cpu_id_def)
  then show ?thesis by (simp add: cycled_def)
qed

lemma enter_sched_eq:
  assumes "hart_ok s"
  shows "enter_sched resume s =
    (if lock_layer (this_cpu s) = 1 then
       (case cpu_proc (this_cpu s) of None \<Rightarrow> Inl NullDeref
        | Some i \<Rightarrow> if i < length (procs s)
            then then_res (resume ((set_proc i (p_context_update (\<lambda>_. gpr s)) (cycled s))\<lparr>gpr := cpu_context (this_cpu s)\<rparr>))
                   (\<lambda>u. Inr (u\<lparr>gpr := p_context (proc_at i u)\<rparr>))
            else Inl OutOfBounds)
     else Inr (cycled s))"
proof -
  have "cpu_copy s = Inr (this_cpu s, s\<lparr>reg := (reg s)\<lparr>tp := outreg (reg s) 0\<rparr>\<rparr>)"
    using assms by (simp add: cpu_copy_eq hart_ok_def this_cpu_def id_ok_def)
  moreover have "id_ok (s\<lparr>reg := (reg s)\<lparr>tp := outreg (reg s) 0\<rparr>\<rparr>)"
    using assms by (simp add: hart_ok_def id_ok_def cpu_id_def)
  ultimately show ?thesis
    by (simp add: enter_sched_def cur_proc_eq cycled_tp Let_def split: option.split)
qed

text \<open>
  C19: \<open>give_up\<close> from a process that holds no lock: the cpu goes to the scheduler with the process
  RUNNABLE, its lock held and its registers saved in its context; when control comes back, the
  registers are the saved ones and the lock is released. A process that holds a lock does not
  switch at all: \<open>give_up\<close> returns at once, with the process marked RUNNABLE while it runs.
\<close>

theorem give_up_switches:
  assumes "hart_ok s" "cpu_proc (this_cpu s) = Some i" "i < length (procs s)" "available (p_lock (proc_at i s)) \<noteq> 0"
  shows "\<exists>t. state (proc_at i t) = RUNNABLE \<and> available (p_lock (proc_at i t)) = 0
    \<and> (\<forall>j. j \<noteq> i \<longrightarrow> proc_at j t = proc_at j s) \<and> lock_layer (this_cpu t) = lock_layer (this_cpu s) + 1
    \<and> (if lock_layer (this_cpu s) = 0
       then p_context (proc_at i t) = gpr s \<and> gpr t = cpu_context (this_cpu s)
          \<and> give_up resume s = then_res (resume t) (\<lambda>u. release_proc i (u\<lparr>gpr := p_context (proc_at i u)\<rparr>))
       else give_up resume s = release_proc i t \<and> gpr t = gpr s)"
proof -
  let ?a = "set_proc i (\<lambda>p. p\<lparr>p_lock := (p_lock p)\<lparr>available := 0\<rparr>, state := RUNNABLE\<rparr>) (pushed (cycled s))"
  have id: "id_ok s" using assms(1) by (rule hart_ok_id_ok)
  have g: "give_up resume s = then_res (enter_sched resume ?a) (release_proc i)"
    using assms id by (simp add: give_up_def cur_proc_eq acquire_proc_eq set_proc_set_proc)
  show ?thesis
  proof (cases "lock_layer (this_cpu s) = 0")
    case True
    let ?t = "(set_proc i (p_context_update (\<lambda>_. gpr s)) (cycled ?a))\<lparr>gpr := cpu_context (this_cpu s)\<rparr>"
    have "enter_sched resume ?a = then_res (resume ?t) (\<lambda>u. Inr (u\<lparr>gpr := p_context (proc_at i u)\<rparr>))"
      using assms id True by (simp add: enter_sched_eq)
    then have "give_up resume s = then_res (resume ?t) (\<lambda>u. release_proc i (u\<lparr>gpr := p_context (proc_at i u)\<rparr>))"
      unfolding g by (cases "resume ?t") simp_all
    then show ?thesis using assms id True by (intro exI [of _ ?t]) simp
  next
    case False
    then have "lock_layer (this_cpu s) + 1 \<noteq> 1" by simp
    then have "give_up resume s = release_proc i (cycled ?a)"
      unfolding g using assms id by (simp add: enter_sched_eq)
    then show ?thesis using assms id False by (intro exI [of _ "cycled ?a"]) simp
  qed
qed

definition running_mach :: mach where
  "running_mach = set_cpu (zero_cpu\<lparr>cpu_proc := Some 3\<rparr>) runnable_mach"

theorem give_up_switches_witness:
  "\<exists>t. state (proc_at 3 t) = RUNNABLE \<and>
     give_up Inr running_mach = then_res (Inr t) (\<lambda>u. release_proc 3 (u\<lparr>gpr := p_context (proc_at 3 u)\<rparr>))"
proof -
  have cpu: "this_cpu running_mach = zero_cpu\<lparr>cpu_proc := Some 3\<rparr>" by (simp add: running_mach_def)
  have ok: "hart_ok running_mach"
    by (simp add: hart_ok_def running_mach_def cpu_id_def)
  have p: "proc_at 3 running_mach = proc_at 3 runnable_mach" "length (procs running_mach) = 64"
    by (simp_all add: proc_at_def running_mach_def)
  from give_up_switches [OF ok, of 3 Inr] show ?thesis by (auto simp: cpu p zero_cpu_def)
qed

text \<open>The routines so far keep the components' part of the state.\<close>

lemma more_cur_proc: "cur_proc s = Inr (p, t) \<Longrightarrow> mach.more t = mach.more s"
  by (auto simp: cur_proc_def res_simps Let_def read_tp_def dest!: inter_off_more split: if_splits)

lemma more_acquire: "acquire l s = Inr (l', t) \<Longrightarrow> mach.more t = mach.more s"
  by (auto simp: acquire_def res_simps dest!: inter_off_more split: option.splits)

lemma more_release: "release l s = Inr (l', t) \<Longrightarrow> mach.more t = mach.more s"
  by (auto simp: release_def res_simps dest!: inter_off_more split: prod.splits)

lemma more_acquire_proc: "acquire_proc i s = Inr t \<Longrightarrow> mach.more t = mach.more s"
  by (auto simp: acquire_proc_def res_simps dest: more_acquire split: if_splits)

lemma more_release_proc: "release_proc i s = Inr t \<Longrightarrow> mach.more t = mach.more s"
  by (auto simp: release_proc_def res_simps dest: more_release split: if_splits)

lemma more_wakeup: "wakeup chan s = Inr t \<Longrightarrow> mach.more t = mach.more s"
proof -
  have "wakeup_loop chan is s = Inr t \<Longrightarrow> mach.more t = mach.more s" for "is"
  proof (induction "is" arbitrary: s)
    case (Cons i "is")
    then obtain u where "wakeup_step chan i s = Inr u" "wakeup_loop chan is u = Inr t" by (auto simp: res_simps)
    moreover from this(1) have "mach.more u = mach.more s"
      by (auto simp: wakeup_step_def res_simps Let_def split: if_splits dest!: more_cur_proc more_acquire more_release)
    ultimately show ?case using Cons.IH by simp
  qed simp
  then show "wakeup chan s = Inr t \<Longrightarrow> mach.more t = mach.more s" by (simp add: wakeup_def)
qed

lemma wakeup_keeps_cpu:
  assumes "wakeup chan s = Inr t" "id_ok s"
  shows "cpu_proc (this_cpu t) = cpu_proc (this_cpu s) \<and> (hart_ok t \<longleftrightarrow> hart_ok s)"
proof -
  have "cpu_proc (this_cpu t) = cpu_proc (this_cpu s) \<and> (hart_ok t \<longleftrightarrow> hart_ok s)"
    if "wakeup_loop chan is s = Inr t" "id_ok s" for "is"
    using that
  proof (induction "is" arbitrary: s)
    case (Cons i "is")
    then obtain u where "wakeup_step chan i s = Inr u" "wakeup_loop chan is u = Inr t" by (auto simp: res_simps)
    moreover from this(1) have "u = popped (pushed (cycled s))"
      using Cons.prems(2) wakeup_step_eq [of s i chan]
      by (cases "i < length (procs s)") (simp_all add: wakeup_step_def split: if_splits)
    ultimately show ?case using Cons by simp
  qed simp
  with assms show ?thesis by (simp add: wakeup_def)
qed

text \<open>
  \<open>calm s t\<close>: from \<open>s\<close> to \<open>t\<close> no process and no register that a process sees changed, and the hart is
  at the same nesting level. \<open>wakeup\<close> on a machine whose process locks are free is calm.
\<close>

definition calm :: "'a mach_scheme \<Rightarrow> 'a mach_scheme \<Rightarrow> bool" where
  "calm s t \<longleftrightarrow> procs t = procs s \<and> gpr t = gpr s \<and> id_ok t = id_ok s \<and> hart_ok t = hart_ok s
     \<and> lock_layer (this_cpu t) = lock_layer (this_cpu s) \<and> cpu_proc (this_cpu t) = cpu_proc (this_cpu s)"

definition wake_ready :: "'a mach_scheme \<Rightarrow> bool" where
  "wake_ready s \<longleftrightarrow> id_ok s \<and> length (procs s) = 64 \<and> (\<forall>p \<in> set (procs s). available (p_lock p) \<noteq> 0)"

definition comes_back :: "nat \<Rightarrow> 'a mach_scheme \<Rightarrow> bool" where
  "comes_back i v \<longleftrightarrow> hart_ok v \<and> lock_layer (this_cpu v) = 1 \<and> cpu_proc (this_cpu v) = Some i
     \<and> length (procs v) = 64 \<and> i < 64 \<and> (\<forall>j < 64. j \<noteq> i \<longrightarrow> available (p_lock (procs v ! j)) \<noteq> 0)"

lemma calm_refl [simp]: "calm s s"
  by (simp add: calm_def)

lemma calm_trans [trans]: "calm s t \<Longrightarrow> calm t u \<Longrightarrow> calm s u"
  by (simp add: calm_def)

lemma calm_ready: "calm s t \<Longrightarrow> wake_ready s \<Longrightarrow> wake_ready t"
  by (simp add: calm_def wake_ready_def)

lemma calm_truncate: "mach.truncate t = mach.truncate s \<Longrightarrow> calm s t"
  by (simp add: calm_def mach.truncate_def id_ok_def hart_ok_def this_cpu_def cpu_id_def)

lemma wakeup_calm:
  assumes "wake_ready s"
  shows "\<exists>t. wakeup chan s = Inr t \<and> calm s t \<and> mach.more t = mach.more s"
proof -
  from wakeup_ok [of s chan] assms obtain t where "wakeup chan s = Inr t" "procs t = procs s" "gpr t = gpr s"
    "mach.more t = mach.more s" "id_ok t" "lock_layer (this_cpu t) = lock_layer (this_cpu s)"
    by (auto simp: wake_ready_def)
  with wakeup_keeps_cpu [of chan s t] assms show ?thesis by (simp add: calm_def wake_ready_def)
qed

text \<open>A property of the components' part that the rest of the system keeps is kept by a switch.\<close>

lemma enter_sched_keeps:
  assumes "enter_sched resume s = Inr t" "V s" and V: "\<And>u v. mach.more u = mach.more v \<Longrightarrow> V u = V v"
    and resume: "\<And>u v. V u \<Longrightarrow> resume u = Inr v \<Longrightarrow> V v"
  shows "V t"
proof -
  from assms(1) obtain c s1 p s2 where 1: "cpu_copy s = Inr (c, s1)" "cur_proc s1 = Inr (p, s2)"
    and 2: "t = s2 \<or> (\<exists>i v. resume ((set_proc i (p_context_update (\<lambda>_. gpr s2)) s2)\<lparr>gpr := cpu_context c\<rparr>) = Inr v
      \<and> t = v\<lparr>gpr := p_context (proc_at i v)\<rparr>)"
    by (simp add: enter_sched_def res_simps Let_def split: if_splits option.splits) blast+
  have "mach.more s1 = mach.more s" using 1(1) by (auto simp: cpu_copy_def read_tp_def Let_def split: if_splits)
  then have s2: "V s2" using more_cur_proc [OF 1(2)] V [of s s2] assms(2) by simp
  then have u: "V ((set_proc i f s2)\<lparr>gpr := x\<rparr>)" for i f x
    using V [of "(set_proc i f s2)\<lparr>gpr := x\<rparr>" s2] by simp
  have "V (v\<lparr>gpr := x\<rparr>) = V v" for v x by (rule V) simp
  with 2 s2 show ?thesis by (auto dest: resume [OF u])
qed

text \<open>
  Where the lock that \<open>sleep\<close> releases and takes again lives: reading it depends on the
  component's own part of the state only, and writing it changes nothing of the machine part.
\<close>

locale lock_place =
  fixes get :: "'a mach_scheme \<Rightarrow> spinlock"
    and put :: "spinlock \<Rightarrow> 'a mach_scheme \<Rightarrow> 'a mach_scheme"
  assumes get_put: "get (put l s) = l"
    and get_more: "mach.more s = mach.more t \<Longrightarrow> get s = get t"
    and put_mach: "mach.truncate (put l s) = mach.truncate s"
begin

lemma put_frame: "reg (put l s) = reg s" "gpr (put l s) = gpr s" "cpus (put l s) = cpus s" "procs (put l s) = procs s"
  using put_mach [of l s] by (simp_all add: mach.truncate_def)

lemma put_derived: "id_ok (put l s) = id_ok s" "this_cpu (put l s) = this_cpu s" "proc_at i (put l s) = proc_at i s"
  by (simp_all add: id_ok_def cpu_id_def this_cpu_def proc_at_def put_frame)

text \<open>The state in which \<open>sleep\<close> calls \<open>enter_sched\<close>.\<close>

definition asleep :: "u64 \<Rightarrow> nat \<Rightarrow> 'a mach_scheme \<Rightarrow> 'a mach_scheme" where
  "asleep chan i s = put ((get s)\<lparr>available := 1\<rparr>) (popped (set_proc i
     (\<lambda>p. p\<lparr>p_lock := (p_lock p)\<lparr>available := 0\<rparr>, state := SLEEPING, channel := chan\<rparr>) (pushed (cycled s))))"

lemma asleep_props:
  assumes "id_ok s" "i < length (procs s)"
  shows "id_ok (asleep chan i s)" "get (asleep chan i s) = (get s)\<lparr>available := 1\<rparr>"
    "length (procs (asleep chan i s)) = length (procs s)"
    "proc_at j (asleep chan i s) = (if j = i then (proc_at i s)
       \<lparr>p_lock := (p_lock (proc_at i s))\<lparr>available := 0\<rparr>, state := SLEEPING, channel := chan\<rparr> else proc_at j s)"
    "lock_layer (this_cpu (asleep chan i s)) = lock_layer (this_cpu s)"
    "cpu_proc (this_cpu (asleep chan i s)) = cpu_proc (this_cpu s)"
    "cpu_context (this_cpu (asleep chan i s)) = cpu_context (this_cpu s)"
    "outreg (reg (asleep chan i s)) = outreg (reg s)" "gpr (asleep chan i s) = gpr s"
    "length (cpus (asleep chan i s)) = length (cpus s)"
  using assms by (simp_all add: asleep_def put_derived put_frame get_put)

text \<open>What \<open>sleep\<close> does once \<open>enter_sched\<close> is back.\<close>

definition wake :: "nat \<Rightarrow> 'a mach_scheme \<Rightarrow> 'a mach_scheme res" where
  "wake i s = then_res (release_proc i (set_proc i (channel_update (\<lambda>_. 0)) s)) (\<lambda>s.
     then_res (acquire (get s) s) (\<lambda>(l, s). Inr (put l s)))"

lemma sleep_eq:
  assumes "id_ok s" "cpu_proc (this_cpu s) = Some i" "i < length (procs s)" "available (p_lock (proc_at i s)) \<noteq> 0"
  shows "sleep get put chan resume s = then_res (enter_sched resume (asleep chan i s)) (wake i)"
proof -
  have "get (set_proc i f (pushed (cycled s))) = get s" for f
    by (rule get_more) simp
  then show ?thesis
    using assms
    by (simp add: sleep_def cur_proc_eq acquire_proc_eq release_eq asleep_def Let_def
        set_proc_set_proc wake_def [abs_def])
qed

lemma wake_eq:
  assumes "id_ok s" "i < length (procs s)"
  shows "wake i s = (if available (get s) = 0 then Inl Diverges
    else Inr (put ((get s)\<lparr>available := 0\<rparr>) (pushed (set_proc i (\<lambda>p. p\<lparr>channel := 0, p_lock := (p_lock p)\<lparr>available := 1\<rparr>\<rparr>) (popped s)))))"
proof -
  have "get (set_proc i f (popped s)) = get s" for f
    by (rule get_more) simp
  moreover have "set_proc i f (popped (set_proc i g s)) = set_proc i f (set_proc i g (popped s))" for f g
    by (simp add: set_proc_def popped_def Let_def this_cpu_def set_cpu_def cpu_id_def)
  ultimately show ?thesis
    using assms by (simp add: wake_def release_proc_eq acquire_eq set_proc_set_proc)
qed

text \<open>
  With no other lock held, \<open>sleep\<close> gives up the cpu: at the switch the process is asleep on the
  channel, its own lock is held and the caller's lock is free.
\<close>

lemma sleep_at:
  assumes "hart_ok s" "cpu_proc (this_cpu s) = Some i" "i < length (procs s)" "available (p_lock (proc_at i s)) \<noteq> 0"
    and "lock_layer (this_cpu s) = 1"
  shows "sleep get put chan resume s =
    then_res (resume ((set_proc i (p_context_update (\<lambda>_. gpr s)) (cycled (asleep chan i s)))\<lparr>gpr := cpu_context (this_cpu s)\<rparr>))
      (\<lambda>u. wake i (u\<lparr>gpr := p_context (proc_at i u)\<rparr>))"
proof -
  let ?a = "asleep chan i s"
  let ?t = "(set_proc i (p_context_update (\<lambda>_. gpr s)) (cycled ?a))\<lparr>gpr := cpu_context (this_cpu s)\<rparr>"
  have id: "id_ok s" using assms(1) by (rule hart_ok_id_ok)
  note a = asleep_props [OF id assms(3)]
  have ok: "hart_ok ?a" using a assms(1) by (simp add: hart_ok_def cpu_id_def)
  have "enter_sched resume ?a = then_res (resume ?t) (\<lambda>u. Inr (u\<lparr>gpr := p_context (proc_at i u)\<rparr>))"
    using enter_sched_eq [OF ok, of resume] a assms by simp
  then show ?thesis
    using sleep_eq [OF id assms(2-4), of chan resume] by (cases "resume ?t") simp_all
qed

text \<open>The way back: the process runs again, at nesting level 1, and no other process is locked.\<close>

lemma sleep_returns:
  assumes "hart_ok s" "cpu_proc (this_cpu s) = Some i" "i < length (procs s)" "available (p_lock (proc_at i s)) \<noteq> 0"
    and "lock_layer (this_cpu s) = 1"
    and "resume ((set_proc i (p_context_update (\<lambda>_. gpr s)) (cycled (asleep chan i s)))\<lparr>gpr := cpu_context (this_cpu s)\<rparr>) = Inr v"
    and cb: "comes_back i v" "available (get v) \<noteq> 0"
  shows "\<exists>y. sleep get put chan resume s = Inr (put ((get v)\<lparr>available := 0\<rparr>) y) \<and> mach.more y = mach.more v
    \<and> wake_ready y \<and> hart_ok y \<and> lock_layer (this_cpu y) = 1 \<and> cpu_proc (this_cpu y) = Some i"
proof -
  let ?v = "v\<lparr>gpr := p_context (proc_at i v)\<rparr>"
  let ?y = "pushed (set_proc i (\<lambda>p. p\<lparr>channel := 0, p_lock := (p_lock p)\<lparr>available := 1\<rparr>\<rparr>) (popped ?v))"
  have v: "id_ok ?v" "i < length (procs ?v)" using cb(1) by (simp_all add: comes_back_def hart_ok_def)
  have g: "get ?v = get v" by (rule get_more) simp
  have "sleep get put chan resume s = Inr (put ((get v)\<lparr>available := 0\<rparr>) ?y)"
    using sleep_at [OF assms(1-5), of chan resume] assms(6) wake_eq [OF v] cb(2) by (simp add: g)
  moreover have "wake_ready ?y"
    using cb(1) by (auto simp: comes_back_def wake_ready_def hart_ok_def all_set_conv_all_nth set_proc_def nth_list_update)
  moreover have "hart_ok ?y" using cb(1) by (simp add: comes_back_def hart_ok_def id_ok_def cpu_id_def)
  ultimately show ?thesis using v cb(1) by (intro exI [of _ ?y]) (simp add: comes_back_def)
qed

lemma sleep_switches:
  assumes "hart_ok s" "cpu_proc (this_cpu s) = Some i" "i < length (procs s)" "available (p_lock (proc_at i s)) \<noteq> 0"
    and "lock_layer (this_cpu s) = 1"
  shows "\<exists>t. sleep get put chan resume s = then_res (resume t) (\<lambda>u. wake i (u\<lparr>gpr := p_context (proc_at i u)\<rparr>))
    \<and> state (proc_at i t) = SLEEPING \<and> channel (proc_at i t) = chan \<and> available (p_lock (proc_at i t)) = 0
    \<and> p_context (proc_at i t) = gpr s \<and> gpr t = cpu_context (this_cpu s)
    \<and> available (get t) = 1 \<and> (\<forall>j. j \<noteq> i \<longrightarrow> proc_at j t = proc_at j s) \<and> lock_layer (this_cpu t) = 1"
proof -
  let ?a = "asleep chan i s"
  let ?t = "(set_proc i (p_context_update (\<lambda>_. gpr s)) (cycled ?a))\<lparr>gpr := cpu_context (this_cpu s)\<rparr>"
  note a = asleep_props [OF hart_ok_id_ok [OF assms(1)] assms(3)]
  have "get ?t = get ?a" by (rule get_more) simp
  then show ?thesis using sleep_at [OF assms, of chan resume] a assms by (intro exI [of _ ?t]) simp
qed

text \<open>
  With a second lock held, \<open>sleep\<close> does not switch: it returns with the caller's lock held again
  and the running process marked SLEEPING, on no channel.
\<close>

lemma sleep_nested:
  assumes "hart_ok s" "cpu_proc (this_cpu s) = Some i" "i < length (procs s)" "available (p_lock (proc_at i s)) \<noteq> 0"
    and "lock_layer (this_cpu s) \<noteq> 1"
  shows "\<exists>t. sleep get put chan resume s = Inr t \<and> state (proc_at i t) = SLEEPING \<and> channel (proc_at i t) = 0
    \<and> available (p_lock (proc_at i t)) = 1 \<and> gpr t = gpr s \<and> available (get t) = 0
    \<and> (\<forall>j. j \<noteq> i \<longrightarrow> proc_at j t = proc_at j s)
    \<and> hart_ok t \<and> cpu_proc (this_cpu t) = Some i \<and> length (procs t) = length (procs s)
    \<and> lock_layer (this_cpu t) = lock_layer (this_cpu s)"
proof -
  let ?a = "asleep chan i s"
  let ?c = "cycled ?a"
  let ?t = "put ((get ?c)\<lparr>available := 0\<rparr>) (pushed (set_proc i (\<lambda>p. p\<lparr>channel := 0, p_lock := (p_lock p)\<lparr>available := 1\<rparr>\<rparr>) (popped ?c)))"
  have id: "id_ok s" using assms(1) by (rule hart_ok_id_ok)
  note a = asleep_props [OF id assms(3)]
  have ok: "hart_ok ?a" using a assms(1) by (simp add: hart_ok_def cpu_id_def)
  have g: "get ?c = get ?a" by (rule get_more) simp
  have "sleep get put chan resume s = wake i ?c"
    using sleep_eq [OF id assms(2-4), of chan resume] enter_sched_eq [OF ok, of resume] a assms by simp
  also have "\<dots> = Inr ?t" using wake_eq [of ?c i] a assms g by simp
  finally have "sleep get put chan resume s = Inr ?t" .
  moreover have "hart_ok ?t = hart_ok s"
    using a(8) a(10) by (simp add: hart_ok_def id_ok_def cpu_id_def put_frame)
  ultimately show ?thesis using a assms by (intro exI [of _ ?t]) (simp add: put_derived put_frame get_put)
qed

lemma sleep_nested_resume:
  assumes "hart_ok s" "cpu_proc (this_cpu s) = Some i" "i < length (procs s)" "available (p_lock (proc_at i s)) \<noteq> 0"
    and "lock_layer (this_cpu s) \<noteq> 1"
  shows "sleep get put chan resume s = sleep get put chan resume' s"
proof -
  have id: "id_ok s" using assms(1) by (rule hart_ok_id_ok)
  note a = asleep_props [OF id assms(3)]
  have ok: "hart_ok (asleep chan i s)" using a assms(1) by (simp add: hart_ok_def cpu_id_def)
  have "enter_sched r (asleep chan i s) = Inr (cycled (asleep chan i s))" for r
    using enter_sched_eq [OF ok, of r] a assms by simp
  then show ?thesis using sleep_eq [OF id assms(2-4), of chan] by simp
qed

text \<open>A process that is not recorded in \<open>cpus\<close> cannot sleep.\<close>

lemma sleep_no_proc: "id_ok s \<Longrightarrow> cpu_proc (this_cpu s) = None \<Longrightarrow> sleep get put chan resume s = Inl NullDeref"
  by (simp add: sleep_def cur_proc_eq)

lemma sleep_keeps:
  assumes "sleep get put chan resume s = Inr t" "V s" and V: "\<And>u v. mach.more u = mach.more v \<Longrightarrow> V u = V v"
    and put: "\<And>l u. V (put l u) = V u" and resume: "\<And>u v. V u \<Longrightarrow> resume u = Inr v \<Longrightarrow> V v"
  shows "V t"
proof -
  from assms(1) obtain s0 i s1 l s2 s3 s4 l' s5 where
    1: "cur_proc s = Inr (Some i, s0)" "acquire_proc i s0 = Inr s1"
    "release (get (set_proc i (\<lambda>p. p\<lparr>state := SLEEPING, channel := chan\<rparr>) s1))
       (set_proc i (\<lambda>p. p\<lparr>state := SLEEPING, channel := chan\<rparr>) s1) = Inr (l, s2)"
    and 2: "enter_sched resume (put l s2) = Inr s3"
    and 3: "release_proc i (set_proc i (channel_update (\<lambda>_. 0)) s3) = Inr s4"
    "acquire (get s4) s4 = Inr (l', s5)" "t = put l' s5"
    by (auto simp: sleep_def res_simps Let_def split: option.splits)
  have "mach.more s2 = mach.more s"
    using more_cur_proc [OF 1(1)] more_acquire_proc [OF 1(2)] more_release [OF 1(3)] by simp
  then have "V (put l s2)" using V [of s s2] assms(2) put by simp
  then have "V s3" by (rule enter_sched_keeps [OF 2 _ V resume])
  moreover have "mach.more s5 = mach.more s3"
    using more_release_proc [OF 3(1)] more_acquire [OF 3(2)] by simp
  ultimately show ?thesis using V [of s3 s5] put 3(3) by simp
qed

end

end
