(* ===== verification/Sleeplock.thy ===== *)
theory Sleeplock
  imports Proc
begin

text \<open>
  \<open>kernel/sleeplock.h\<close> and \<open>kernel/sleeplock.c\<close>.

  The lock is handed over by pointer: \<open>get\<close> and \<open>put\<close> read and write it in the state, \<open>chan\<close> is its
  address. Line 28 of the file assigns \<open>splk -> holding\<close>, a name that is not declared; it is read
  as \<open>sllk -> holding\<close>. The argument of \<open>spinlock_init\<close> in \<open>sleeplock_init\<close> is read as the
  address of the field. \<open>resume\<close> is what the rest of the system does while the process is away.
\<close>

section \<open>Operations\<close>

record sleeplock =
  splk :: spinlock
  holding :: u32

definition get_splk :: "('a mach_scheme \<Rightarrow> sleeplock) \<Rightarrow> 'a mach_scheme \<Rightarrow> spinlock" where
  "get_splk get s = splk (get s)"

definition put_splk :: "('a mach_scheme \<Rightarrow> sleeplock) \<Rightarrow> (sleeplock \<Rightarrow> 'a mach_scheme \<Rightarrow> 'a mach_scheme)
   \<Rightarrow> spinlock \<Rightarrow> 'a mach_scheme \<Rightarrow> 'a mach_scheme" where
  "put_splk get put l s = put ((get s)\<lparr>splk := l\<rparr>) s"

definition acquire_sleep ::
  "('a mach_scheme \<Rightarrow> sleeplock) \<Rightarrow> (sleeplock \<Rightarrow> 'a mach_scheme \<Rightarrow> 'a mach_scheme) \<Rightarrow> u64 \<Rightarrow>
   ('a mach_scheme \<Rightarrow> 'a mach_scheme res) \<Rightarrow> 'a mach_scheme \<Rightarrow> 'a mach_scheme res" where
  "acquire_sleep get put chan resume s =
     then_res (acquire (get_splk get s) s) (\<lambda>(l, s).
     then_res
       (loop_res (\<lambda>s. holding (get s) = 0) (sleep (get_splk get) (put_splk get put) chan resume)
          (put_splk get put l s)) (\<lambda>s.
     let s = put ((get s)\<lparr>holding := 1\<rparr>) s
     in then_res (release (get_splk get s) s) (\<lambda>(l, s). Inr (put_splk get put l s))))"

definition release_sleep ::
  "('a mach_scheme \<Rightarrow> sleeplock) \<Rightarrow> (sleeplock \<Rightarrow> 'a mach_scheme \<Rightarrow> 'a mach_scheme) \<Rightarrow> u64 \<Rightarrow>
   'a mach_scheme \<Rightarrow> 'a mach_scheme res" where
  "release_sleep get put chan s =
     then_res (acquire (get_splk get s) s) (\<lambda>(l, s).
     let s = put_splk get put l s;
         s = put ((get s)\<lparr>holding := 0\<rparr>) s
     in then_res (wakeup chan s) (\<lambda>s.
     then_res (release (get_splk get s) s) (\<lambda>(l, s). Inr (put_splk get put l s))))"

definition sleeplock_init :: "sleeplock \<Rightarrow> sleeplock" where
  "sleeplock_init sllk = sllk\<lparr>splk := spinlock_init (splk sllk), holding := 0\<rparr>"

section \<open>Where a sleep lock lives\<close>

lemma sleeplock_set: "(l :: sleeplock)\<lparr>splk := a, holding := h\<rparr> = \<lparr>splk = a, holding = h\<rparr>"
  "(l :: sleeplock)\<lparr>holding := h, splk := a\<rparr> = \<lparr>splk = a, holding = h\<rparr>"
  by (cases l, simp)+

locale sleeplock_place =
  fixes get :: "'a mach_scheme \<Rightarrow> sleeplock"
    and put :: "sleeplock \<Rightarrow> 'a mach_scheme \<Rightarrow> 'a mach_scheme"
  assumes get_put: "get (put l s) = l"
    and get_more: "mach.more s = mach.more t \<Longrightarrow> get s = get t"
    and put_mach: "mach.truncate (put l s) = mach.truncate s"
begin

lemma get_put_splk: "get (put_splk get put l s) = (get s)\<lparr>splk := l\<rparr>"
  by (simp add: put_splk_def get_put)

lemma get_simps: "get (pushed s) = get s" "get (popped s) = get s"
  by (rule get_more, simp)+

end

sublocale sleeplock_place \<subseteq> inner: lock_place "get_splk get" "put_splk get put"
  by unfold_locales (simp_all add: get_splk_def put_splk_def get_put put_mach cong: get_more)

context sleeplock_place
begin

text \<open>Whatever the others keep of \<open>holding\<close>, \<open>sleep\<close> keeps.\<close>

lemma sleep_holding:
  assumes "sleep (get_splk get) (put_splk get put) chan resume s = Inr t" "P (holding (get s))"
    and "\<And>u v. P (holding (get u)) \<Longrightarrow> resume u = Inr v \<Longrightarrow> P (holding (get v))"
  shows "P (holding (get t))"
  using assms(1) by (rule inner.sleep_keeps [where V = "\<lambda>s. P (holding (get s))"])
    (use assms(2,3) in \<open>simp_all add: get_put_splk cong: get_more\<close>)

lemma put_calm: "calm s (put l s)" "calm s (put_splk get put a s)"
  by (simp_all add: calm_truncate put_splk_def put_mach)

lemma put_derived: "id_ok (put l s) = id_ok s" "this_cpu (put l s) = this_cpu s" "procs (put l s) = procs s" "gpr (put l s) = gpr s"
  "hart_ok (put l s) = hart_ok s" "proc_at i (put l s) = proc_at i s"
  using put_mach [of l s] by (simp_all add: mach.truncate_def id_ok_def this_cpu_def cpu_id_def hart_ok_def proc_at_def)

text \<open>A lock whose \<open>holding\<close> is set is granted at once, to any caller.\<close>

definition granted :: "'a mach_scheme \<Rightarrow> 'a mach_scheme" where
  "granted s = put_splk get put \<lparr>available = 1\<rparr> (popped (put \<lparr>splk = \<lparr>available = 0\<rparr>, holding = 1\<rparr>
     (put_splk get put \<lparr>available = 0\<rparr> (pushed s))))"

lemma acquire_sleep_held:
  assumes "id_ok s" "available (splk (get s)) \<noteq> 0" "holding (get s) \<noteq> 0"
  shows "acquire_sleep get put chan resume s = Inr (granted s)"
proof -
  let ?s = "put_splk get put \<lparr>available = 0\<rparr> (pushed s)"
  let ?u = "put \<lparr>splk = \<lparr>available = 0\<rparr>, holding = 1\<rparr> ?s"
  have "loop_res (\<lambda>s. holding (get s) = 0) (sleep (get_splk get) (put_splk get put) chan resume) ?s = Inr ?s"
    using assms(3) by (intro loop_res_done) (simp add: get_put_splk get_simps)
  moreover have "id_ok ?u" using assms(1) by (simp add: put_splk_def put_derived)
  moreover have "(get ?s)\<lparr>holding := 1\<rparr> = \<lparr>splk = \<lparr>available = 0\<rparr>, holding = 1\<rparr>" by (simp add: get_put_splk sleeplock_set)
  ultimately show ?thesis
    using assms by (simp add: acquire_sleep_def acquire_eq get_splk_def release_eq spinlock_set granted_def get_put)
qed

lemma granted_props: "get (granted s) = \<lparr>splk = \<lparr>available = 1\<rparr>, holding = 1\<rparr>" "id_ok s \<Longrightarrow> calm s (granted s)"
proof -
  show "get (granted s) = \<lparr>splk = \<lparr>available = 1\<rparr>, holding = 1\<rparr>"
    by (simp add: granted_def get_put_splk get_simps get_put)
  assume "id_ok s"
  then show "calm s (granted s)"
    by (simp add: granted_def calm_def put_splk_def put_derived)
qed

text \<open>
  A lock that is free, asked for with another lock held, is never granted: \<open>sleep\<close> does not
  give up the cpu, so the loop spins.
\<close>

lemma acquire_sleep_spins:
  assumes "hart_ok s" "cpu_proc (this_cpu s) = Some i" "i < length (procs s)" "available (p_lock (proc_at i s)) \<noteq> 0"
    and "lock_layer (this_cpu s) \<noteq> 0" "holding (get s) = 0"
  shows "acquire_sleep get put chan resume s = Inl Diverges"
proof -
  let ?s = "put_splk get put ((splk (get s))\<lparr>available := 0\<rparr>) (pushed s)"
  let ?I = "\<lambda>u. hart_ok u \<and> cpu_proc (this_cpu u) = Some i \<and> i < length (procs u) \<and> available (p_lock (proc_at i u)) \<noteq> 0
    \<and> lock_layer (this_cpu u) \<noteq> 1 \<and> holding (get u) = 0"
  have id: "id_ok s" using assms(1) by (rule hart_ok_id_ok)
  have "?I ?s" using assms id by (simp add: put_splk_def put_derived get_put get_simps)
  then have "loop_res (\<lambda>s. holding (get s) = 0) (sleep (get_splk get) (put_splk get put) chan resume) ?s = Inl Diverges"
  proof (rule loop_res_diverges [where I = ?I], intro conjI)
    fix u assume I: "?I u"
    then have h: "hart_ok u" "cpu_proc (this_cpu u) = Some i" "i < length (procs u)" "available (p_lock (proc_at i u)) \<noteq> 0"
      "lock_layer (this_cpu u) \<noteq> 1" "holding (get u) = 0" by simp_all
    from inner.sleep_nested [OF h(1-5), of chan resume] obtain t where
      t: "sleep (get_splk get) (put_splk get put) chan resume u = Inr t" "available (p_lock (proc_at i t)) = 1" "hart_ok t"
        "cpu_proc (this_cpu t) = Some i" "length (procs t) = length (procs u)" "lock_layer (this_cpu t) = lock_layer (this_cpu u)"
      by blast
    have "sleep (get_splk get) (put_splk get put) chan (\<lambda>_. Inl Diverges) u = Inr t"
      using inner.sleep_nested_resume [OF h(1-5), of chan resume "\<lambda>_. Inl Diverges"] t(1) by simp
    then have "holding (get t) = 0" using h(6) by (rule sleep_holding [where P = "\<lambda>h. h = 0"]) simp
    with t h show "\<exists>v. sleep (get_splk get) (put_splk get put) chan resume u = Inr v \<and> ?I v" by simp
    show "holding (get u) = 0" by (rule h(6))
  qed
  then show ?thesis
    using id by (cases "available (splk (get s)) = 0") (simp_all add: acquire_sleep_def acquire_eq get_splk_def)
qed

text \<open>A lock that is free is never granted, as long as nobody sets \<open>holding\<close> meanwhile.\<close>

lemma acquire_sleep_free:
  assumes "holding (get s) = 0" "\<And>u v. holding (get u) = 0 \<Longrightarrow> resume u = Inr v \<Longrightarrow> holding (get v) = 0"
  shows "acquire_sleep get put chan resume s \<noteq> Inr t"
proof
  assume "acquire_sleep get put chan resume s = Inr t"
  then obtain l s1 s2 where 1: "acquire (get_splk get s) s = Inr (l, s1)"
    and 2: "loop_res (\<lambda>s. holding (get s) = 0) (sleep (get_splk get) (put_splk get put) chan resume)
      (put_splk get put l s1) = Inr s2"
    by (auto simp: acquire_sleep_def res_simps)
  let ?b = "\<lambda>s. holding (get s) = 0"
  let ?f = "sleep (get_splk get) (put_splk get put) chan resume"
  have "get s1 = get s" using 1 by (intro get_more) (rule more_acquire)
  then have "?b (put_splk get put l s1)" using assms(1) by (simp add: get_put_splk)
  moreover have "case ?f u of Inr v \<Rightarrow> ?b v | Inl e \<Rightarrow> True" if "?b u" for u
    using sleep_holding [of chan resume u _ "\<lambda>h. h = 0"] that assms(2) by (auto split: sum.splits)
  ultimately have "case loop_res ?b ?f (put_splk get put l s1) of Inr v \<Rightarrow> ?b v \<and> \<not> ?b v | Inl e \<Rightarrow> e = Diverges \<or> True"
    by (rule loop_res_invariant)
  with 2 show False by simp
qed

text \<open>Releasing clears \<open>holding\<close>, frees the inner lock and wakes nobody.\<close>

lemma release_sleep_eq:
  assumes "wake_ready s" "available (splk (get s)) \<noteq> 0"
  shows "\<exists>w. release_sleep get put chan s = Inr (put_splk get put \<lparr>available = 1\<rparr> (popped w)) \<and> calm (pushed s) w
    \<and> mach.more w = mach.more (put \<lparr>splk = \<lparr>available = 0\<rparr>, holding = 0\<rparr> (put_splk get put \<lparr>available = 0\<rparr> (pushed s)))"
proof -
  let ?s = "put \<lparr>splk = \<lparr>available = 0\<rparr>, holding = 0\<rparr> (put_splk get put \<lparr>available = 0\<rparr> (pushed s))"
  have id: "id_ok s" using assms(1) by (simp add: wake_ready_def)
  have "wake_ready ?s" using assms(1) by (simp add: put_splk_def put_derived wake_ready_def)
  from wakeup_calm [OF this, of chan] obtain w where w: "wakeup chan ?s = Inr w" "calm ?s w" "mach.more w = mach.more ?s" by blast
  have gw: "get w = \<lparr>splk = \<lparr>available = 0\<rparr>, holding = 0\<rparr>" using get_more [OF w(3)] by (simp add: get_put)
  have "calm (pushed s) ?s" by (rule calm_trans [OF put_calm(2) put_calm(1)])
  then have c: "calm (pushed s) w" using w(2) by (rule calm_trans)
  then have "id_ok w" using id by (simp add: calm_def)
  then have "release_sleep get put chan s = Inr (put_splk get put \<lparr>available = 1\<rparr> (popped w))"
    using assms(2) id w(1) gw
    by (simp add: release_sleep_def acquire_eq get_splk_def release_eq get_put_splk get_simps Let_def spinlock_set sleeplock_set)
  with c w(3) show ?thesis by blast
qed

lemma release_sleep_spec:
  assumes "wake_ready s" "available (splk (get s)) \<noteq> 0"
  shows "\<exists>t. release_sleep get put chan s = Inr t \<and> get t = \<lparr>splk = \<lparr>available = 1\<rparr>, holding = 0\<rparr> \<and> calm s t"
proof -
  from release_sleep_eq [OF assms, of chan] obtain w where
    w: "release_sleep get put chan s = Inr (put_splk get put \<lparr>available = 1\<rparr> (popped w))" "calm (pushed s) w"
      "mach.more w = mach.more (put \<lparr>splk = \<lparr>available = 0\<rparr>, holding = 0\<rparr> (put_splk get put \<lparr>available = 0\<rparr> (pushed s)))" by blast
  have "get w = \<lparr>splk = \<lparr>available = 0\<rparr>, holding = 0\<rparr>" using get_more [OF w(3)] by (simp add: get_put)
  moreover have "calm s (put_splk get put \<lparr>available = 1\<rparr> (popped w))"
    using w(2) assms(1) by (simp add: calm_def put_splk_def put_derived wake_ready_def)
  ultimately show ?thesis using w(1) by (simp add: get_put_splk get_simps)
qed

end

end
