(* ===== verification/Log.thy ===== *)
theory Log
  imports Sleeplock
begin

text \<open>
  \<open>kernel/log.c\<close>: the gate in front of a file-system call.

  \<open>MAXOPBLOCKS\<close> is a macro of a header that is not in the repository; it is a parameter. The
  condition of line 39 has no comparison: it is true whenever the sum is not 0. Arithmetic on
  \<open>int\<close> is on 32 bits.
\<close>

section \<open>Operations\<close>

record loghead =
  block_size :: i32
  block :: "i32 list"

record log =
  log_splk :: spinlock
  head :: loghead
  is_committing :: i32
  on_excuting :: i32

record log_mach = mach +
  klog :: log

definition get_log_lock :: "'a log_mach_scheme \<Rightarrow> spinlock" where
  "get_log_lock s = log_splk (klog s)"

definition put_log_lock :: "spinlock \<Rightarrow> 'a log_mach_scheme \<Rightarrow> 'a log_mach_scheme" where
  "put_log_lock l s = s\<lparr>klog := (klog s)\<lparr>log_splk := l\<rparr>\<rparr>"

text \<open>One turn of \<open>while(flag)\<close>; the first component is \<open>False\<close> after the \<open>break\<close>.\<close>

definition begain_op_step ::
  "i32 \<Rightarrow> u64 \<Rightarrow> ('a log_mach_scheme \<Rightarrow> 'a log_mach_scheme res) \<Rightarrow>
   bool \<times> 'a log_mach_scheme \<Rightarrow> (bool \<times> 'a log_mach_scheme) res" where
  "begain_op_step MAXOPBLOCKS chan resume = (\<lambda>(flag, s).
     if is_committing (klog s) \<noteq> 0 then
       then_res (sleep get_log_lock put_log_lock chan resume s) (\<lambda>s. Inr (flag, s))
     else if block_size (head (klog s)) + (on_excuting (klog s) + 1) * MAXOPBLOCKS \<noteq> 0 then
       then_res (sleep get_log_lock put_log_lock chan resume s) (\<lambda>s. Inr (flag, s))
     else
       let s = s\<lparr>klog := (klog s)\<lparr>on_excuting := on_excuting (klog s) + 1\<rparr>\<rparr>
       in then_res (release (get_log_lock s) s) (\<lambda>(l, s). Inr (False, put_log_lock l s)))"

definition begain_op ::
  "i32 \<Rightarrow> u64 \<Rightarrow> ('a log_mach_scheme \<Rightarrow> 'a log_mach_scheme res) \<Rightarrow> 'a log_mach_scheme \<Rightarrow> 'a log_mach_scheme res" where
  "begain_op MAXOPBLOCKS chan resume s =
     then_res (acquire (get_log_lock s) s) (\<lambda>(l, s).
     then_res (loop_res fst (begain_op_step MAXOPBLOCKS chan resume) (True, put_log_lock l s)) (\<lambda>(flag, s).
     Inr s))"

section \<open>The gate\<close>

lemma klog_more: "mach.more s = mach.more t \<Longrightarrow> klog s = klog t"
  by (cases s; cases t) simp

lemma klog_simps [simp]: "klog (pushed s) = klog s" "klog (popped s) = klog s"
  by (rule klog_more, simp)+

lemma klog_update [simp]:
  "id_ok (s\<lparr>klog := g\<rparr>) = id_ok s" "this_cpu (s\<lparr>klog := g\<rparr>) = this_cpu s"
  by (simp_all add: id_ok_def this_cpu_def cpu_id_def)

interpretation log: lock_place get_log_lock put_log_lock
  by unfold_locales
    (simp_all add: get_log_lock_def put_log_lock_def mach.truncate_def cong: klog_more)

text \<open>The condition under which the loop leaves.\<close>

definition log_open :: "i32 \<Rightarrow> log \<Rightarrow> bool" where
  "log_open MAXOPBLOCKS g \<longleftrightarrow> is_committing g = 0 \<and> block_size (head g) + (on_excuting g + 1) * MAXOPBLOCKS = 0"

lemma log_open_lock [simp]: "log_open M (g\<lparr>log_splk := l\<rparr>) = log_open M g"
  by (simp add: log_open_def)

lemma begain_op_step_closed:
  "\<not> log_open M (klog s) \<Longrightarrow> begain_op_step M chan resume (flag, s) =
     then_res (sleep get_log_lock put_log_lock chan resume s) (\<lambda>s. Inr (flag, s))"
  by (simp add: begain_op_step_def log_open_def)

text \<open>
  C34: when no commit is running and \<open>block_size + (on_excuting + 1) * MAXOPBLOCKS\<close> is 0 on 32 bits,
  \<open>begain_op\<close> counts the call and returns with the log's lock free and everything else as before.
  In every other state it sleeps, and it never returns while the rest of the system leaves the
  log in such a state: in particular it never admits a call to an idle, empty log, for any
  positive \<open>MAXOPBLOCKS\<close>.
\<close>

theorem begain_op_spec:
  assumes "id_ok s" "available (log_splk (klog s)) \<noteq> 0"
  shows "if log_open M (klog s)
    then \<exists>t. begain_op M chan resume s = Inr t
      \<and> klog t = (klog s)\<lparr>log_splk := \<lparr>available = 1\<rparr>, on_excuting := on_excuting (klog s) + 1\<rparr>
      \<and> procs t = procs s \<and> lock_layer (this_cpu t) = lock_layer (this_cpu s)
    else (\<forall>u v. \<not> log_open M (klog u) \<longrightarrow> resume u = Inr v \<longrightarrow> \<not> log_open M (klog v)) \<longrightarrow>
      (\<forall>t. begain_op M chan resume s \<noteq> Inr t)"
proof (cases "log_open M (klog s)")
  case True
  let ?g = "klog s"
  let ?a = "put_log_lock ((log_splk ?g)\<lparr>available := 0\<rparr>) (pushed s)"
  let ?b = "?a\<lparr>klog := (klog ?a)\<lparr>on_excuting := on_excuting ?g + 1\<rparr>\<rparr>"
  have a: "klog ?a = ?g\<lparr>log_splk := \<lparr>available = 0\<rparr>\<rparr>" "id_ok ?b" "procs ?b = procs s"
    "lock_layer (this_cpu ?b) = lock_layer (this_cpu s) + 1"
    using assms(1) by (simp_all add: put_log_lock_def spinlock_set)
  have "begain_op_step M chan resume (True, ?a) = Inr (False, put_log_lock \<lparr>available = 1\<rparr> (popped ?b))"
    using True a by (simp add: begain_op_step_def log_open_def release_eq spinlock_set)
  then have "begain_op M chan resume s = Inr (put_log_lock \<lparr>available = 1\<rparr> (popped ?b))"
    using assms by (simp add: begain_op_def acquire_eq get_log_lock_def loop_res_unfold [of fst])
  then show ?thesis using True a by (simp add: put_log_lock_def)
next
  case False
  let ?V = "\<lambda>s. \<not> log_open M (klog s)"
  have "begain_op M chan resume s \<noteq> Inr t"
    if keep: "\<And>u v. ?V u \<Longrightarrow> resume u = Inr v \<Longrightarrow> ?V v" for t
  proof
    assume "begain_op M chan resume s = Inr t"
    then obtain l s1 fl where 1: "acquire (get_log_lock s) s = Inr (l, s1)"
      and 2: "loop_res fst (begain_op_step M chan resume) (True, put_log_lock l s1) = Inr (fl, t)"
      by (auto simp: begain_op_def res_simps)
    have "klog s1 = klog s" using more_acquire [OF 1] by (rule klog_more)
    then have "fst (True, put_log_lock l s1) \<and> ?V (snd (True, put_log_lock l s1))"
      using False by (simp add: put_log_lock_def)
    moreover have "case begain_op_step M chan resume p of Inr q \<Rightarrow> fst q \<and> ?V (snd q) | Inl e \<Rightarrow> True"
      if "fst p \<and> ?V (snd p)" "fst p" for p
    proof (cases "sleep get_log_lock put_log_lock chan resume (snd p)")
      case (Inr t)
      then have "?V t"
        by (rule log.sleep_keeps) (use that keep in \<open>simp_all add: put_log_lock_def cong: klog_more\<close>)
      with that Inr show ?thesis by (cases p) (simp add: begain_op_step_closed)
    qed (use that in \<open>cases p, simp add: begain_op_step_closed\<close>)
    ultimately have "case loop_res fst (begain_op_step M chan resume) (True, put_log_lock l s1) of
        Inr q \<Rightarrow> (fst q \<and> ?V (snd q)) \<and> \<not> fst q | Inl e \<Rightarrow> e = Diverges \<or> True"
      by (rule loop_res_invariant)
    with 2 show False by auto
  qed
  with False show ?thesis by auto
qed

definition idle_log_mach :: log_mach where
  "idle_log_mach = mach.extend zero_mach \<lparr>klog = \<lparr>log_splk = \<lparr>available = 1\<rparr>,
     head = \<lparr>block_size = 0, block = replicate 30 0\<rparr>, is_committing = 0, on_excuting = 0\<rparr>\<rparr>"

theorem begain_op_spec_witness: "\<forall>t. begain_op 10 0 Inr idle_log_mach \<noteq> Inr t"
proof -
  have "id_ok idle_log_mach" "available (log_splk (klog idle_log_mach)) \<noteq> 0" "\<not> log_open 10 (klog idle_log_mach)"
    by (simp_all add: idle_log_mach_def mach.defs log_mach.defs zero_mach_def zero_hart_def id_ok_def cpu_id_def log_open_def)
  from begain_op_spec [OF this(1,2), of 10 0 Inr] this(3) show ?thesis by simp
qed

end
