(* ===== verification/Pipe.thy ===== *)
theory Pipe
  imports Vm Proc
begin

text \<open>
  \<open>kernel/pipe.c\<close>. The pipe is reached by a pointer; the state holds the one pipe the calls are
  about, and \<open>rchan\<close>, \<open>wchan\<close> are the addresses of its two cursors. \<open>cur_addr\<close> is the address of
  the local \<open>char cur\<close> that \<open>copy_in\<close> fills.

  Readings: \<open>PIPESIZE\<close> is 512 (line 6 has a stray \<open>=\<close>); the comma in the head of the loop of
  \<open>pipe_write\<close> is a semicolon; \<open>cur_proc = cur_proc()\<close> in \<open>pipe_write\<close>, where the local variable hides
  the routine of that name, calls the routine; \<open>cur_proc -> pagetable\<close> in \<open>pipe_read\<close> is \<open>my_proc\<close>'s.
  The value \<open>pipe_read\<close> returns is that of the outer \<open>int i\<close>, which is never assigned: it is a
  parameter \<open>junk\<close>. \<open>pipe_read\<close> passes the character itself as the pointer argument of \<open>copy_out\<close>:
  an address below 256, in the page of the null pointer, where \<open>memlayout.h\<close> has no memory. Following
  it is \<open>NullDeref\<close>.
\<close>

section \<open>Operations\<close>

definition PIPESIZE :: u32 where
  "PIPESIZE = 512"

record pipe =
  pipe_lock :: spinlock
  buffer :: "u8 list"
  read_cursor :: u32
  write_cursor :: u32
  writeable :: u32
  readable :: u32

record pipe_mach = kmem +
  pi :: pipe

definition get_pipe_lock :: "'a pipe_mach_scheme \<Rightarrow> spinlock" where
  "get_pipe_lock s = pipe_lock (pi s)"

definition put_pipe_lock :: "spinlock \<Rightarrow> 'a pipe_mach_scheme \<Rightarrow> 'a pipe_mach_scheme" where
  "put_pipe_lock l s = s\<lparr>pi := (pi s)\<lparr>pipe_lock := l\<rparr>\<rparr>"

text \<open>The two branches of one turn of the loop of \<open>pipe_write\<close>.\<close>

definition pipe_write_byte ::
  "u64 \<Rightarrow> u64 \<Rightarrow> u64 \<Rightarrow> ('a pipe_mach_scheme \<Rightarrow> 'a pipe_mach_scheme res) \<Rightarrow> u64 \<Rightarrow> nat \<Rightarrow>
   'a pipe_mach_scheme \<Rightarrow> 'a pipe_mach_scheme res" where
  "pipe_write_byte cur_addr rchan wchan resume start_addr i s =
     (if (write_cursor (pi s) + 1) mod PIPESIZE = read_cursor (pi s) then
        then_res (wakeup rchan s) (sleep get_pipe_lock put_pipe_lock wchan resume)
      else
        let s = s\<lparr>pi := (pi s)\<lparr>write_cursor := write_cursor (pi s) + 1\<rparr>\<rparr>
        in then_res (cur_proc s) (\<lambda>(p, s).
          case p of None \<Rightarrow> Inl NullDeref
          | Some k \<Rightarrow>
              if k < length (procs s) then
                then_res (copy_in (pagetable (procs s ! k)) cur_addr (start_addr + of_nat i) 1 s) (\<lambda>s.
                Inr (s\<lparr>pi := (pi s)\<lparr>buffer := (buffer (pi s))
                  [unat (write_cursor (pi s) mod PIPESIZE) := mem s cur_addr]\<rparr>\<rparr>))
              else Inl OutOfBounds))"

text \<open>The loop; the flag is \<open>False\<close> when the routine has already released the lock and returned.\<close>

fun pipe_write_loop ::
  "u64 \<Rightarrow> u64 \<Rightarrow> u64 \<Rightarrow> ('a pipe_mach_scheme \<Rightarrow> 'a pipe_mach_scheme res) \<Rightarrow> u64 \<Rightarrow> nat \<Rightarrow> nat \<Rightarrow>
   'a pipe_mach_scheme \<Rightarrow> (bool \<times> 'a pipe_mach_scheme) res" where
  "pipe_write_loop cur_addr rchan wchan resume start_addr 0 i s = Inr (True, s)"
| "pipe_write_loop cur_addr rchan wchan resume start_addr (Suc n) i s =
     (if readable (pi s) = 0 then
        then_res (release (get_pipe_lock s) s) (\<lambda>(l, s). Inr (False, put_pipe_lock l s))
      else
        then_res (pipe_write_byte cur_addr rchan wchan resume start_addr i s)
          (pipe_write_loop cur_addr rchan wchan resume start_addr n (Suc i)))"

definition pipe_write ::
  "u64 \<Rightarrow> u64 \<Rightarrow> u64 \<Rightarrow> ('a pipe_mach_scheme \<Rightarrow> 'a pipe_mach_scheme res) \<Rightarrow> u64 \<Rightarrow> i32 \<Rightarrow>
   'a pipe_mach_scheme \<Rightarrow> 'a pipe_mach_scheme res" where
  "pipe_write cur_addr rchan wchan resume start_addr len s =
     then_res (acquire (get_pipe_lock s) s) (\<lambda>(l, s).
     then_res (pipe_write_loop cur_addr rchan wchan resume start_addr (nat (sint len)) 0 (put_pipe_lock l s)) (\<lambda>(done, s).
     if done then
       then_res (wakeup rchan s) (\<lambda>s.
       then_res (release (get_pipe_lock s) s) (\<lambda>(l, s). Inr (put_pipe_lock l s)))
     else Inr s))"

text \<open>Addresses in the page of the null pointer, where there is no memory.\<close>

definition null_page :: "u64 \<Rightarrow> bool" where
  "null_page a \<longleftrightarrow> unat a < 4096"

fun pipe_read_loop :: "nat option \<Rightarrow> u64 \<Rightarrow> nat \<Rightarrow> nat \<Rightarrow> 'a pipe_mach_scheme \<Rightarrow> 'a pipe_mach_scheme res" where
  "pipe_read_loop p target 0 i s = Inr s"
| "pipe_read_loop p target (Suc n) i s =
     (if read_cursor (pi s) = write_cursor (pi s) then Inr s
      else
        let cur = buffer (pi s) ! unat (read_cursor (pi s) mod PIPESIZE);
            s = s\<lparr>pi := (pi s)\<lparr>read_cursor := read_cursor (pi s) + 1\<rparr>\<rparr>
        in case p of None \<Rightarrow> Inl NullDeref
           | Some k \<Rightarrow>
               if k < length (procs s) then
                 if null_page (ucast cur) then Inl NullDeref
                 else then_res (copy_out (pagetable (procs s ! k)) (target + of_nat i) (ucast cur) 1 s)
                   (pipe_read_loop p target n (Suc i))
               else Inl OutOfBounds)"

definition pipe_read ::
  "u64 \<Rightarrow> u64 \<Rightarrow> ('a pipe_mach_scheme \<Rightarrow> 'a pipe_mach_scheme res) \<Rightarrow> i32 \<Rightarrow> u64 \<Rightarrow> i32 \<Rightarrow>
   'a pipe_mach_scheme \<Rightarrow> (i32 \<times> 'a pipe_mach_scheme) res" where
  "pipe_read rchan wchan resume junk target len s =
     then_res (cur_proc s) (\<lambda>(p, s).
     then_res (acquire (get_pipe_lock s) s) (\<lambda>(l, s).
     then_res (loop_res (\<lambda>s. read_cursor (pi s) = write_cursor (pi s) \<and> writeable (pi s) \<noteq> 0)
       (sleep get_pipe_lock put_pipe_lock rchan resume) (put_pipe_lock l s)) (\<lambda>s.
     then_res (pipe_read_loop p target (nat (sint len)) 0 s) (\<lambda>s.
     then_res (wakeup wchan s) (\<lambda>s.
     then_res (release (get_pipe_lock s) s) (\<lambda>(l, s). Inr (junk, put_pipe_lock l s)))))))"

section \<open>The lock of the pipe\<close>

lemma pi_more: "mach.more s = mach.more t \<Longrightarrow> pi s = pi t"
  by (cases s; cases t) simp

lemma mem_more: "mach.more (s :: 'a kmem_scheme) = mach.more t \<Longrightarrow> mem s = mem t"
  by (cases s; cases t) simp

interpretation pipe: lock_place get_pipe_lock put_pipe_lock
  by unfold_locales
    (simp_all add: get_pipe_lock_def put_pipe_lock_def mach.truncate_def cong: pi_more)

lemma pi_simps [simp]: "pi (pushed s) = pi s" "pi (popped s) = pi s" "pi (cycled s) = pi s"
  by (rule pi_more, simp)+

lemma mem_cycled [simp]: "mem (cycled s) = mem s"
  by (rule mem_more) simp

lemma pi_update [simp]:
  "id_ok (s\<lparr>pi := q\<rparr>) = id_ok s" "this_cpu (s\<lparr>pi := q\<rparr>) = this_cpu s"
  by (simp_all add: id_ok_def this_cpu_def cpu_id_def)

section \<open>The writer\<close>

text \<open>The ring after writing \<open>bs\<close>, the first byte one slot after the write cursor.\<close>

fun ring_store :: "u8 list \<Rightarrow> u32 \<Rightarrow> u8 list \<Rightarrow> u8 list" where
  "ring_store [] w buf = buf"
| "ring_store (b # bs) w buf = ring_store bs (w + 1) (buf[unat ((w + 1) mod PIPESIZE) := b])"

text \<open>
  The page at which user memory is read is mapped, its frame is neither the stack slot of \<open>cur\<close>
  nor at the very end of memory, and that slot is in no page table.
\<close>

definition user_bytes :: "mem \<Rightarrow> u64 \<Rightarrow> (u64 list \<rightharpoonup> u64) \<Rightarrow> u64 \<Rightarrow> u64 \<Rightarrow> nat \<Rightarrow> bool" where
  "user_bytes m root tbl cur_addr addr n \<longleftrightarrow> wf_pt m root tbl
     \<and> (\<forall>q \<in> ran tbl. \<not> in_page q cur_addr)
     \<and> (\<forall>i < n. tbl (va_tables (addr + of_nat i)) \<noteq> None
          \<and> translate m tbl (addr + of_nat i) \<noteq> cur_addr
          \<and> unat (translate m tbl (addr + of_nat i)) + 1 < 2 ^ 64)"

lemma copy_range_1: "copy_range m d a 1 = m(d := m a)"
  by (auto simp: copy_range_def unat_eq_0)

lemma load64_other_byte:
  assumes "\<not> in_page q a" "unat i < 512"
  shows "load64 (m(a := v)) (slot q i) = load64 m (slot q i)"
  by (rule load64_cong) (use assms slot_in_page [of i _ q] in auto)

lemma translate_other_byte:
  assumes "\<forall>q \<in> ran tbl. \<not> in_page q a"
  shows "translate (m(a := v)) tbl va = translate m tbl va"
  using assms by (auto simp: translate_def pt_abs_def va_index_def load64_other_byte ran_def split: option.split)

lemma user_bytes_store:
  assumes "user_bytes m root tbl cur_addr addr n"
  shows "user_bytes (m(cur_addr := v)) root tbl cur_addr addr n"
proof -
  have "wf_pt (m(cur_addr := v)) root tbl"
    by (rule wf_pt_cong [of m]) (use assms in \<open>auto simp: user_bytes_def ranI intro: load64_other_byte\<close>)
  with assms show ?thesis by (simp add: user_bytes_def translate_other_byte)
qed

lemma user_bytes_Suc:
  "user_bytes m root tbl c addr (Suc n) \<Longrightarrow> user_bytes m root tbl c (addr + 1) n"
  unfolding user_bytes_def by (auto simp: algebra_simps)

lemma pipe_write_byte_room:
  assumes "id_ok s" "cpu_proc (this_cpu s) = Some k" "k < length (procs s)" "pagetable (procs s ! k) = root"
    and "user_bytes (mem s) root tbl cur_addr (addr + of_nat i) (Suc n)"
    and "(write_cursor (pi s) + 1) mod PIPESIZE \<noteq> read_cursor (pi s)"
  defines "b \<equiv> mem s (translate (mem s) tbl (addr + of_nat i))"
  shows "\<exists>s'. pipe_write_byte cur_addr rchan wchan resume addr i s = Inr s'
    \<and> pi s' = (pi s)\<lparr>write_cursor := write_cursor (pi s) + 1, buffer := ring_store [b] (write_cursor (pi s)) (buffer (pi s))\<rparr>
    \<and> mem s' = (mem s)(cur_addr := b) \<and> procs s' = procs s \<and> id_ok s'
    \<and> cpu_proc (this_cpu s') = cpu_proc (this_cpu s) \<and> lock_layer (this_cpu s') = lock_layer (this_cpu s)"
proof -
  let ?s = "s\<lparr>pi := (pi s)\<lparr>write_cursor := write_cursor (pi s) + 1\<rparr>\<rparr>"
  let ?c = "cycled ?s"
  have u: "wf_pt (mem s) root tbl" "tbl (va_tables (addr + of_nat i)) \<noteq> None"
    "unat (translate (mem s) tbl (addr + of_nat i)) + unat (1 :: u64) < 2 ^ 64"
    using assms(5) by (auto simp: user_bytes_def dest!: spec [of _ 0])
  have "copy_in root cur_addr (addr + of_nat i) 1 ?c = Inr (?c\<lparr>mem := (mem s)(cur_addr := b)\<rparr>)"
    using u copy_in_present [of ?c root tbl "addr + of_nat i" 1 cur_addr]
    by (simp add: copy_range_1 [simplified One_nat_def] b_def)
  then have "pipe_write_byte cur_addr rchan wchan resume addr i s =
      Inr (?c\<lparr>mem := (mem s)(cur_addr := b), pi := (pi ?c)\<lparr>buffer := (buffer (pi s))
        [unat ((write_cursor (pi s) + 1) mod PIPESIZE) := b]\<rparr>\<rparr>)"
    using assms(1-4,6) by (simp add: pipe_write_byte_def cur_proc_eq)
  then show ?thesis using assms(1) by simp
qed

lemma ring_store_append: "ring_store (xs @ ys) w buf = ring_store ys (w + of_nat (length xs)) (ring_store xs w buf)"
  by (induction xs arbitrary: w buf) (simp_all add: algebra_simps)

lemma pipe_write_loop_room:
  assumes "id_ok s" "cpu_proc (this_cpu s) = Some k" "k < length (procs s)" "pagetable (procs s ! k) = root"
    and "user_bytes (mem s) root tbl cur_addr (addr + of_nat i) n" "readable (pi s) \<noteq> 0"
    and "\<And>j. j < n \<Longrightarrow> (write_cursor (pi s) + of_nat j + 1) mod PIPESIZE \<noteq> read_cursor (pi s)"
  shows "\<exists>s'. pipe_write_loop cur_addr rchan wchan resume addr n i s = Inr (True, s')
    \<and> pi s' = (pi s)\<lparr>write_cursor := write_cursor (pi s) + of_nat n,
        buffer := ring_store (map (\<lambda>j. mem s (translate (mem s) tbl (addr + of_nat (i + j)))) [0..<n]) (write_cursor (pi s)) (buffer (pi s))\<rparr>
    \<and> (\<forall>x. x \<noteq> cur_addr \<longrightarrow> mem s' x = mem s x) \<and> procs s' = procs s \<and> id_ok s'
    \<and> cpu_proc (this_cpu s') = cpu_proc (this_cpu s) \<and> lock_layer (this_cpu s') = lock_layer (this_cpu s)"
  using assms
proof (induction n arbitrary: i s)
  case 0
  then show ?case by simp
next
  case (Suc n)
  let ?b = "\<lambda>i. mem s (translate (mem s) tbl (addr + of_nat i))"
  have room: "(write_cursor (pi s) + 1) mod PIPESIZE \<noteq> read_cursor (pi s)" using Suc.prems(7) [of 0] by simp
  from pipe_write_byte_room [OF Suc.prems(1-5) room] obtain s1 where
    1: "pipe_write_byte cur_addr rchan wchan resume addr i s = Inr s1"
    "pi s1 = (pi s)\<lparr>write_cursor := write_cursor (pi s) + 1, buffer := ring_store [?b i] (write_cursor (pi s)) (buffer (pi s))\<rparr>"
    "mem s1 = (mem s)(cur_addr := ?b i)" "procs s1 = procs s" "id_ok s1"
    "cpu_proc (this_cpu s1) = cpu_proc (this_cpu s)" "lock_layer (this_cpu s1) = lock_layer (this_cpu s)"
    by blast
  have a: "addr + of_nat i + 1 = addr + of_nat (Suc i)" by simp
  have u: "user_bytes (mem s1) root tbl cur_addr (addr + of_nat (Suc i)) n"
    using user_bytes_Suc [OF Suc.prems(5)] unfolding 1(3) a by (rule user_bytes_store)
  have keep: "mem s1 (translate (mem s1) tbl (addr + of_nat (Suc i + j))) = ?b (Suc i + j)" if "j < n" for j
    using Suc.prems(5) that unfolding 1(3)
    by (auto simp: user_bytes_def translate_other_byte algebra_simps dest!: spec [of _ "Suc j"])
  have r: "(write_cursor (pi s1) + of_nat j + 1) mod PIPESIZE \<noteq> read_cursor (pi s1)" if "j < n" for j
    using Suc.prems(7) [of "Suc j"] that by (simp add: 1(2) algebra_simps)
  have ih: "\<exists>s'. pipe_write_loop cur_addr rchan wchan resume addr n (Suc i) s1 = Inr (True, s')
    \<and> pi s' = (pi s1)\<lparr>write_cursor := write_cursor (pi s1) + of_nat n,
        buffer := ring_store (map (\<lambda>j. mem s1 (translate (mem s1) tbl (addr + of_nat (Suc i + j)))) [0..<n]) (write_cursor (pi s1)) (buffer (pi s1))\<rparr>
    \<and> (\<forall>x. x \<noteq> cur_addr \<longrightarrow> mem s' x = mem s1 x) \<and> procs s' = procs s1 \<and> id_ok s'
    \<and> cpu_proc (this_cpu s') = cpu_proc (this_cpu s1) \<and> lock_layer (this_cpu s') = lock_layer (this_cpu s1)"
    by (rule Suc.IH [OF 1(5) _ _ _ u _ r]) (use Suc.prems 1 in simp_all)
  have m1: "map (\<lambda>j. mem s1 (translate (mem s1) tbl (addr + of_nat (Suc i + j)))) [0..<n] = map (\<lambda>j. ?b (Suc i + j)) [0..<n]"
    using keep by simp
  have m2: "map (\<lambda>j. ?b (i + j)) [0..<Suc n] = ?b i # map (\<lambda>j. ?b (Suc i + j)) [0..<n]"
    by (simp add: upt_conv_Cons map_Suc_upt [symmetric] add.left_commute del: upt_Suc)
  from ih [unfolded m1] obtain s' where s': "pipe_write_loop cur_addr rchan wchan resume addr n (Suc i) s1 = Inr (True, s')"
    "pi s' = (pi s1)\<lparr>write_cursor := write_cursor (pi s1) + of_nat n,
        buffer := ring_store (map (\<lambda>j. ?b (Suc i + j)) [0..<n]) (write_cursor (pi s1)) (buffer (pi s1))\<rparr>"
    "\<forall>x. x \<noteq> cur_addr \<longrightarrow> mem s' x = mem s1 x" "procs s' = procs s1" "id_ok s'"
    "cpu_proc (this_cpu s') = cpu_proc (this_cpu s1)" "lock_layer (this_cpu s') = lock_layer (this_cpu s1)"
    by blast
  have "pi s' = (pi s)\<lparr>write_cursor := write_cursor (pi s) + of_nat (Suc n),
      buffer := ring_store (map (\<lambda>j. ?b (i + j)) [0..<Suc n]) (write_cursor (pi s)) (buffer (pi s))\<rparr>"
    unfolding m2 s'(2) 1(2) by (simp add: add.assoc)
  with s' Suc.prems(6) 1 show ?case by (simp del: upt_Suc)
qed

lemma ring_store_length [simp]: "length (ring_store bs w buf) = length buf"
  by (induction bs w buf rule: ring_store.induct) simp_all

text \<open>Slots of the ring: \<open>2 ^ 32\<close> is a multiple of 512, so the wrap of the cursor does not show.\<close>

lemma ring_slot: "unat ((w + of_nat j) mod PIPESIZE :: u32) = (unat w + j) mod 512"
proof -
  have "(unat w + j) mod 2 ^ 32 mod 512 = (unat w + j) mod 512" by (rule mod_mod_cancel) simp
  then show ?thesis by (simp add: PIPESIZE_def unat_mod unat_word_ariths unat_of_nat mod_simps)
qed

lemma ring_slot_1: "unat ((w + 1) mod PIPESIZE :: u32) = (unat w + 1) mod 512"
  using ring_slot [of w 1] by simp

lemma ring_slot_Suc: "(unat (w + 1 :: u32) + j) mod 512 = (unat w + Suc j) mod 512"
proof -
  have "unat (w + 1) mod 512 = (unat w + 1) mod 512"
    using ring_slot_1 [of w] by (simp add: PIPESIZE_def unat_mod)
  then have "(unat (w + 1) + j) mod 512 = ((unat w + 1) mod 512 + j) mod 512" by (metis mod_add_left_eq)
  then show ?thesis by (simp add: mod_add_left_eq)
qed

lemma mod_add_eq_less:
  assumes "(a + i) mod m = (a + j) mod m" "i < (m::nat)" "j < m"
  shows "i = j"
proof -
  have "i \<le> j \<Longrightarrow> i = j" if "(a + i) mod m = (a + j) mod m" "j < m" for i j
    using that mod_eq_dvd_iff_nat [of "a + i" "a + j" m] by (auto dest: dvd_imp_le)
  from this [of i j] this [of j i] assms show ?thesis by (cases "i \<le> j") simp_all
qed

lemma ring_store_other:
  assumes "\<forall>j. 1 \<le> j \<and> j \<le> length bs \<longrightarrow> (unat w + j) mod 512 \<noteq> x"
  shows "ring_store bs w buf ! x = buf ! x"
  using assms
proof (induction bs arbitrary: w buf)
  case (Cons b bs)
  have "\<forall>j. 1 \<le> j \<and> j \<le> length bs \<longrightarrow> (unat (w + 1) + j) mod 512 \<noteq> x"
  proof (intro allI impI)
    fix j
    assume "1 \<le> j \<and> j \<le> length bs"
    then show "(unat (w + 1) + j) mod 512 \<noteq> x" using Cons.prems unfolding ring_slot_Suc by auto
  qed
  with Cons.IH Cons.prems show ?case by (auto simp: ring_slot_1 nth_list_update_neq dest!: spec [of _ 1])
qed simp

lemma ring_store_nth:
  assumes "length buf = 512" "length bs \<le> 512" "j < length bs"
  shows "ring_store bs w buf ! ((unat w + Suc j) mod 512) = bs ! j"
  using assms
proof (induction bs arbitrary: w buf j)
  case (Cons b bs)
  show ?case
  proof (cases j)
    case 0
    have "ring_store bs (w + 1) (buf[(unat w + 1) mod 512 := b]) ! ((unat w + 1) mod 512) = b"
    proof (subst ring_store_other, intro allI impI notI)
      fix i
      assume i: "1 \<le> i \<and> i \<le> length bs" "(unat (w + 1) + i) mod 512 = (unat w + 1) mod 512"
      then have "(unat w + 1 + i) mod 512 = (unat w + 1 + 0) mod 512" by (simp add: ring_slot_Suc)
      from mod_add_eq_less [OF this] i Cons.prems show False by simp
    qed (use Cons.prems in simp)
    then show ?thesis using 0 by (simp add: ring_slot_1)
  next
    case (Suc i)
    have "(unat (w + 1) + Suc i) mod 512 = (unat w + Suc j) mod 512"
      using Suc by (simp only: ring_slot_Suc)
    with Cons.IH [of "buf[unat ((w + 1) mod PIPESIZE) := b]" i "w + 1"] Cons.prems Suc show ?thesis by simp
  qed
qed simp

lemma pipe_write_stores:
  assumes "id_ok s" "cpu_proc (this_cpu s) = Some k" "k < 64" "length (procs s) = 64"
    and "\<forall>p \<in> set (procs s). available (p_lock p) \<noteq> 0" "available (pipe_lock (pi s)) \<noteq> 0" "readable (pi s) \<noteq> 0"
    and "n = nat (sint len)" "n < 512" "length (buffer (pi s)) = 512"
    and "user_bytes (mem s) (pagetable (procs s ! k)) tbl cur_addr addr n"
    and "\<forall>j < n. (write_cursor (pi s) + of_nat j + 1) mod PIPESIZE \<noteq> read_cursor (pi s)"
  shows "\<exists>s'. pipe_write cur_addr rchan wchan resume addr len s = Inr s'
    \<and> buffer (pi s') = ring_store (map (\<lambda>j. mem s (translate (mem s) tbl (addr + of_nat j))) [0..<n]) (write_cursor (pi s)) (buffer (pi s))
    \<and> write_cursor (pi s') = write_cursor (pi s) + of_nat n \<and> read_cursor (pi s') = read_cursor (pi s)
    \<and> available (pipe_lock (pi s')) = 1 \<and> procs s' = procs s
    \<and> lock_layer (this_cpu s') = lock_layer (this_cpu s)"
proof -
  let ?a = "put_pipe_lock ((pipe_lock (pi s))\<lparr>available := 0\<rparr>) (pushed s)"
  let ?bs = "map (\<lambda>j. mem s (translate (mem s) tbl (addr + of_nat j))) [0..<n]"
  have "\<exists>s'. pipe_write_loop cur_addr rchan wchan resume addr n 0 ?a = Inr (True, s')
    \<and> pi s' = (pi ?a)\<lparr>write_cursor := write_cursor (pi ?a) + of_nat n,
        buffer := ring_store (map (\<lambda>j. mem ?a (translate (mem ?a) tbl (addr + of_nat (0 + j)))) [0..<n]) (write_cursor (pi ?a)) (buffer (pi ?a))\<rparr>
    \<and> (\<forall>x. x \<noteq> cur_addr \<longrightarrow> mem s' x = mem ?a x) \<and> procs s' = procs ?a \<and> id_ok s'
    \<and> cpu_proc (this_cpu s') = cpu_proc (this_cpu ?a) \<and> lock_layer (this_cpu s') = lock_layer (this_cpu ?a)"
    by (rule pipe_write_loop_room [where k = k]) (use assms in \<open>simp_all add: put_pipe_lock_def\<close>)
  then obtain s1 where 1: "pipe_write_loop cur_addr rchan wchan resume addr n 0 ?a = Inr (True, s1)"
    "pi s1 = (pi s)\<lparr>pipe_lock := (pipe_lock (pi s))\<lparr>available := 0\<rparr>, write_cursor := write_cursor (pi s) + of_nat n,
        buffer := ring_store ?bs (write_cursor (pi s)) (buffer (pi s))\<rparr>"
    "procs s1 = procs s" "id_ok s1" "lock_layer (this_cpu s1) = lock_layer (this_cpu s) + 1"
    using assms(1) by (auto simp: put_pipe_lock_def)
  from wakeup_ok [of s1 rchan] 1 assms obtain w where w: "wakeup rchan s1 = Inr w" "procs w = procs s"
    "mach.more w = mach.more s1" "id_ok w" "lock_layer (this_cpu w) = lock_layer (this_cpu s) + 1"
    by auto
  have pw: "pi w = pi s1" using w(3) by (rule pi_more)
  have "pipe_write cur_addr rchan wchan resume addr len s =
      Inr (put_pipe_lock ((pipe_lock (pi w))\<lparr>available := 1\<rparr>) (popped w))"
    using assms 1 w by (simp add: pipe_write_def acquire_eq get_pipe_lock_def release_eq)
  then show ?thesis
    using assms w 1 by (simp add: put_pipe_lock_def pw)
qed

text \<open>
  The bytes written and not yet read, by the cursors as they are; they lie in the slots up to that
  of the write cursor. With room for \<open>n\<close> more, the test of the code never finds the pipe full: a
  read cursor below 512 is not met, and one from 512 on is never equal to a slot.
\<close>

definition unread :: "pipe \<Rightarrow> nat" where
  "unread q = unat (write_cursor q - read_cursor q)"

lemma cursor_slots: "(unat (read_cursor q) + (unread q + j)) mod 512 = (unat (write_cursor q) + j) mod 512"
proof -
  have "write_cursor q = read_cursor q + of_nat (unread q)" by (simp add: unread_def)
  then have "unat (write_cursor q) mod 512 = (unat (read_cursor q) + unread q) mod 512"
    using ring_slot [of "read_cursor q" "unread q"] by (simp add: PIPESIZE_def unat_mod)
  then show ?thesis by (metis add.assoc mod_add_left_eq)
qed

lemma room_not_full:
  assumes "unread q + n < 512" "j < n"
  shows "(write_cursor q + of_nat j + 1) mod PIPESIZE \<noteq> read_cursor q"
proof
  assume "(write_cursor q + of_nat j + 1) mod PIPESIZE = read_cursor q"
  then have "unat (read_cursor q) = (unat (write_cursor q) + Suc j) mod 512"
    using ring_slot [of "write_cursor q" "Suc j"] by (simp add: add.assoc add.commute [of 1])
  then have "(unat (read_cursor q) + (unread q + Suc j)) mod 512 = (unat (read_cursor q) + 0) mod 512"
    unfolding cursor_slots by simp
  from mod_add_eq_less [OF this] assms show False by simp
qed

lemma ring_keeps_unread:
  assumes "unread q + length bs < 512" "i \<le> unread q"
  shows "ring_store bs (write_cursor q) buf ! ((unat (read_cursor q) + i) mod 512) = buf ! ((unat (read_cursor q) + i) mod 512)"
proof (rule ring_store_other, intro allI impI notI)
  fix j
  assume j: "1 \<le> j \<and> j \<le> length bs" "(unat (write_cursor q) + j) mod 512 = (unat (read_cursor q) + i) mod 512"
  then have "(unat (read_cursor q) + (unread q + j)) mod 512 = (unat (read_cursor q) + i) mod 512"
    unfolding cursor_slots by simp
  from mod_add_eq_less [OF this] j(1) assms show False by simp
qed

text \<open>
  C20: a write of \<open>n\<close> bytes into a pipe with room for them (fewer than 512 bytes unread and new
  together) returns with the lock free and the process table unchanged; the user's bytes are in
  the ring in order, the first one in the slot after the old write cursor; every slot from the
  read cursor to the old write cursor, so every byte still to be read, is as it was; the write
  cursor has advanced by \<open>n\<close>, and the read cursor is untouched.
\<close>

theorem pipe_write_room:
  assumes "id_ok s" "cpu_proc (this_cpu s) = Some k" "k < 64" "length (procs s) = 64"
    and "\<forall>p \<in> set (procs s). available (p_lock p) \<noteq> 0" "available (pipe_lock (pi s)) \<noteq> 0" "readable (pi s) \<noteq> 0"
    and "n = nat (sint len)" "length (buffer (pi s)) = 512"
    and "user_bytes (mem s) (pagetable (procs s ! k)) tbl cur_addr addr n"
    and "unread (pi s) + n < 512"
  shows "\<exists>s'. pipe_write cur_addr rchan wchan resume addr len s = Inr s'
    \<and> (\<forall>j < n. buffer (pi s') ! ((unat (write_cursor (pi s)) + Suc j) mod 512) = mem s (translate (mem s) tbl (addr + of_nat j)))
    \<and> (\<forall>i \<le> unread (pi s). buffer (pi s') ! ((unat (read_cursor (pi s)) + i) mod 512)
         = buffer (pi s) ! ((unat (read_cursor (pi s)) + i) mod 512))
    \<and> write_cursor (pi s') = write_cursor (pi s) + of_nat n \<and> read_cursor (pi s') = read_cursor (pi s)
    \<and> available (pipe_lock (pi s')) = 1 \<and> procs s' = procs s
    \<and> lock_layer (this_cpu s') = lock_layer (this_cpu s)"
proof -
  have n: "n < 512" "\<forall>j < n. (write_cursor (pi s) + of_nat j + 1) mod PIPESIZE \<noteq> read_cursor (pi s)"
    using assms(11) room_not_full by auto
  from pipe_write_stores [OF assms(1-8) n(1) assms(9,10) n(2), of rchan wchan resume] show ?thesis
    using ring_store_nth [simplified, OF assms(9)] ring_keeps_unread [of "pi s"] assms(11) n(1) by force
qed

text \<open>A machine whose process 0 runs, with one mapped page, and an empty pipe.\<close>

definition empty_pipe :: pipe where
  "empty_pipe = \<lparr>pipe_lock = \<lparr>available = 1\<rparr>, buffer = replicate 512 0, read_cursor = 0, write_cursor = 0,
     writeable = 1, readable = 1\<rparr>"

definition pipe_state :: "mem \<Rightarrow> pipe_mach" where
  "pipe_state m = \<lparr>reg = zero_hart, gpr = zero_context, cpus = replicate 8 (zero_cpu\<lparr>cpu_proc := Some 0\<rparr>),
     procs = replicate 64 (zero_proc\<lparr>p_lock := \<lparr>available = 1\<rparr>, state := RUNNING, pagetable := PHYSTOP\<rparr>),
     mem = m, page_list_keeper = \<lparr>k_lock = \<lparr>available = 1\<rparr>, page_link = 0\<rparr>, pi = empty_pipe\<rparr>"

lemma pipe_state_simps:
  "id_ok (pipe_state m)" "cpu_proc (this_cpu (pipe_state m)) = Some 0" "lock_layer (this_cpu (pipe_state m)) = 0"
  "length (procs (pipe_state m)) = 64" "\<forall>p \<in> set (procs (pipe_state m)). available (p_lock p) \<noteq> 0"
  "pagetable (procs (pipe_state m) ! 0) = PHYSTOP" "mem (pipe_state m) = m" "pi (pipe_state m) = empty_pipe"
  by (simp_all add: pipe_state_def id_ok_def this_cpu_def cpu_id_def zero_hart_def zero_cpu_def)

lemma some_user_byte:
  "\<exists>(s :: kmem) tbl c. user_bytes (mem s) PHYSTOP tbl c 0x3000 1"
proof -
  from some_mapped_spare obtain s :: kmem and tbl x where
    s: "wf_pt (mem s) PHYSTOP tbl" "tbl (va_tables 0x3000) \<noteq> None" "translate (mem s) tbl 0x3000 = 0x80005000"
    and x: "page_aligned x" "x \<notin> ran tbl" by blast
  have x1: "\<not> in_page q (x + 1)" if "q \<in> ran tbl" for q
  proof
    assume "in_page q (x + 1)"
    moreover have "in_page x (x + 1)" by (simp add: in_page_def)
    moreover have "page_aligned q" using s(1) that by (auto simp: ran_def wf_pt_def)
    ultimately show False using in_page_unique [of q x "x + 1"] x that by blast
  qed
  have "unat (x + 1) = unat x + 1"
    using aligned_room [of 4096 x 1] x(1) by (simp add: page_aligned_dvd)
  then have "x + 1 \<noteq> 0x80005000" using x(1) by (auto simp: page_aligned_def)
  then have "user_bytes (mem s) PHYSTOP tbl (x + 1) 0x3000 1" using s x1 by (auto simp: user_bytes_def)
  then show ?thesis by blast
qed

theorem pipe_write_room_witness:
  "\<exists>m tbl cur_addr s'. pipe_write cur_addr 0 8 Inr 0x3000 1 (pipe_state m) = Inr s'
     \<and> buffer (pi s') ! 1 = m (translate m tbl 0x3000) \<and> write_cursor (pi s') = 1"
proof -
  from some_user_byte obtain s :: kmem and tbl c where u: "user_bytes (mem s) PHYSTOP tbl c 0x3000 1" by blast
  let ?s = "pipe_state (mem s)"
  have e: "unread (pi ?s) = 0" "available (pipe_lock (pi ?s)) \<noteq> 0" "readable (pi ?s) \<noteq> 0" "length (buffer (pi ?s)) = 512"
    "write_cursor (pi ?s) = 0" "(1 :: nat) = nat (sint (1 :: i32))"
    by (simp_all add: pipe_state_simps unread_def empty_pipe_def)
  have "\<exists>s'. pipe_write c 0 8 Inr 0x3000 1 ?s = Inr s'
    \<and> (\<forall>j < 1. buffer (pi s') ! ((unat (write_cursor (pi ?s)) + Suc j) mod 512) = mem ?s (translate (mem ?s) tbl (0x3000 + of_nat j)))
    \<and> (\<forall>i \<le> unread (pi ?s). buffer (pi s') ! ((unat (read_cursor (pi ?s)) + i) mod 512)
         = buffer (pi ?s) ! ((unat (read_cursor (pi ?s)) + i) mod 512))
    \<and> write_cursor (pi s') = write_cursor (pi ?s) + of_nat 1 \<and> read_cursor (pi s') = read_cursor (pi ?s)
    \<and> available (pipe_lock (pi s')) = 1 \<and> procs s' = procs ?s
    \<and> lock_layer (this_cpu s') = lock_layer (this_cpu ?s)"
    by (rule pipe_write_room [where k = 0]) (use u e in \<open>simp_all add: pipe_state_simps\<close>)
  then show ?thesis using e(5)
    by (intro exI [of _ "mem s"] exI [of _ tbl] exI [of _ c]) (auto simp: pipe_state_simps)
qed

text \<open>
  The cursors run on without being reduced, but the test for a full pipe compares a slot below
  512 with the read cursor itself. Once the read cursor is 512 or more, a write never finds the pipe
  full: a write of one byte into a pipe with 511 bytes unread, which the comment of the structure
  calls full, returns at once and puts the byte into the slot of the oldest unread one.
\<close>

theorem pipe_write_overruns:
  assumes "id_ok s" "cpu_proc (this_cpu s) = Some k" "k < 64" "length (procs s) = 64"
    and "\<forall>p \<in> set (procs s). available (p_lock p) \<noteq> 0" "available (pipe_lock (pi s)) \<noteq> 0" "readable (pi s) \<noteq> 0"
    and "length (buffer (pi s)) = 512"
    and "user_bytes (mem s) (pagetable (procs s ! k)) tbl cur_addr addr 1"
    and "512 \<le> unat (read_cursor (pi s))" "unread (pi s) = 511"
  shows "\<exists>s'. pipe_write cur_addr rchan wchan resume addr 1 s = Inr s'
    \<and> buffer (pi s') ! (unat (read_cursor (pi s)) mod 512) = mem s (translate (mem s) tbl addr)
    \<and> read_cursor (pi s') = read_cursor (pi s) \<and> write_cursor (pi s') = write_cursor (pi s) + 1
    \<and> available (pipe_lock (pi s')) = 1"
proof -
  have "unat ((write_cursor (pi s) + 1) mod PIPESIZE) < 512" by (simp add: ring_slot_1)
  then have "\<forall>j < 1. (write_cursor (pi s) + of_nat j + 1) mod PIPESIZE \<noteq> read_cursor (pi s)"
    using assms(10) by auto
  moreover have "(1 :: nat) = nat (sint (1 :: i32))" by simp
  moreover have "(unat (write_cursor (pi s)) + 1) mod 512 = unat (read_cursor (pi s)) mod 512"
    using cursor_slots [of "pi s" 1] assms(11) by simp
  ultimately show ?thesis
    using pipe_write_stores [OF assms(1-7) _ _ assms(8,9), of 1 rchan wchan resume] ring_slot_1 [of "write_cursor (pi s)"] assms(8)
    by fastforce
qed

theorem pipe_write_overruns_witness:
  "\<exists>m tbl cur_addr s'. pipe_write cur_addr 0 8 Inr 0x3000 1
       ((pipe_state m)\<lparr>pi := empty_pipe\<lparr>read_cursor := 512, write_cursor := 1023\<rparr>\<rparr>) = Inr s'
     \<and> buffer (pi s') ! 0 = m (translate m tbl 0x3000) \<and> read_cursor (pi s') = 512"
proof -
  from some_user_byte obtain s :: kmem and tbl c where u: "user_bytes (mem s) PHYSTOP tbl c 0x3000 1" by blast
  let ?s = "(pipe_state (mem s))\<lparr>pi := empty_pipe\<lparr>read_cursor := 512, write_cursor := 1023\<rparr>\<rparr>"
  have "\<exists>s'. pipe_write c 0 8 Inr 0x3000 1 ?s = Inr s'
    \<and> buffer (pi s') ! (unat (read_cursor (pi ?s)) mod 512) = mem ?s (translate (mem ?s) tbl 0x3000)
    \<and> read_cursor (pi s') = read_cursor (pi ?s) \<and> write_cursor (pi s') = write_cursor (pi ?s) + 1
    \<and> available (pipe_lock (pi s')) = 1"
    by (rule pipe_write_overruns [where k = 0]) (use u in \<open>simp_all add: pipe_state_simps unread_def empty_pipe_def\<close>)
  then show ?thesis
    by (intro exI [of _ "mem s"] exI [of _ tbl] exI [of _ c]) (auto simp: pipe_state_simps)
qed

text \<open>
  A byte written to a full pipe is lost. The turn of the loop that finds the pipe full sleeps, and
  the loop goes on with the next byte: if the other processes meanwhile only read (they keep
  the ring and the write cursor), a one-byte write that returns has stored nothing.
\<close>

theorem pipe_write_full_loses_byte:
  assumes "pipe_write cur_addr rchan wchan resume addr 1 s = Inr s'" "readable (pi s) \<noteq> 0"
    and "(write_cursor (pi s) + 1) mod PIPESIZE = read_cursor (pi s)"
    and "\<And>u v. resume u = Inr v \<Longrightarrow> buffer (pi v) = buffer (pi u) \<and> write_cursor (pi v) = write_cursor (pi u)"
  shows "buffer (pi s') = buffer (pi s) \<and> write_cursor (pi s') = write_cursor (pi s)"
proof -
  let ?V = "\<lambda>u. buffer (pi u) = buffer (pi s) \<and> write_cursor (pi u) = write_cursor (pi s)"
  from assms(1) obtain l s1 d s2 where 1: "acquire (get_pipe_lock s) s = Inr (l, s1)"
    and 2: "pipe_write_loop cur_addr rchan wchan resume addr (Suc 0) 0 (put_pipe_lock l s1) = Inr (d, s2)"
    and 3: "(if d then then_res (wakeup rchan s2) (\<lambda>s. then_res (release (get_pipe_lock s) s) (\<lambda>(l, s). Inr (put_pipe_lock l s))) else Inr s2) = Inr s'"
    by (auto simp: pipe_write_def res_simps)
  have p1: "pi (put_pipe_lock l s1) = (pi s)\<lparr>pipe_lock := l\<rparr>"
    using pi_more [OF more_acquire [OF 1]] by (simp add: put_pipe_lock_def)
  from 2 assms(2,3) obtain w where w: "wakeup rchan (put_pipe_lock l s1) = Inr w" and d: "d"
    and s: "sleep get_pipe_lock put_pipe_lock wchan resume w = Inr s2"
    by (auto simp: p1 pipe_write_byte_def res_simps)
  have "?V w" using pi_more [OF more_wakeup [OF w]] p1 by simp
  from s this have V2: "?V s2"
    by (rule pipe.sleep_keeps) (use assms(4) in \<open>simp_all add: put_pipe_lock_def cong: pi_more\<close>)
  from 3 d obtain t l' u where t: "wakeup rchan s2 = Inr t" "release (get_pipe_lock t) t = Inr (l', u)" "s' = put_pipe_lock l' u"
    by (auto simp: res_simps)
  from V2 show ?thesis
    using pi_more [OF more_wakeup [OF t(1)]] pi_more [OF more_release [OF t(2)]] by (simp add: t(3) put_pipe_lock_def)
qed

text \<open>A full pipe whose writer already holds another lock.\<close>

definition full_state :: pipe_mach where
  "full_state = (pipe_state (\<lambda>_. 0))\<lparr>cpus := replicate 8 (zero_cpu\<lparr>cpu_proc := Some 0, lock_layer := 1\<rparr>),
     pi := empty_pipe\<lparr>read_cursor := 1\<rparr>\<rparr>"

lemma full_state_simps:
  "hart_ok full_state" "cpu_proc (this_cpu full_state) = Some 0" "lock_layer (this_cpu full_state) = 1"
  "length (procs full_state) = 64" "\<forall>p \<in> set (procs full_state). available (p_lock p) \<noteq> 0"
  "pi full_state = empty_pipe\<lparr>read_cursor := 1\<rparr>"
  by (simp_all add: full_state_def pipe_state_def hart_ok_def id_ok_def this_cpu_def cpu_id_def zero_hart_def zero_cpu_def)

lemma full_state_returns: "\<exists>s'. pipe_write a r w Inr addr 1 full_state = Inr s'"
proof -
  have id: "id_ok full_state" by (rule hart_ok_id_ok) (rule full_state_simps)
  let ?a = "put_pipe_lock ((pipe_lock (pi full_state))\<lparr>available := 0\<rparr>) (pushed full_state)"
  have a: "procs ?a = procs full_state" "id_ok ?a" "lock_layer (this_cpu ?a) = 2" "cpu_proc (this_cpu ?a) = Some 0" "hart_ok ?a"
    using id full_state_simps(1)
    by (simp_all add: put_pipe_lock_def full_state_simps hart_ok_def cpu_id_def)
  from wakeup_ok [of ?a r] a full_state_simps obtain t where t: "wakeup r ?a = Inr t" "procs t = procs full_state"
    "id_ok t" "lock_layer (this_cpu t) = 2" "mach.more t = mach.more ?a"
    by auto
  have t2: "hart_ok t \<and> cpu_proc (this_cpu t) = Some 0"
    using wakeup_keeps_cpu [OF t(1) a(2)] a by simp
  have p0: "proc_at 0 t \<in> set (procs full_state)" using t(2) full_state_simps(4) by (simp add: proc_at_def)
  from pipe.sleep_nested [of t 0 w Inr] t t2 full_state_simps(4,5) p0 obtain u where
    u: "sleep get_pipe_lock put_pipe_lock w Inr t = Inr u" "available (p_lock (proc_at 0 u)) = 1"
      "\<forall>j. j \<noteq> 0 \<longrightarrow> proc_at j u = proc_at j t" "hart_ok u" "length (procs u) = 64"
    by auto
  have "\<forall>p \<in> set (procs u). available (p_lock p) \<noteq> 0"
  proof
    fix p
    assume "p \<in> set (procs u)"
    then obtain j where j: "j < 64" "p = proc_at j u" by (metis in_set_conv_nth proc_at_def u(5))
    show "available (p_lock p) \<noteq> 0"
    proof (cases "j = 0")
      case False
      then have "p = procs full_state ! j" using u(3) j t(2) by (simp add: proc_at_def)
      then show ?thesis using full_state_simps(4,5) j by simp
    qed (use u(2) j in simp)
  qed
  with wakeup_ok [of u r] u hart_ok_id_ok [OF u(4)] obtain x where x: "wakeup r u = Inr x" "id_ok x" by auto
  have "pipe_write_loop a r w Inr addr 1 0 ?a = Inr (True, u)"
    using t u by (simp add: pipe_write_byte_def put_pipe_lock_def full_state_simps empty_pipe_def PIPESIZE_def)
  moreover have "acquire (get_pipe_lock full_state) full_state = Inr ((pipe_lock (pi full_state))\<lparr>available := 0\<rparr>, pushed full_state)"
    using id by (simp add: acquire_eq get_pipe_lock_def full_state_simps empty_pipe_def)
  ultimately have "pipe_write a r w Inr addr 1 full_state =
      Inr (put_pipe_lock ((get_pipe_lock x)\<lparr>available := 1\<rparr>) (popped x))"
    using x by (simp add: pipe_write_def release_eq)
  then show ?thesis by blast
qed

theorem pipe_write_full_loses_byte_witness:
  "\<exists>s'. pipe_write 0x100 0 8 Inr 0x3000 1 full_state = Inr s'
     \<and> buffer (pi s') = replicate 512 0 \<and> write_cursor (pi s') = 0"
proof -
  from full_state_returns obtain s' where s': "pipe_write 0x100 0 8 Inr 0x3000 1 full_state = Inr s'" by blast
  from pipe_write_full_loses_byte [OF s'] have "buffer (pi s') = buffer (pi full_state) \<and> write_cursor (pi s') = write_cursor (pi full_state)"
    by (auto simp: full_state_simps empty_pipe_def PIPESIZE_def)
  with s' show ?thesis by (simp add: full_state_simps empty_pipe_def)
qed

section \<open>The reader\<close>

lemma char_in_null_page: "null_page (ucast (c :: u8))"
proof -
  have "unat c < 2 ^ 8" using unsigned_less [of c, where ?'a = nat] by simp
  then show ?thesis by (simp add: null_page_def unsigned_ucast_eq take_bit_nat_eq_self)
qed

lemma pipe_read_loop_faults:
  assumes "read_cursor (pi s) \<noteq> write_cursor (pi s)" "0 < n" "case p of None \<Rightarrow> True | Some k \<Rightarrow> k < length (procs s)"
  shows "pipe_read_loop p target n i s = Inl NullDeref"
  using assms char_in_null_page by (cases n) (simp_all add: Let_def split: option.splits)

lemma pipe_read_loop_empty:
  "read_cursor (pi s) = write_cursor (pi s) \<or> n = 0 \<Longrightarrow> pipe_read_loop p target n i s = Inr s"
  by (cases n) auto

text \<open>
  C37: \<open>pipe_read\<close> never delivers a byte. With a byte in the pipe and a positive length it follows the
  first character as if it were an address, and faults; otherwise, when it need not wait, it
  returns with the pipe, the memory and the process table as they were, the lock free, and the
  value of an uninitialised variable as the count.
\<close>

theorem pipe_read_delivers_nothing:
  assumes "id_ok s" "cpu_proc (this_cpu s) = Some k" "k < 64" "length (procs s) = 64"
    and "\<forall>p \<in> set (procs s). available (p_lock p) \<noteq> 0" "available (pipe_lock (pi s)) \<noteq> 0"
    and "read_cursor (pi s) \<noteq> write_cursor (pi s) \<or> writeable (pi s) = 0"
  shows "if read_cursor (pi s) \<noteq> write_cursor (pi s) \<and> 0 < sint len
    then pipe_read rchan wchan resume junk target len s = Inl NullDeref
    else \<exists>s'. pipe_read rchan wchan resume junk target len s = Inr (junk, s')
      \<and> pi s' = (pi s)\<lparr>pipe_lock := \<lparr>available = 1\<rparr>\<rparr> \<and> mem s' = mem s \<and> procs s' = procs s"
proof -
  let ?a = "put_pipe_lock ((pipe_lock (pi s))\<lparr>available := 0\<rparr>) (pushed (cycled s))"
  have a: "procs ?a = procs s" "mem ?a = mem s" "pi ?a = (pi s)\<lparr>pipe_lock := (pipe_lock (pi s))\<lparr>available := 0\<rparr>\<rparr>" "id_ok ?a"
    using assms(1) by (simp_all add: put_pipe_lock_def)
  have r: "pipe_read rchan wchan resume junk target len s =
      then_res (pipe_read_loop (Some k) target (nat (sint len)) 0 ?a) (\<lambda>s.
      then_res (wakeup wchan s) (\<lambda>s.
      then_res (release (get_pipe_lock s) s) (\<lambda>(l, s). Inr (junk, put_pipe_lock l s))))"
    using assms(1,2,6,7) a(3) by (auto simp: pipe_read_def cur_proc_eq acquire_eq get_pipe_lock_def)
  show ?thesis
  proof (cases "read_cursor (pi s) \<noteq> write_cursor (pi s) \<and> 0 < sint len")
    case True
    then show ?thesis using r pipe_read_loop_faults [of ?a "nat (sint len)" "Some k" target 0] a assms(3,4) by simp
  next
    case False
    then have "pipe_read_loop (Some k) target (nat (sint len)) 0 ?a = Inr ?a"
      using a(3) by (intro pipe_read_loop_empty) auto
    moreover from wakeup_ok [of ?a wchan] a assms(4,5) obtain w where w: "wakeup wchan ?a = Inr w" "procs w = procs s"
      "mach.more w = mach.more ?a" "id_ok w"
      by auto
    moreover have pw: "pi w = pi ?a" "mem w = mem s" using pi_more [OF w(3)] mem_more [OF w(3)] a(2) by simp_all
    ultimately have "pipe_read rchan wchan resume junk target len s =
        Inr (junk, put_pipe_lock ((pipe_lock (pi w))\<lparr>available := 1\<rparr>) (popped w))"
      using r by (simp add: release_eq get_pipe_lock_def)
    then show ?thesis using False w(2) pw a(3) by (auto simp: put_pipe_lock_def spinlock_set)
  qed
qed

theorem pipe_read_delivers_nothing_witness:
  "pipe_read 0 8 Inr 77 0x3000 2 ((pipe_state (\<lambda>_. 0))\<lparr>pi := empty_pipe\<lparr>write_cursor := 2\<rparr>\<rparr>) = Inl NullDeref"
  using pipe_read_delivers_nothing [where s = "(pipe_state (\<lambda>_. 0))\<lparr>pi := empty_pipe\<lparr>write_cursor := 2\<rparr>\<rparr>" and k = 0 and len = 2
      and rchan = 0 and wchan = 8 and resume = Inr and junk = 77 and target = "0x3000"]
  by (simp add: pipe_state_simps empty_pipe_def)

end
