(* ===== verification/Mkfs_Disk.thy ===== *)
theory Mkfs_Disk
  imports Prelude
begin

text \<open>
  The lower half of \<open>mkfs/mkfs.c\<close>: byte order, sectors, inodes on disk, the free bitmap.

  The image file is its list of bytes; a \<open>write\<close> past the end fills the gap with zeros, a
  \<open>read\<close> past the end comes up short, and \<open>die\<close> ends the program with its message. The host is
  little endian.

  \<open>kernel/param.h\<close>, \<open>kernel/stat.h\<close> and the disk half of \<open>kernel/fs.h\<close> are not in the repository.
  Their macros, and the storage layout of \<open>struct dinode\<close>, \<open>struct dirent\<close> and \<open>struct
  superblock\<close>, are the fields of the record \<open>fsparam\<close>, an argument of every definition;
  \<open>layout_ok\<close> collects what the program relies on: a structure read back from the bytes it was
  stored in is the same structure, the structures of a block do not overlap, and the inode blocks
  lie before the data blocks. Three more fields say when the host's \<open>lseek\<close>, \<open>write\<close> and \<open>read\<close> on the
  image succeed, for the image as it is and an offset; where one of them fails the program dies as
  the source has it. \<open>host_ok\<close> says that they never fail, and \<open>img_ok\<close> includes it.
\<close>

section \<open>Data\<close>

record superblock =
  sb_magic :: u32
  sb_size :: u32
  sb_nblocks :: u32
  sb_ninodes :: u32
  sb_nlog :: u32
  sb_logstart :: u32
  sb_inodestart :: u32
  sb_bmapstart :: u32

record dinode =
  d_type :: u16
  d_nlink :: u16
  d_size :: u32
  d_addrs :: "u32 list"

record fsparam =
  BSIZE :: nat
  FSSIZE :: nat
  LOGSIZE :: nat
  IPB :: nat
  NDIRECT :: nat
  NINDIRECT :: nat
  MAXFILE :: nat
  DIRSIZ :: nat
  FSMAGIC :: u32
  ROOTINO :: u32
  T_DIR :: u16
  T_FILE :: u16
  IBLOCK :: "u32 \<Rightarrow> superblock \<Rightarrow> u32"
  sizeof_dinode :: nat
  dinode_bytes :: "dinode \<Rightarrow> u8 list"
  dinode_of :: "u8 list \<Rightarrow> dinode"
  sizeof_dirent :: nat
  dirent_bytes :: "u16 \<Rightarrow> string \<Rightarrow> u8 list"
  sb_bytes :: "superblock \<Rightarrow> u8 list"
  seek_ok :: "u8 list \<Rightarrow> nat \<Rightarrow> bool"
  write_ok :: "u8 list \<Rightarrow> nat \<Rightarrow> bool"
  read_ok :: "u8 list \<Rightarrow> nat \<Rightarrow> bool"

record mkfs =
  img :: "u8 list"
  sb :: superblock
  freeinode :: u32
  freeblock :: u32

section \<open>Byte order\<close>

definition xshort :: "u16 \<Rightarrow> u16" where
  "xshort x =
     (let a0 = ucast x :: u8; a1 = ucast (drop_bit 8 x) :: u8
      in ucast a0 OR push_bit 8 (ucast a1))"

definition xint :: "u32 \<Rightarrow> u32" where
  "xint x =
     (let a0 = ucast x :: u8; a1 = ucast (drop_bit 8 x) :: u8;
          a2 = ucast (drop_bit 16 x) :: u8; a3 = ucast (drop_bit 24 x) :: u8
      in ucast a0 OR push_bit 8 (ucast a1) OR push_bit 16 (ucast a2) OR push_bit 24 (ucast a3))"

text \<open>A 32-bit word in memory: its four bytes, and back.\<close>

definition word_bytes :: "u32 \<Rightarrow> u8 list" where
  "word_bytes v = [ucast v, ucast (drop_bit 8 v), ucast (drop_bit 16 v), ucast (drop_bit 24 v)]"

definition bytes_word :: "u8 list \<Rightarrow> u32" where
  "bytes_word b = ucast (b ! 0) OR push_bit 8 (ucast (b ! 1)) OR push_bit 16 (ucast (b ! 2)) OR push_bit 24 (ucast (b ! 3))"

section \<open>Sectors\<close>

text \<open>Overwriting part of a buffer, and writing at an offset of a file.\<close>

definition overlay :: "nat \<Rightarrow> 'a list \<Rightarrow> 'a list \<Rightarrow> 'a list" where
  "overlay off xs buf = take off buf @ xs @ drop (off + length xs) buf"

definition write_at :: "nat \<Rightarrow> u8 list \<Rightarrow> u8 list \<Rightarrow> u8 list" where
  "write_at off xs f = overlay off xs (f @ replicate (off - length f) 0)"

text \<open>\<open>sec * BSIZE\<close> is a product of unsigned 32-bit values.\<close>

definition sector_offset :: "fsparam \<Rightarrow> u32 \<Rightarrow> nat" where
  "sector_offset P sec = unat (sec * of_nat (BSIZE P))"

definition wsect :: "fsparam \<Rightarrow> u32 \<Rightarrow> u8 list \<Rightarrow> mkfs \<Rightarrow> mkfs res" where
  "wsect P sec buf s =
     (let off = sector_offset P sec
      in if \<not> seek_ok P (img s) off then Inl (Panic ''lseek'')
         else if \<not> write_ok P (img s) off then Inl (Panic ''write'')
         else Inr (s\<lparr>img := write_at off buf (img s)\<rparr>))"

definition rsect :: "fsparam \<Rightarrow> u32 \<Rightarrow> mkfs \<Rightarrow> u8 list res" where
  "rsect P sec s =
     (let off = sector_offset P sec; buf = take (BSIZE P) (drop off (img s))
      in if \<not> seek_ok P (img s) off then Inl (Panic ''lseek'')
         else if \<not> read_ok P (img s) off \<or> length buf \<noteq> BSIZE P then Inl (Panic ''read'')
         else Inr buf)"

section \<open>Inodes\<close>

definition inode_offset :: "fsparam \<Rightarrow> u32 \<Rightarrow> nat" where
  "inode_offset P inum = (unat inum mod IPB P) * sizeof_dinode P"

definition winode :: "fsparam \<Rightarrow> u32 \<Rightarrow> dinode \<Rightarrow> mkfs \<Rightarrow> mkfs res" where
  "winode P inum ip s =
     (let bn = IBLOCK P inum (sb s)
      in then_res (rsect P bn s) (\<lambda>buf.
           wsect P bn (overlay (inode_offset P inum) (dinode_bytes P ip) buf) s))"

definition rinode :: "fsparam \<Rightarrow> u32 \<Rightarrow> mkfs \<Rightarrow> dinode res" where
  "rinode P inum s =
     (let bn = IBLOCK P inum (sb s)
      in then_res (rsect P bn s) (\<lambda>buf.
           Inr (dinode_of P (take (sizeof_dinode P) (drop (inode_offset P inum) buf)))))"

definition ialloc :: "fsparam \<Rightarrow> u16 \<Rightarrow> mkfs \<Rightarrow> (u32 \<times> mkfs) res" where
  "ialloc P type s =
     (let inum = freeinode s;
          s = s\<lparr>freeinode := freeinode s + 1\<rparr>;
          din = \<lparr>d_type = xshort type, d_nlink = xshort 1, d_size = xint 0, d_addrs = replicate (NDIRECT P + 1) 0\<rparr>
      in then_res (winode P inum din s) (\<lambda>s. Inr (inum, s)))"

section \<open>The free bitmap\<close>

fun balloc_loop :: "nat \<Rightarrow> nat \<Rightarrow> u8 list \<Rightarrow> u8 list" where
  "balloc_loop 0 i buf = buf"
| "balloc_loop (Suc n) i buf =
     balloc_loop n (Suc i) (buf[i div 8 := buf ! (i div 8) OR push_bit (i mod 8) 1])"

definition balloc :: "fsparam \<Rightarrow> i32 \<Rightarrow> mkfs \<Rightarrow> mkfs res" where
  "balloc P used s =
     (if sint used < int (BSIZE P * 8)
      then wsect P (sb_bmapstart (sb s)) (balloc_loop (nat (sint used)) 0 (replicate (BSIZE P) 0)) s
      else Inl (Panic ''used < BSIZE*8''))"

section \<open>Byte order is the identity\<close>

lemma bytes_word_bytes [simp]: "bytes_word (word_bytes v) = v"
proof (rule bit_word_eqI)
  fix n :: nat
  assume "n < LENGTH(32)"
  then consider "n < 8" | "8 \<le> n" "n < 16" | "16 \<le> n" "n < 24" | "24 \<le> n" "n < 32" by fastforce
  then show "bit (bytes_word (word_bytes v)) n = bit v n"
    by cases (auto simp: bytes_word_def word_bytes_def bit_simps)
qed

lemma length_word_bytes [simp]: "length (word_bytes v) = 4"
  by (simp add: word_bytes_def)

lemma xint_id [simp]: "xint x = x"
  using bytes_word_bytes [of x] by (simp add: xint_def word_bytes_def bytes_word_def Let_def)

lemma xshort_id [simp]: "xshort x = x"
proof (rule bit_word_eqI)
  fix n :: nat
  assume "n < LENGTH(16)"
  then consider "n < 8" | "8 \<le> n" "n < 16" by fastforce
  then show "bit (xshort x) n = bit x n" by cases (auto simp: xshort_def bit_simps Let_def)
qed

text \<open>
  On a little-endian host the byte-order conversions of the on-disk format are the identity.
\<close>

theorem byte_order_identity: "xint x = x \<and> xshort y = y"
  by simp

section \<open>Overwriting\<close>

lemma length_overlay [simp]: "off + length xs \<le> length buf \<Longrightarrow> length (overlay off xs buf) = length buf"
  by (simp add: overlay_def)

lemma nth_overlay:
  assumes "off + length xs \<le> length buf" "i < length buf"
  shows "overlay off xs buf ! i = (if off \<le> i \<and> i < off + length xs then xs ! (i - off) else buf ! i)"
  using assms by (auto simp: overlay_def nth_append min_def)

lemma slice_overlay_same: "off + length xs \<le> length buf \<Longrightarrow> take (length xs) (drop off (overlay off xs buf)) = xs"
  by (simp add: overlay_def)

lemma slice_overlay_other:
  assumes "off + length xs \<le> length buf" "j + n \<le> off \<or> off + length xs \<le> j"
  shows "take n (drop j (overlay off xs buf)) = take n (drop j buf)"
  using assms by (intro nth_equalityI) (auto simp: nth_overlay)

lemma slots_disjoint:
  assumes "(a :: nat) \<noteq> b"
  shows "a * n + n \<le> b * n \<or> b * n + n \<le> a * n"
proof -
  have "c * n + n \<le> d * n" if "c < d" for c d
    using mult_le_mono1 [of "Suc c" d n] that by (simp add: add.commute)
  then show ?thesis using assms by (metis linorder_neqE_nat)
qed

section \<open>Sectors\<close>

text \<open>
  The contents of the sectors, as a function; it is what reads and writes are about. An image that
  can be worked on is complete, fits the 32-bit offsets, and is on a host that does not fail.
\<close>

definition sect :: "fsparam \<Rightarrow> mkfs \<Rightarrow> nat \<Rightarrow> u8 list" where
  "sect P s k = take (BSIZE P) (drop (k * BSIZE P) (img s))"

definition host_ok :: "fsparam \<Rightarrow> bool" where
  "host_ok P \<longleftrightarrow> (\<forall>f off. seek_ok P f off \<and> write_ok P f off \<and> read_ok P f off)"

definition img_ok :: "fsparam \<Rightarrow> mkfs \<Rightarrow> bool" where
  "img_ok P s \<longleftrightarrow> host_ok P \<and> length (img s) = FSSIZE P * BSIZE P \<and> FSSIZE P * BSIZE P < 2 ^ 32"

lemma sector_room: "k < FSSIZE P \<Longrightarrow> k * BSIZE P + BSIZE P \<le> FSSIZE P * BSIZE P"
  using mult_le_mono1 [of "Suc k" "FSSIZE P" "BSIZE P"] by (simp add: add.commute)

lemma length_sect: "img_ok P s \<Longrightarrow> k < FSSIZE P \<Longrightarrow> length (sect P s k) = BSIZE P"
  using sector_room [of k P] by (simp add: sect_def img_ok_def)

lemma sector_offset_eq:
  assumes "FSSIZE P * BSIZE P < 2 ^ 32" "unat k < FSSIZE P"
  shows "sector_offset P k = unat k * BSIZE P"
proof (cases "BSIZE P = 0")
  case False
  have "unat k * BSIZE P < 2 ^ 32" using sector_room [OF assms(2)] assms(1) by linarith
  moreover have "BSIZE P < 2 ^ 32"
    using assms le_less_trans [of "BSIZE P" "FSSIZE P * BSIZE P"] by (cases "FSSIZE P") auto
  ultimately show ?thesis by (simp add: sector_offset_def unat_word_ariths unat_of_nat)
qed (simp add: sector_offset_def)

lemma rsect_ok: "img_ok P s \<Longrightarrow> unat k < FSSIZE P \<Longrightarrow> rsect P k s = Inr (sect P s (unat k))"
  using length_sect [of P s "unat k"] by (simp add: rsect_def sector_offset_eq img_ok_def host_ok_def sect_def Let_def)

lemma wsect_ok:
  assumes "img_ok P s" "unat k < FSSIZE P" "length buf = BSIZE P"
  shows "\<exists>s'. wsect P k buf s = Inr s' \<and> img_ok P s' \<and> sect P s' = (sect P s)(unat k := buf)
    \<and> sb s' = sb s \<and> freeinode s' = freeinode s \<and> freeblock s' = freeblock s"
proof -
  let ?o = "unat k * BSIZE P" and ?s = "s\<lparr>img := overlay (unat k * BSIZE P) buf (img s)\<rparr>"
  have o: "?o + BSIZE P \<le> length (img s)" using sector_room [OF assms(2)] assms(1) by (simp add: img_ok_def)
  have "wsect P k buf s = Inr ?s"
    using o assms by (simp add: wsect_def write_at_def sector_offset_eq img_ok_def host_ok_def Let_def)
  moreover have "sect P ?s j = ((sect P s)(unat k := buf)) j" for j
  proof (cases "j = unat k")
    case True
    then show ?thesis using o assms(3) slice_overlay_same [of ?o buf "img s"] by (simp add: sect_def)
  next
    case False
    then have "j * BSIZE P + BSIZE P \<le> ?o \<or> ?o + BSIZE P \<le> j * BSIZE P" by (rule slots_disjoint)
    then show ?thesis
      using False o assms(3) slice_overlay_other [of ?o buf "img s" "j * BSIZE P" "BSIZE P"] by (simp add: sect_def)
  qed
  ultimately show ?thesis using assms o by (auto simp: img_ok_def)
qed

text \<open>What the users of the sectors rely on, and a read-modify-write of one sector.\<close>

locale block_device =
  fixes rd :: "u32 \<Rightarrow> 's \<Rightarrow> u8 list res" and wr :: "u32 \<Rightarrow> u8 list \<Rightarrow> 's \<Rightarrow> 's res"
    and ok :: "'s \<Rightarrow> bool" and view :: "'s \<Rightarrow> nat \<Rightarrow> u8 list" and rest :: "'s \<Rightarrow> 'r"
    and blocks bsize :: nat
  assumes rd: "ok s \<Longrightarrow> unat k < blocks \<Longrightarrow> rd k s = Inr (view s (unat k)) \<and> length (view s (unat k)) = bsize"
    and wr: "ok s \<Longrightarrow> unat k < blocks \<Longrightarrow> length buf = bsize \<Longrightarrow>
      \<exists>s'. wr k buf s = Inr s' \<and> ok s' \<and> view s' = (view s)(unat k := buf) \<and> rest s' = rest s"
begin

lemma update:
  assumes "ok s" "unat k < blocks" "off + length xs \<le> bsize"
  shows "\<exists>s'. then_res (rd k s) (\<lambda>buf. wr k (overlay off xs buf) s) = Inr s' \<and> ok s'
    \<and> view s' = (view s)(unat k := overlay off xs (view s (unat k))) \<and> rest s' = rest s"
  using rd [OF assms(1,2)] wr [OF assms(1,2), of "overlay off xs (view s (unat k))"] assms(3) by simp

lemma write_read:
  assumes "ok s" "unat k < blocks" "length buf = bsize"
  shows "\<exists>s'. wr k buf s = Inr s' \<and> (\<forall>j. unat j < blocks \<longrightarrow> rd j s' = Inr (if j = k then buf else view s (unat j)))"
proof -
  from wr [OF assms] obtain s' where "wr k buf s = Inr s'" "ok s'" "view s' = (view s)(unat k := buf)" by blast
  then show ?thesis using rd [of s'] by (auto simp: word_unat_eq_iff)
qed

end

interpretation sec: block_device "rsect P" "wsect P" "img_ok P" "sect P" "\<lambda>s. (sb s, freeinode s, freeblock s)" "FSSIZE P" "BSIZE P"
  for P
proof
  fix s and k :: u32
  assume "img_ok P s" "unat k < FSSIZE P"
  then show "rsect P k s = Inr (sect P s (unat k)) \<and> length (sect P s (unat k)) = BSIZE P"
    by (simp add: rsect_ok length_sect)
next
  fix s and k :: u32 and buf :: "u8 list"
  assume "img_ok P s" "unat k < FSSIZE P" "length buf = BSIZE P"
  from wsect_ok [OF this] show "\<exists>s'. wsect P k buf s = Inr s' \<and> img_ok P s' \<and> sect P s' = (sect P s)(unat k := buf)
      \<and> (sb s', freeinode s', freeblock s') = (sb s, freeinode s, freeblock s)"
    by simp
qed

section \<open>Inodes\<close>

text \<open>
  What the program relies on in the headers it includes, with \<open>nm\<close> the number of the first data
  block: structures that fit and read back, an indirect block that is one block, files below
  \<open>2 ^ 31\<close> bytes, and the inodes 0 to 199 in distinct slots of blocks below \<open>nm\<close>.
\<close>

definition NINODES :: nat where
  "NINODES = 200"

definition layout_ok :: "fsparam \<Rightarrow> superblock \<Rightarrow> nat \<Rightarrow> bool" where
  "layout_ok P b nm \<longleftrightarrow> 0 < BSIZE P \<and> 0 < IPB P \<and> IPB P * sizeof_dinode P \<le> BSIZE P
     \<and> (\<forall>d. length (d_addrs d) = NDIRECT P + 1 \<longrightarrow>
          length (dinode_bytes P d) = sizeof_dinode P \<and> dinode_of P (dinode_bytes P d) = d)
     \<and> NINDIRECT P * 4 = BSIZE P \<and> MAXFILE P = NDIRECT P + NINDIRECT P \<and> MAXFILE P * BSIZE P < 2 ^ 31
     \<and> 0 < nm \<and> nm \<le> FSSIZE P \<and> FSSIZE P * BSIZE P < 2 ^ 32
     \<and> (\<forall>i. unat i < NINODES \<longrightarrow> unat (IBLOCK P i b) < nm)
     \<and> (\<forall>i j. unat i < NINODES \<longrightarrow> unat j < NINODES \<longrightarrow> IBLOCK P i b = IBLOCK P j b \<longrightarrow>
          unat i mod IPB P = unat j mod IPB P \<longrightarrow> i = j)"

definition inode_at :: "fsparam \<Rightarrow> mkfs \<Rightarrow> u32 \<Rightarrow> dinode" where
  "inode_at P s i = dinode_of P (take (sizeof_dinode P) (drop (inode_offset P i) (sect P s (unat (IBLOCK P i (sb s))))))"

text \<open>Metadata blocks that hold no inode (superblock, log, bitmap) are as they were.\<close>

definition other_meta :: "fsparam \<Rightarrow> nat \<Rightarrow> mkfs \<Rightarrow> mkfs \<Rightarrow> bool" where
  "other_meta P nm s s' \<longleftrightarrow>
     (\<forall>k < nm. (\<forall>i. unat i < NINODES \<longrightarrow> unat (IBLOCK P i (sb s)) \<noteq> k) \<longrightarrow> sect P s' k = sect P s k)"

lemma other_meta_trans: "other_meta P nm s s1 \<Longrightarrow> other_meta P nm s1 s2 \<Longrightarrow> sb s1 = sb s \<Longrightarrow> other_meta P nm s s2"
  by (simp add: other_meta_def)

lemma inode_fits: "layout_ok P b nm \<Longrightarrow> inode_offset P i + sizeof_dinode P \<le> BSIZE P"
proof -
  assume l: "layout_ok P b nm"
  then have "Suc (unat i mod IPB P) \<le> IPB P" by (simp add: layout_ok_def Suc_leI)
  from mult_le_mono1 [OF this, of "sizeof_dinode P"] l show ?thesis
    by (simp add: layout_ok_def inode_offset_def)
qed

lemma inode_block_less:
  "layout_ok P b nm \<Longrightarrow> unat i < NINODES \<Longrightarrow> unat (IBLOCK P i b) < FSSIZE P"
  by (auto simp: layout_ok_def intro: less_le_trans)

lemma rinode_ok:
  assumes "layout_ok P (sb s) nm" "img_ok P s" "unat i < NINODES"
  shows "rinode P i s = Inr (inode_at P s i)"
  using rsect_ok [OF assms(2) inode_block_less [OF assms(1,3)]] by (simp add: rinode_def inode_at_def)

lemma winode_ok:
  assumes "layout_ok P (sb s) nm" "img_ok P s" "unat i < NINODES" "length (d_addrs d) = NDIRECT P + 1"
  shows "\<exists>s'. winode P i d s = Inr s' \<and> img_ok P s' \<and> sb s' = sb s \<and> freeinode s' = freeinode s \<and> freeblock s' = freeblock s
    \<and> (\<forall>j. unat j < NINODES \<longrightarrow> inode_at P s' j = (if j = i then d else inode_at P s j))
    \<and> (\<forall>k \<ge> nm. sect P s' k = sect P s k) \<and> other_meta P nm s s'"
proof -
  let ?b = "IBLOCK P i (sb s)" and ?o = "inode_offset P i" and ?n = "sizeof_dinode P"
  have len: "length (dinode_bytes P d) = ?n" "dinode_of P (dinode_bytes P d) = d"
    using assms(1,4) by (simp_all add: layout_ok_def)
  have bn: "unat ?b < nm" using assms(1,3) by (simp add: layout_ok_def)
  note fits = inode_fits [OF assms(1)]
  note b = inode_block_less [OF assms(1,3)]
  from sec.update [OF assms(2) b, of ?o "dinode_bytes P d"] fits [of i] len obtain s' where
    s': "winode P i d s = Inr s'" "img_ok P s'" "sb s' = sb s" "freeinode s' = freeinode s" "freeblock s' = freeblock s"
      "sect P s' = (sect P s)(unat ?b := overlay ?o (dinode_bytes P d) (sect P s (unat ?b)))"
    by (auto simp: winode_def)
  have ls: "length (sect P s (unat ?b)) = BSIZE P" by (rule length_sect [OF assms(2) b])
  have "inode_at P s' j = (if j = i then d else inode_at P s j)" if j: "unat j < NINODES" for j
  proof (cases "IBLOCK P j (sb s) = ?b \<and> j \<noteq> i")
    case True
    then have "unat j mod IPB P \<noteq> unat i mod IPB P" using assms(1,3) j by (auto simp: layout_ok_def)
    from slots_disjoint [OF this, of ?n] have "inode_offset P j + ?n \<le> ?o \<or> ?o + ?n \<le> inode_offset P j"
      by (simp add: inode_offset_def)
    with True show ?thesis
      using slice_overlay_other [of ?o "dinode_bytes P d" "sect P s (unat ?b)" "inode_offset P j" ?n] fits [of i] ls len
      by (simp add: inode_at_def s'(3,6))
  next
    case False
    have "take ?n (drop ?o (overlay ?o (dinode_bytes P d) (sect P s (unat ?b)))) = dinode_bytes P d"
      using slice_overlay_same [of ?o "dinode_bytes P d" "sect P s (unat ?b)"] fits [of i] ls len by simp
    moreover have "unat (IBLOCK P j (sb s)) = unat ?b \<longleftrightarrow> IBLOCK P j (sb s) = ?b" by (simp add: word_unat_eq_iff)
    ultimately show ?thesis using False len by (auto simp: inode_at_def s'(3,6))
  qed
  moreover have "other_meta P nm s s'" using assms(3) by (auto simp: other_meta_def s'(6))
  ultimately show ?thesis using s' bn by auto
qed

text \<open>
  C21: an inode written with \<open>winode\<close> reads back with \<open>rinode\<close>, and every other inode reads as before,
  also those that share its block; the data blocks are untouched.
\<close>

theorem inode_roundtrip:
  assumes "layout_ok P (sb s) nm" "img_ok P s" "unat i < NINODES" "length (d_addrs d) = NDIRECT P + 1" "unat j < NINODES"
  shows "\<exists>s'. winode P i d s = Inr s' \<and> rinode P j s' = (if j = i then Inr d else rinode P j s)
    \<and> (\<forall>k \<ge> nm. sect P s' k = sect P s k)"
proof -
  from winode_ok [OF assms(1-4)] obtain s' where s': "winode P i d s = Inr s'" "img_ok P s'" "sb s' = sb s"
    "\<forall>j. unat j < NINODES \<longrightarrow> inode_at P s' j = (if j = i then d else inode_at P s j)" "\<forall>k \<ge> nm. sect P s' k = sect P s k"
    by blast
  then show ?thesis
    using assms rinode_ok [of P s' nm j] rinode_ok [of P s nm j] by auto
qed

section \<open>The free bitmap\<close>

lemma balloc_loop_length [simp]: "length (balloc_loop n i buf) = length buf"
  by (induction n i buf rule: balloc_loop.induct) simp_all

lemma balloc_loop_bit:
  assumes "i + n \<le> 8 * length buf" "j < 8 * length buf"
  shows "bit (balloc_loop n i buf ! (j div 8)) (j mod 8) \<longleftrightarrow> bit (buf ! (j div 8)) (j mod 8) \<or> i \<le> j \<and> j < i + n"
  using assms
proof (induction n i buf rule: balloc_loop.induct)
  case (2 n i buf)
  let ?b = "buf[i div 8 := buf ! (i div 8) OR push_bit (i mod 8) 1]"
  have i: "i div 8 < length buf" "j div 8 < length buf" using 2(2,3) by auto
  have "bit (?b ! (j div 8)) (j mod 8) \<longleftrightarrow> bit (buf ! (j div 8)) (j mod 8) \<or> j = i"
  proof (cases "j div 8 = i div 8")
    case True
    then have "j mod 8 = i mod 8 \<longleftrightarrow> j = i" by (metis div_mod_decomp)
    then show ?thesis using True i by (auto simp: bit_simps)
  qed auto
  with 2 show ?case by auto
qed auto

lemma balloc_ok:
  assumes "img_ok P s" "unat (sb_bmapstart (sb s)) < FSSIZE P" "sint used < int (BSIZE P * 8)"
  shows "\<exists>s' b. balloc P used s = Inr s' \<and> sect P s' = (sect P s)(unat (sb_bmapstart (sb s)) := b)
    \<and> (\<forall>j < 8 * BSIZE P. bit (b ! (j div 8)) (j mod 8) \<longleftrightarrow> int j < sint used)
    \<and> sb s' = sb s \<and> freeinode s' = freeinode s \<and> freeblock s' = freeblock s"
proof -
  let ?b = "balloc_loop (nat (sint used)) 0 (replicate (BSIZE P) 0)"
  have "bit (?b ! (j div 8)) (j mod 8) \<longleftrightarrow> int j < sint used" if "j < 8 * BSIZE P" for j
    using balloc_loop_bit [of 0 "nat (sint used)" "replicate (BSIZE P) 0" j] that assms(3) by auto
  moreover have "balloc P used s = wsect P (sb_bmapstart (sb s)) ?b s" using assms(3) by (simp add: balloc_def)
  moreover note wsect_ok [OF assms(1,2), of ?b]
  ultimately show ?thesis by auto
qed

text \<open>
  C22: \<open>balloc\<close> writes the bitmap block: bit \<open>j\<close> is set exactly for the \<open>used\<close> first blocks, and no other
  sector changes. With \<open>used\<close> at or above the number of bits of the block it stops at its assertion.
\<close>

theorem balloc_bitmap:
  assumes "img_ok P s" "unat (sb_bmapstart (sb s)) < FSSIZE P"
  shows "if sint used < int (BSIZE P * 8)
    then \<exists>s'. balloc P used s = Inr s'
      \<and> (\<forall>j < 8 * BSIZE P. bit (sect P s' (unat (sb_bmapstart (sb s))) ! (j div 8)) (j mod 8) \<longleftrightarrow> int j < sint used)
      \<and> (\<forall>k. k \<noteq> unat (sb_bmapstart (sb s)) \<longrightarrow> sect P s' k = sect P s k)
    else balloc P used s = Inl (Panic ''used < BSIZE*8'')"
proof (cases "sint used < int (BSIZE P * 8)")
  case True
  then show ?thesis using balloc_ok [OF assms True] by auto
qed (simp add: balloc_def)

section \<open>A concrete layout\<close>

text \<open>
  Small parameters that meet the requirements: blocks of 64 bytes, four inodes of 16 bytes per
  block, one direct pointer and an indirect block of 16, an image of 200 blocks.
\<close>

definition demo_dinode_bytes :: "dinode \<Rightarrow> u8 list" where
  "demo_dinode_bytes d = word_bytes (push_bit 16 (ucast (d_nlink d)) OR ucast (d_type d)) @ word_bytes (d_size d)
     @ concat (map word_bytes (d_addrs d))"

definition demo_dinode_of :: "u8 list \<Rightarrow> dinode" where
  "demo_dinode_of b =
     (let w = bytes_word (take 4 b)
      in \<lparr>d_type = ucast w, d_nlink = ucast (drop_bit 16 w), d_size = bytes_word (take 4 (drop 4 b)),
          d_addrs = [bytes_word (take 4 (drop 8 b)), bytes_word (take 4 (drop 12 b))]\<rparr>)"

definition demo_param :: fsparam where
  "demo_param = \<lparr>BSIZE = 64, FSSIZE = 200, LOGSIZE = 3, IPB = 4, NDIRECT = 1, NINDIRECT = 16, MAXFILE = 17, DIRSIZ = 6,
     FSMAGIC = 7, ROOTINO = 1, T_DIR = 1, T_FILE = 2, IBLOCK = (\<lambda>i b. i div 4 + sb_inodestart b),
     sizeof_dinode = 16, dinode_bytes = demo_dinode_bytes, dinode_of = demo_dinode_of,
     sizeof_dirent = 8,
     dirent_bytes = (\<lambda>i n. [ucast i, ucast (drop_bit 8 i)] @ take 6 (map of_char n @ replicate 6 0)),
     sb_bytes = (\<lambda>b. concat (map word_bytes [sb_magic b, sb_size b, sb_nblocks b, sb_ninodes b, sb_nlog b,
       sb_logstart b, sb_inodestart b, sb_bmapstart b])),
     seek_ok = (\<lambda>_ _. True), write_ok = (\<lambda>_ _. True), read_ok = (\<lambda>_ _. True)\<rparr>"

definition demo_sb :: superblock where
  "demo_sb = \<lparr>sb_magic = 7, sb_size = 200, sb_nblocks = 143, sb_ninodes = 200, sb_nlog = 3, sb_logstart = 2,
     sb_inodestart = 5, sb_bmapstart = 56\<rparr>"

lemma demo_dinode_roundtrip:
  assumes "length (d_addrs d) = 2"
  shows "length (demo_dinode_bytes d) = 16" "demo_dinode_of (demo_dinode_bytes d) = d"
proof -
  from assms obtain a b where ab: "d_addrs d = [a, b]" by (auto simp: length_Suc_conv numeral_eq_Suc)
  show "length (demo_dinode_bytes d) = 16" by (simp add: demo_dinode_bytes_def ab)
  let ?w = "push_bit 16 (ucast (d_nlink d)) OR ucast (d_type d) :: u32"
  have t: "ucast ?w = d_type d"
    by (rule bit_word_eqI) (simp add: bit_simps)
  have n: "ucast (drop_bit 16 ?w) = d_nlink d"
    by (rule bit_word_eqI) (auto simp: bit_simps dest: bit_imp_le_length)
  show "demo_dinode_of (demo_dinode_bytes d) = d"
    by (cases d) (use ab t n in \<open>simp add: demo_dinode_of_def demo_dinode_bytes_def Let_def\<close>)
qed

lemma demo_iblock:
  assumes "unat i < NINODES"
  shows "unat (IBLOCK demo_param i demo_sb) = unat i div 4 + 5"
  using assms by (simp add: demo_param_def demo_sb_def NINODES_def unat_word_ariths unat_div)

lemma demo_layout: "layout_ok demo_param demo_sb 57"
proof -
  have blk: "unat (IBLOCK demo_param i demo_sb) < 57" if "unat i < NINODES" for i
    using that unfolding demo_iblock [OF that] by (simp add: NINODES_def)
  have inj: "i = j" if "unat i < NINODES" "unat j < NINODES" "IBLOCK demo_param i demo_sb = IBLOCK demo_param j demo_sb"
    "unat i mod IPB demo_param = unat j mod IPB demo_param" for i j
  proof -
    have "unat i div 4 = unat j div 4" using demo_iblock [OF that(1)] demo_iblock [OF that(2)] that(3) by simp
    moreover have "unat i mod 4 = unat j mod 4" using that(4) by (simp add: demo_param_def)
    ultimately show ?thesis by (metis div_mult_mod_eq word_unat_eq_iff)
  qed
  have par: "BSIZE demo_param = 64" "FSSIZE demo_param = 200" "IPB demo_param = 4" "NDIRECT demo_param = 1"
    "NINDIRECT demo_param = 16" "MAXFILE demo_param = 17" "sizeof_dinode demo_param = 16"
    "dinode_bytes demo_param = demo_dinode_bytes" "dinode_of demo_param = demo_dinode_of"
    by (simp_all add: demo_param_def)
  show ?thesis
    unfolding layout_ok_def using blk inj by (simp add: par demo_dinode_roundtrip numeral_2_eq_2 [symmetric])
qed

definition demo_state :: mkfs where
  "demo_state = \<lparr>img = replicate (200 * 64) 0, sb = demo_sb, freeinode = 1, freeblock = 57\<rparr>"

lemma demo_img: "img_ok demo_param demo_state"
  by (simp add: img_ok_def host_ok_def demo_state_def demo_param_def)

theorem inode_roundtrip_witness:
  "\<exists>s'. winode demo_param 5 \<lparr>d_type = 2, d_nlink = 1, d_size = 9, d_addrs = [60, 0]\<rparr> demo_state = Inr s'
    \<and> rinode demo_param 5 s' = Inr \<lparr>d_type = 2, d_nlink = 1, d_size = 9, d_addrs = [60, 0]\<rparr>"
  using inode_roundtrip [of demo_param demo_state 57 5 "\<lparr>d_type = 2, d_nlink = 1, d_size = 9, d_addrs = [60, 0]\<rparr>" 5]
    demo_layout demo_img
  by (auto simp: demo_state_def demo_param_def NINODES_def)

theorem balloc_bitmap_witness:
  "\<exists>s'. balloc demo_param 60 demo_state = Inr s'
    \<and> bit (sect demo_param s' 56 ! 7) 3 \<and> \<not> bit (sect demo_param s' 56 ! 7) 4"
proof -
  have "sint (60 :: i32) = 60" by simp
  with balloc_bitmap [OF demo_img, of 60] obtain s' where s': "balloc demo_param 60 demo_state = Inr s'"
    "\<forall>j < 8 * 64. bit (sect demo_param s' 56 ! (j div 8)) (j mod 8) \<longleftrightarrow> int j < 60"
    by (auto simp: demo_state_def demo_sb_def demo_param_def)
  from s'(2) [rule_format, of 59] s'(2) [rule_format, of 60] s'(1) show ?thesis by simp
qed

end
