(* ===== verification/Mkfs.thy ===== *)
theory Mkfs
  imports Mkfs_Disk
begin

text \<open>
  The upper half of \<open>mkfs/mkfs.c\<close>: \<open>iappend\<close>, which appends bytes to a file through the direct and
  indirect block pointers of its inode, and \<open>main\<close>, which lays out the image.

  The specification of a file is its list of bytes. \<open>blk\<close> names the block that holds each piece
  of each file, \<open>fs_inv\<close> says that no block has two uses and that unallocated blocks are zero, and
  the lemmas show that \<open>iappend\<close> appends to one file and leaves the others alone.

  The host's files are a function from names to contents, \<open>None\<close> where \<open>open\<close> fails; a \<open>read\<close> of a
  regular file returns a full buffer until the end. A failed assertion, \<open>die\<close> and the usage
  message are \<open>Panic\<close>.
\<close>

section \<open>iappend\<close>

text \<open>\<open>indirect[k]\<close>: the block read into the array, seen as words.\<close>

definition ind_get :: "u8 list \<Rightarrow> nat \<Rightarrow> u32" where
  "ind_get b k = bytes_word (take 4 (drop (k * 4) b))"

definition ind_set :: "u8 list \<Rightarrow> nat \<Rightarrow> u32 \<Rightarrow> u8 list" where
  "ind_set b k v = overlay (k * 4) (word_bytes v) b"

text \<open>Lines 269 to 271 and 274 to 276: pointer \<open>f\<close> of the inode, set to the next free block if it is 0.\<close>

definition alloc_addr :: "nat \<Rightarrow> dinode \<Rightarrow> mkfs \<Rightarrow> dinode \<times> mkfs" where
  "alloc_addr f din s =
     (if xint (d_addrs din ! f) = 0
      then (din\<lparr>d_addrs := (d_addrs din)[f := xint (freeblock s)]\<rparr>, s\<lparr>freeblock := freeblock s + 1\<rparr>)
      else (din, s))"

text \<open>Lines 268 to 283: the sector that holds block \<open>fbn\<close> of the file, allocated if there is none.\<close>

definition iappend_block :: "fsparam \<Rightarrow> u32 \<Rightarrow> dinode \<Rightarrow> mkfs \<Rightarrow> (u32 \<times> dinode \<times> mkfs) res" where
  "iappend_block P fbn din s =
     (if unat fbn < NDIRECT P then
        let (din, s) = alloc_addr (unat fbn) din s
        in Inr (xint (d_addrs din ! unat fbn), din, s)
      else
        let (din, s) = alloc_addr (NDIRECT P) din s;
            k = unat fbn - NDIRECT P
        in then_res (rsect P (xint (d_addrs din ! NDIRECT P)) s) (\<lambda>indirect.
             if k < NINDIRECT P then
               if ind_get indirect k = 0 then
                 let indirect = ind_set indirect k (xint (freeblock s));
                     s = s\<lparr>freeblock := freeblock s + 1\<rparr>
                 in then_res (wsect P (xint (d_addrs din ! NDIRECT P)) indirect s) (\<lambda>s.
                      Inr (xint (ind_get indirect k), din, s))
               else Inr (xint (ind_get indirect k), din, s)
             else Inl OutOfBounds))"

text \<open>One turn of \<open>while(n > 0)\<close>; \<open>xs\<close> is what \<open>p\<close> and \<open>n\<close> still have to write.\<close>

definition iappend_step :: "fsparam \<Rightarrow> dinode \<times> u32 \<times> u8 list \<times> mkfs \<Rightarrow> (dinode \<times> u32 \<times> u8 list \<times> mkfs) res" where
  "iappend_step P = (\<lambda>(din, off, xs, s).
     let fbn = off div of_nat (BSIZE P)
     in if unat fbn < MAXFILE P then
          then_res (iappend_block P fbn din s) (\<lambda>(x, din, s).
          let n1 = min (of_nat (length xs)) ((fbn + 1) * of_nat (BSIZE P) - off)
          in then_res (rsect P x s) (\<lambda>buf.
             then_res (wsect P x (overlay (unat (off - fbn * of_nat (BSIZE P))) (take (unat n1) xs) buf) s) (\<lambda>s.
             Inr (din, off + n1, drop (unat n1) xs, s))))
        else Inl (Panic ''fbn < MAXFILE''))"

definition iappend :: "fsparam \<Rightarrow> u32 \<Rightarrow> u8 list \<Rightarrow> mkfs \<Rightarrow> mkfs res" where
  "iappend P inum xs s =
     then_res (rinode P inum s) (\<lambda>din.
     then_res (loop_res (\<lambda>(din, off, xs, s). xs \<noteq> []) (iappend_step P) (din, xint (d_size din), xs, s)) (\<lambda>(din, off, xs, s).
     winode P inum (din\<lparr>d_size := xint off\<rparr>) s))"

section \<open>Files and their blocks\<close>

text \<open>
  The uses a block can have: the piece \<open>f\<close> of file \<open>i\<close>, or the indirect block of file \<open>i\<close>. \<open>blk\<close>
  gives the block of a use, 0 when it has none, from the inodes \<open>N\<close> and the sectors \<open>M\<close>.
\<close>

datatype use = Dat u32 nat | Ind u32

fun blk :: "fsparam \<Rightarrow> (u32 \<Rightarrow> dinode) \<Rightarrow> (nat \<Rightarrow> u8 list) \<Rightarrow> use \<Rightarrow> nat" where
  "blk P N M (Ind i) = unat (d_addrs (N i) ! NDIRECT P)"
| "blk P N M (Dat i f) =
     (if f < NDIRECT P then unat (d_addrs (N i) ! f)
      else if unat (d_addrs (N i) ! NDIRECT P) = 0 then 0
      else unat (ind_get (M (unat (d_addrs (N i) ! NDIRECT P))) (f - NDIRECT P)))"

fun live :: "fsparam \<Rightarrow> u32 set \<Rightarrow> use \<Rightarrow> bool" where
  "live P I (Ind i) \<longleftrightarrow> i \<in> I"
| "live P I (Dat i f) \<longleftrightarrow> i \<in> I \<and> f < MAXFILE P"

definition blocks_ok :: "fsparam \<Rightarrow> nat \<Rightarrow> u32 set \<Rightarrow> (u32 \<Rightarrow> dinode) \<Rightarrow> (nat \<Rightarrow> u8 list) \<Rightarrow> nat \<Rightarrow> bool" where
  "blocks_ok P nm I N M fb \<longleftrightarrow> nm \<le> fb
     \<and> (\<forall>i \<in> I. length (d_addrs (N i)) = NDIRECT P + 1)
     \<and> (\<forall>a. live P I a \<longrightarrow> blk P N M a \<noteq> 0 \<longrightarrow> nm \<le> blk P N M a \<and> blk P N M a < fb)
     \<and> (\<forall>a b. live P I a \<longrightarrow> live P I b \<longrightarrow> blk P N M a \<noteq> 0 \<longrightarrow> blk P N M a = blk P N M b \<longrightarrow> a = b)
     \<and> (\<forall>k. fb \<le> k \<longrightarrow> k < FSSIZE P \<longrightarrow> M k = replicate (BSIZE P) 0)"

text \<open>Byte \<open>k\<close> of file \<open>i\<close>, and the file as a list.\<close>

definition file_byte :: "fsparam \<Rightarrow> (u32 \<Rightarrow> dinode) \<Rightarrow> (nat \<Rightarrow> u8 list) \<Rightarrow> u32 \<Rightarrow> nat \<Rightarrow> u8" where
  "file_byte P N M i k = M (blk P N M (Dat i (k div BSIZE P))) ! (k mod BSIZE P)"

definition mapped :: "fsparam \<Rightarrow> (u32 \<Rightarrow> dinode) \<Rightarrow> (nat \<Rightarrow> u8 list) \<Rightarrow> u32 \<Rightarrow> nat \<Rightarrow> bool" where
  "mapped P N M i n \<longleftrightarrow> n \<le> MAXFILE P * BSIZE P \<and> (\<forall>k < n. blk P N M (Dat i (k div BSIZE P)) \<noteq> 0)"

text \<open>How pointers and sectors may change while one file grows: uses keep their block and,
  for data, its contents; only uses of file \<open>i\<close> may gain a block.\<close>

definition grows :: "fsparam \<Rightarrow> u32 set \<Rightarrow> u32 \<Rightarrow> (u32 \<Rightarrow> dinode) \<Rightarrow> (nat \<Rightarrow> u8 list) \<Rightarrow> (u32 \<Rightarrow> dinode) \<Rightarrow> (nat \<Rightarrow> u8 list) \<Rightarrow> bool" where
  "grows P I i N M N' M' \<longleftrightarrow>
     (\<forall>a. live P I a \<longrightarrow> blk P N M a \<noteq> 0 \<longrightarrow> blk P N' M' a = blk P N M a)
   \<and> (\<forall>j f. live P I (Dat j f) \<longrightarrow> blk P N M (Dat j f) \<noteq> 0 \<longrightarrow> M' (blk P N M (Dat j f)) = M (blk P N M (Dat j f)))
   \<and> (\<forall>j. j \<noteq> i \<longrightarrow> N' j = N j)
   \<and> d_type (N' i) = d_type (N i) \<and> d_nlink (N' i) = d_nlink (N i) \<and> d_size (N' i) = d_size (N i)"

lemma ind_get_set_same [simp]: "k * 4 + 4 \<le> length b \<Longrightarrow> ind_get (ind_set b k v) k = v"
  using slice_overlay_same [of "k * 4" "word_bytes v" b] by (simp add: ind_get_def ind_set_def)

lemma ind_get_set_other: "j \<noteq> k \<Longrightarrow> k * 4 + 4 \<le> length b \<Longrightarrow> ind_get (ind_set b k v) j = ind_get b j"
  using slice_overlay_other [of "k * 4" "word_bytes v" b "j * 4" 4] slots_disjoint [of j k 4]
  by (auto simp: ind_get_def ind_set_def)

lemma ind_get_zero: "k * 4 + 4 \<le> n \<Longrightarrow> ind_get (replicate n 0) k = 0"
proof -
  assume "k * 4 + 4 \<le> n"
  then have "take 4 (drop (k * 4) (replicate n 0)) = replicate 4 (0 :: u8)" by (simp add: min_def)
  then show ?thesis by (simp add: ind_get_def bytes_word_def numeral_eq_Suc)
qed

text \<open>A pointer of the inode that is set for the first time, to the next free block.\<close>

lemma blocks_ok_new_addr:
  assumes ok: "blocks_ok P nm I N M fb" and i: "i \<in> I" and f: "f \<le> NDIRECT P" and z: "d_addrs (N i) ! f = 0"
    and fb: "fb < FSSIZE P" "unat v = fb" "0 < nm" and lay: "NINDIRECT P * 4 = BSIZE P" "MAXFILE P = NDIRECT P + NINDIRECT P"
  defines "N' \<equiv> N(i := (N i)\<lparr>d_addrs := (d_addrs (N i))[f := v]\<rparr>)"
  shows "blocks_ok P nm I N' M (Suc fb) \<and> grows P I i N M N' M \<and> d_addrs (N' i) ! f = v"
proof -
  let ?u = "if f = NDIRECT P then Ind i else Dat i f"
  have len: "length (d_addrs (N i)) = NDIRECT P + 1" using ok i by (simp add: blocks_ok_def)
  have Mfb: "M fb = replicate (BSIZE P) 0" using ok fb(1) by (simp add: blocks_ok_def)
  have zero: "ind_get (M fb) (g - NDIRECT P) = 0" if "g < MAXFILE P" "NDIRECT P \<le> g" for g
  proof -
    have "Suc (g - NDIRECT P) \<le> NINDIRECT P" using that lay(2) by linarith
    from mult_le_mono1 [OF this, of 4] show ?thesis unfolding Mfb using lay(1) by (intro ind_get_zero) simp
  qed
  have b: "blk P N' M a = (if a = ?u then fb else blk P N M a)" if "live P I a" for a
  proof (cases a)
    case (Ind j)
    then show ?thesis using len f fb(2) by (cases "j = i") (auto simp: N'_def nth_list_update)
  next
    case (Dat j g)
    then show ?thesis using len f fb(2) z that zero [of g] by (cases "j = i") (auto simp: N'_def nth_list_update)
  qed
  have u: "live P I ?u" using i f lay(2) by auto
  have z': "blk P N M ?u = 0" using z f by auto
  have used: "nm \<le> blk P N M a \<and> blk P N M a < fb" if "live P I a" "blk P N M a \<noteq> 0" for a
    using ok that by (simp add: blocks_ok_def)
  have inj: "a = b" if "live P I a" "live P I b" "blk P N M a \<noteq> 0" "blk P N M a = blk P N M b" for a b
    using ok that by (simp add: blocks_ok_def)
  have "a = b" if "live P I a" "live P I b" "blk P N' M a \<noteq> 0" "blk P N' M a = blk P N' M b" for a b
    using that b used [of a] used [of b] inj [of a b] by (auto split: if_splits)
  moreover have "nm \<le> blk P N' M a \<and> blk P N' M a < Suc fb" if "live P I a" "blk P N' M a \<noteq> 0" for a
    using that b [of a] used [of a] ok by (auto simp: blocks_ok_def split: if_splits)
  moreover have "\<forall>i \<in> I. length (d_addrs (N' i)) = NDIRECT P + 1" using ok len by (auto simp: blocks_ok_def N'_def)
  ultimately have "blocks_ok P nm I N' M (Suc fb)" using ok unfolding blocks_ok_def by (meson Suc_leD le_SucI)
  moreover have "grows P I i N M N' M" using b z' by (auto simp: grows_def N'_def simp del: blk.simps)
  ultimately show ?thesis using len f by (simp add: N'_def)
qed

text \<open>An entry of an existing indirect block that is set for the first time.\<close>

lemma blocks_ok_new_ind:
  assumes ok: "blocks_ok P nm I N M fb" and i: "i \<in> I" and ib: "ib = blk P N M (Ind i)" "ib \<noteq> 0"
    and k: "k < NINDIRECT P" and z: "ind_get (M ib) k = 0" and len: "length (M ib) = BSIZE P"
    and fb: "fb < FSSIZE P" "unat v = fb" "0 < nm" and lay: "NINDIRECT P * 4 = BSIZE P" "MAXFILE P = NDIRECT P + NINDIRECT P"
  defines "M' \<equiv> M(ib := ind_set (M ib) k v)"
  shows "blocks_ok P nm I N M' (Suc fb) \<and> grows P I i N M N M' \<and> blk P N M' (Dat i (NDIRECT P + k)) = fb"
proof -
  let ?u = "Dat i (NDIRECT P + k)"
  have k4: "k * 4 + 4 \<le> length (M ib)" using k lay(1) len mult_le_mono1 [of "Suc k" "NINDIRECT P" 4] by simp
  have used: "nm \<le> blk P N M a \<and> blk P N M a < fb" if "live P I a" "blk P N M a \<noteq> 0" for a
    using ok that by (simp add: blocks_ok_def)
  have inj: "a = b" if "live P I a" "live P I b" "blk P N M a \<noteq> 0" "blk P N M a = blk P N M b" for a b
    using ok that by (simp add: blocks_ok_def)
  have ib': "unat (d_addrs (N i) ! NDIRECT P) = ib" using ib by simp
  have b: "blk P N M' a = (if a = ?u then fb else blk P N M a)" if "live P I a" for a
  proof (cases a)
    case (Dat j g)
    show ?thesis
    proof (cases "g < NDIRECT P \<or> unat (d_addrs (N j) ! NDIRECT P) = 0")
      case True
      then show ?thesis using Dat ib' ib(2) by auto
    next
      case False
      have "unat (d_addrs (N j) ! NDIRECT P) = ib \<longleftrightarrow> j = i"
        using inj [of "Ind j" "Ind i"] Dat that i ib' False ib(2) by auto
      then show ?thesis
        using Dat False ib' k4 fb(2) ind_get_set_other [of "g - NDIRECT P" k "M ib" v]
        by (auto simp: M'_def)
    qed
  qed (simp add: M'_def)
  have z': "blk P N M ?u = 0" using z ib' ib(2) by simp
  have dat: "blk P N M (Dat j g) \<noteq> ib" if "live P I (Dat j g)" for j g
    using inj [of "Ind i" "Dat j g"] that i ib by (auto simp del: blk.simps)
  have "a = b" if "live P I a" "live P I b" "blk P N M' a \<noteq> 0" "blk P N M' a = blk P N M' b" for a b
    using that b used [of a] used [of b] inj [of a b] by (auto simp del: blk.simps split: if_splits)
  moreover have "nm \<le> blk P N M' a \<and> blk P N M' a < Suc fb" if "live P I a" "blk P N M' a \<noteq> 0" for a
    using that b [of a] used [of a] ok by (auto simp: blocks_ok_def simp del: blk.simps split: if_splits)
  moreover have "ib < fb" using used [of "Ind i"] i ib by simp
  then have "M' m = replicate (BSIZE P) 0" if "Suc fb \<le> m" "m < FSSIZE P" for m
    using ok that by (auto simp: blocks_ok_def M'_def)
  ultimately have "blocks_ok P nm I N M' (Suc fb)" using ok unfolding blocks_ok_def by (meson le_SucI)
  moreover have "grows P I i N M N M'" using b z' dat by (auto simp: grows_def M'_def simp del: blk.simps)
  moreover have "live P I ?u" using i k lay(2) by simp
  ultimately show ?thesis using b [of ?u] by (simp del: blk.simps)
qed

lemma grows_refl: "grows P I i N M N M"
  by (simp add: grows_def)

lemma grows_trans:
  assumes "grows P I i N M N1 M1" "grows P I i N1 M1 N2 M2"
  shows "grows P I i N M N2 M2"
proof -
  have "M2 (blk P N M (Dat j f)) = M (blk P N M (Dat j f))"
    if "live P I (Dat j f)" "blk P N M (Dat j f) \<noteq> 0" for j f
    using that assms unfolding grows_def by (metis (no_types, lifting))
  with assms show ?thesis unfolding grows_def by (auto simp del: blk.simps)
qed

lemma freeblock_Suc:
  fixes v :: u32
  assumes "layout_ok P b nm" "unat v < FSSIZE P"
  shows "unat (v + 1) = Suc (unat v)"
proof -
  have "FSSIZE P * 1 \<le> FSSIZE P * BSIZE P" using assms(1) by (intro mult_le_mono2) (simp add: layout_ok_def Suc_leI)
  moreover have "FSSIZE P * BSIZE P < 2 ^ 32" using assms(1) by (simp add: layout_ok_def)
  ultimately have "Suc (unat v) < 2 ^ 32" using assms(2) by linarith
  then show ?thesis by (simp add: unat_word_ariths)
qed

text \<open>What the allocation of one block of file \<open>i\<close> guarantees.\<close>

definition grown :: "fsparam \<Rightarrow> nat \<Rightarrow> u32 set \<Rightarrow> u32 \<Rightarrow> (u32 \<Rightarrow> dinode) \<Rightarrow> mkfs \<Rightarrow> (u32 \<Rightarrow> dinode) \<Rightarrow> mkfs \<Rightarrow> bool" where
  "grown P nm I i N s N' s' \<longleftrightarrow> img_ok P s' \<and> sb s' = sb s \<and> freeinode s' = freeinode s
     \<and> unat (freeblock s) \<le> unat (freeblock s')
     \<and> blocks_ok P nm I N' (sect P s') (unat (freeblock s')) \<and> grows P I i N (sect P s) N' (sect P s')
     \<and> (\<forall>k < nm. sect P s' k = sect P s k)"

lemma sect_freeblock [simp]: "sect P (s\<lparr>freeblock := v\<rparr>) = sect P s" "img_ok P (s\<lparr>freeblock := v\<rparr>) = img_ok P s"
  by (simp_all add: sect_def fun_eq_iff img_ok_def)

lemma iappend_addr:
  assumes lay: "layout_ok P (sb s) nm" and img: "img_ok P s"
    and ok: "blocks_ok P nm I N (sect P s) (unat (freeblock s))" and i: "i \<in> I" and f: "f \<le> NDIRECT P"
    and room: "unat (freeblock s) < FSSIZE P"
  defines "r \<equiv> alloc_addr f (N i) s"
  shows "grown P nm I i N s (N(i := fst r)) (snd r) \<and> d_addrs (fst r) ! f \<noteq> 0
    \<and> unat (freeblock (snd r)) \<le> unat (freeblock s) + 1 \<and> sect P (snd r) = sect P s"
proof (cases "d_addrs (N i) ! f = 0")
  case True
  let ?d = "(N i)\<lparr>d_addrs := (d_addrs (N i))[f := freeblock s]\<rparr>"
  have nm: "0 < nm" "NINDIRECT P * 4 = BSIZE P" "MAXFILE P = NDIRECT P + NINDIRECT P"
    using lay by (simp_all add: layout_ok_def)
  note new = blocks_ok_new_addr [OF ok i f True room refl nm]
  note suc = freeblock_Suc [OF lay room]
  have "freeblock s \<noteq> 0" using ok nm(1) by (auto simp: blocks_ok_def)
  then show ?thesis using True new suc img by (simp add: r_def alloc_addr_def grown_def)
qed (use ok img in \<open>simp add: r_def alloc_addr_def grown_def grows_refl\<close>)

lemma iappend_block_ok:
  assumes lay: "layout_ok P (sb s) nm" and img: "img_ok P s"
    and ok: "blocks_ok P nm I N (sect P s) (unat (freeblock s))" and i: "i \<in> I" and f: "unat fbn < MAXFILE P"
    and room: "unat (freeblock s) + 2 \<le> FSSIZE P"
  shows "\<exists>x din s'. iappend_block P fbn (N i) s = Inr (x, din, s') \<and> grown P nm I i N s (N(i := din)) s'
    \<and> unat (freeblock s') \<le> unat (freeblock s) + 2
    \<and> blk P (N(i := din)) (sect P s') (Dat i (unat fbn)) = unat x \<and> x \<noteq> 0"
proof (cases "unat fbn < NDIRECT P")
  case True
  from iappend_addr [OF lay img ok i, of "unat fbn"] True room
  show ?thesis by (auto simp: iappend_block_def split: prod.split)
next
  case False
  define din t where "din = fst (alloc_addr (NDIRECT P) (N i) s)" and "t = snd (alloc_addr (NDIRECT P) (N i) s)"
  from iappend_addr [OF lay img ok i, of "NDIRECT P"] room
  have t: "grown P nm I i N s (N(i := din)) t" "d_addrs din ! NDIRECT P \<noteq> 0"
    "unat (freeblock t) \<le> unat (freeblock s) + 1" "sect P t = sect P s"
    unfolding din_def t_def by auto
  let ?x = "d_addrs din ! NDIRECT P" and ?k = "unat fbn - NDIRECT P"
  have imgt: "img_ok P t" "sb t = sb s" "freeinode t = freeinode s" "unat (freeblock s) \<le> unat (freeblock t)"
    and okt: "blocks_ok P nm I (N(i := din)) (sect P t) (unat (freeblock t))" and gt: "grows P I i N (sect P s) (N(i := din)) (sect P t)"
    using t(1) by (simp_all add: grown_def)
  have ib: "blk P (N(i := din)) (sect P t) (Ind i) = unat ?x" "unat ?x \<noteq> 0" using t(2) by (simp_all add: unat_eq_0)
  have xb: "nm \<le> unat ?x" "unat ?x < unat (freeblock t)"
    using okt i ib by (auto simp: blocks_ok_def dest!: spec [of _ "Ind i"])
  have x: "unat ?x < FSSIZE P" using xb(2) t(3) room by linarith
  have k: "?k < NINDIRECT P" using f False lay by (auto simp: layout_ok_def)
  have nm: "0 < nm" "NINDIRECT P * 4 = BSIZE P" "MAXFILE P = NDIRECT P + NINDIRECT P"
    using lay by (simp_all add: layout_ok_def)
  note rd = rsect_ok [OF imgt(1) x] and len = length_sect [OF imgt(1) x]
  have fold: "alloc_addr (NDIRECT P) (N i) s = (din, t)" by (simp add: din_def t_def)
  show ?thesis
  proof (cases "ind_get (sect P t (unat ?x)) ?k = 0")
    case True
    let ?ind = "ind_set (sect P t (unat ?x)) ?k (freeblock t)" and ?t = "t\<lparr>freeblock := freeblock t + 1\<rparr>"
    have room': "unat (freeblock t) < FSSIZE P" using t(3) room by linarith
    have k4: "?k * 4 + 4 \<le> BSIZE P" using k nm(2) mult_le_mono1 [of "Suc ?k" "NINDIRECT P" 4] by simp
    then have lind: "length ?ind = BSIZE P" using len by (simp add: ind_set_def)
    from wsect_ok [of P ?t ?x ?ind] imgt x lind obtain s' where
      s': "wsect P ?x ?ind ?t = Inr s'" "img_ok P s'" "sect P s' = (sect P t)(unat ?x := ?ind)"
        "sb s' = sb s" "freeinode s' = freeinode s" "freeblock s' = freeblock t + 1"
      by auto
    note new = blocks_ok_new_ind [OF okt i ib(1) [symmetric] ib(2) k True len room' refl nm]
    have suc: "unat (freeblock s') = Suc (unat (freeblock t))"
      using freeblock_Suc [of P "sb s" nm "freeblock t"] lay room' by (simp add: s'(6))
    have "grows P I i N (sect P s) (N(i := din)) (sect P s')"
      using grows_trans [OF gt] new by (simp add: s'(3))
    then have "grown P nm I i N s (N(i := din)) s'"
      using new s' suc imgt(4) t(4) xb(1) by (auto simp: grown_def)
    moreover have "freeblock t \<noteq> 0" using okt nm(1) by (auto simp: blocks_ok_def)
    moreover have "iappend_block P fbn (N i) s = Inr (freeblock t, din, s')"
      using False fold rd k True s'(1) k4 len by (simp add: iappend_block_def)
    moreover have "NDIRECT P + ?k = unat fbn" using False by simp
    ultimately show ?thesis using new s'(3) suc t(3) by (auto simp del: blk.simps)
  next
    case neq: False
    have "iappend_block P fbn (N i) s = Inr (ind_get (sect P t (unat ?x)) ?k, din, t)"
      using False fold rd k neq by (simp add: iappend_block_def)
    then show ?thesis using t ib(2) False neq by auto
  qed
qed

text \<open>Writing the sector of a piece of a file changes that piece and no pointer.\<close>

lemma write_data:
  fixes buf :: "u8 list"
  assumes ok: "blocks_ok P nm I N M fb" and u: "live P I (Dat i f)" and x: "x = blk P N M (Dat i f)" "x \<noteq> 0"
  defines "M' \<equiv> M(x := buf)"
  shows "blocks_ok P nm I N M' fb" "live P I a \<Longrightarrow> blk P N M' a = blk P N M a"
    "live P I (Dat j (k div BSIZE P)) \<Longrightarrow> blk P N M (Dat j (k div BSIZE P)) \<noteq> 0 \<Longrightarrow>
      file_byte P N M' j k = (if j = i \<and> k div BSIZE P = f then buf ! (k mod BSIZE P) else file_byte P N M j k)"
proof -
  have inj: "a = b" if "live P I a" "live P I b" "blk P N M a \<noteq> 0" "blk P N M a = blk P N M b" for a b
    using ok that by (simp add: blocks_ok_def)
  have ind: "unat (d_addrs (N j) ! NDIRECT P) \<noteq> x" if "j \<in> I" for j
    using inj [of "Dat i f" "Ind j"] u x that by auto
  have b: "blk P N M' a = blk P N M a" if "live P I a" for a
    using that ind by (cases a) (auto simp: M'_def)
  then show "live P I a \<Longrightarrow> blk P N M' a = blk P N M a" .
  have "x < fb" using ok u x by (simp add: blocks_ok_def del: blk.simps)
  then show "blocks_ok P nm I N M' fb"
    using ok b unfolding blocks_ok_def by (auto simp: M'_def simp del: blk.simps)
  show "file_byte P N M' j k = (if j = i \<and> k div BSIZE P = f then buf ! (k mod BSIZE P) else file_byte P N M j k)"
    if "live P I (Dat j (k div BSIZE P))" "blk P N M (Dat j (k div BSIZE P)) \<noteq> 0"
    using b [OF that(1)] inj [OF that(1) u that(2)] x
    by (auto simp: file_byte_def M'_def simp del: blk.simps live.simps)
qed

text \<open>
  From \<open>(N, s)\<close> to \<open>(N', s')\<close>, the bytes \<open>ys\<close> have been written to file \<open>i\<close> from position \<open>off\<close> on; the
  bytes before, the other files, the metadata blocks and the sizes are as they were.
\<close>

definition appended ::
  "fsparam \<Rightarrow> nat \<Rightarrow> u32 set \<Rightarrow> u32 \<Rightarrow> nat \<Rightarrow> u8 list \<Rightarrow> (u32 \<Rightarrow> dinode) \<Rightarrow> mkfs \<Rightarrow> (u32 \<Rightarrow> dinode) \<Rightarrow> mkfs \<Rightarrow> bool" where
  "appended P nm I i off ys N s N' s' \<longleftrightarrow> img_ok P s' \<and> sb s' = sb s \<and> freeinode s' = freeinode s
     \<and> blocks_ok P nm I N' (sect P s') (unat (freeblock s')) \<and> (\<forall>k < nm. sect P s' k = sect P s k)
     \<and> (\<forall>j. j \<noteq> i \<longrightarrow> N' j = N j) \<and> d_type (N' i) = d_type (N i) \<and> d_nlink (N' i) = d_nlink (N i) \<and> d_size (N' i) = d_size (N i)
     \<and> mapped P N' (sect P s') i (off + length ys)
     \<and> (\<forall>k < off. file_byte P N' (sect P s') i k = file_byte P N (sect P s) i k)
     \<and> (\<forall>k < length ys. file_byte P N' (sect P s') i (off + k) = ys ! k)
     \<and> (\<forall>j \<in> I. j \<noteq> i \<longrightarrow> (\<forall>n. mapped P N (sect P s) j n \<longrightarrow> mapped P N' (sect P s') j n
          \<and> (\<forall>k < n. file_byte P N' (sect P s') j k = file_byte P N (sect P s) j k)))"

lemma appended_trans:
  assumes "appended P nm I i off ys N s N1 s1" "appended P nm I i (off + length ys) zs N1 s1 N2 s2"
  shows "appended P nm I i off (ys @ zs) N s N2 s2"
proof -
  have "file_byte P N2 (sect P s2) j k = file_byte P N (sect P s) j k"
    if "j \<in> I" "j \<noteq> i" "mapped P N (sect P s) j n" "k < n" for j n k
    using assms that unfolding appended_def by metis
  moreover have "file_byte P N2 (sect P s2) i (off + k) = (ys @ zs) ! k" if "k < length (ys @ zs)" for k
  proof (cases "k < length ys")
    case False
    then have e: "off + k = off + length ys + (k - length ys)" and "k - length ys < length zs" using that by simp_all
    then have "file_byte P N2 (sect P s2) i (off + length ys + (k - length ys)) = zs ! (k - length ys)"
      using assms(2) unfolding appended_def by blast
    then show ?thesis unfolding e using False by (simp add: nth_append)
  qed (use assms in \<open>simp add: appended_def nth_append\<close>)
  ultimately show ?thesis using assms unfolding appended_def by (simp add: add.assoc)
qed

text \<open>How many blocks \<open>n\<close> bytes from position \<open>off\<close> touch.\<close>

definition touched :: "fsparam \<Rightarrow> nat \<Rightarrow> nat \<Rightarrow> nat" where
  "touched P off n = (if n = 0 then 0 else (off + n - 1) div BSIZE P - off div BSIZE P + 1)"

lemma touched_next:
  assumes "0 < BSIZE P" "n1 = (off div BSIZE P + 1) * BSIZE P - off" "n1 \<le> n" "0 < n"
  shows "touched P (off + n1) (n - n1) + 1 \<le> touched P off n"
proof (cases "n = n1")
  case False
  have le: "off < (off div BSIZE P + 1) * BSIZE P" using assms(1) by (simp add: dividend_less_div_times)
  have e: "off + n1 = (off div BSIZE P + 1) * BSIZE P" using le assms(2) by simp
  have "(off + n1) div BSIZE P = off div BSIZE P + 1" unfolding e using assms(1) by (rule nonzero_mult_div_cancel_right [OF less_imp_neq [symmetric]])
  moreover have "off + n1 + (n - n1) - 1 = off + n - 1" using assms(3) by simp
  moreover have "(off + n1) div BSIZE P \<le> (off + n - 1) div BSIZE P" using False assms(3) by (intro div_le_mono) simp
  ultimately show ?thesis using False assms(3,4) by (simp add: touched_def)
qed (use assms in \<open>simp add: touched_def\<close>)

text \<open>The word arithmetic of one turn.\<close>

lemma unat_inverse: "of_nat (unat x) = (x :: u32)"
  by simp

lemma iappend_words:
  fixes off :: u32
  assumes "0 < B" "(unat off div B + 1) * B < 2 ^ 31" "n < 2 ^ 31"
  defines "fbn \<equiv> off div of_nat B"
  shows "unat fbn = unat off div B" "unat (off - fbn * of_nat B) = unat off mod B"
    "unat (min (of_nat n) ((fbn + 1) * of_nat B - off)) = min n ((unat off div B + 1) * B - unat off)"
proof -
  have B: "B < 2 ^ 31" using assms(2) le_less_trans [of B "(unat off div B + 1) * B"] by simp
  then have uB: "unat (of_nat B :: u32) = B" by (simp add: unat_of_nat)
  show f: "unat fbn = unat off div B" by (simp add: fbn_def unat_div uB)
  have m: "unat (fbn * of_nat B) = unat off div B * B"
    using assms(2) by (subst unat_mult_lem [THEN iffD1]) (simp_all add: f uB)
  have le: "unat off div B * B \<le> unat off" by simp
  then have "fbn * of_nat B \<le> off" by (simp add: word_le_nat_alt m)
  then show "unat (off - fbn * of_nat B) = unat off mod B"
    using m by (simp add: unat_sub minus_div_mult_eq_mod [symmetric])
  have m1: "unat (fbn * of_nat B + of_nat B) = (unat off div B + 1) * B"
    using assms(2) by (subst unat_add_lem [THEN iffD1]) (simp_all add: m uB)
  have lt: "unat off < (unat off div B + 1) * B" using assms(1) by (simp add: dividend_less_div_times)
  then have "off \<le> fbn * of_nat B + of_nat B" unfolding word_le_nat_alt m1 by simp
  then have "unat ((fbn + 1) * of_nat B - off) = (unat off div B + 1) * B - unat off"
    using m1 by (simp add: unat_sub distrib_right)
  moreover have "unat (of_nat n :: u32) = n" using assms(3) by (simp add: unat_of_nat)
  ultimately show "unat (min (of_nat n) ((fbn + 1) * of_nat B - off)) = min n ((unat off div B + 1) * B - unat off)"
    by (simp add: min_def word_le_nat_alt)
qed

lemma within_piece:
  fixes a k b :: nat
  assumes "a mod b + k < b"
  shows "(a + k) div b = a div b" "(a + k) mod b = a mod b + k"
proof -
  have "k < b" using assms by linarith
  then show "(a + k) div b = a div b" using assms by (simp add: div_add1_eq [of a k b])
  show "(a + k) mod b = a mod b + k" using assms mod_add_left_eq [of a b k] by simp
qed

lemma mapped_0 [simp]: "mapped P N M i 0"
  by (simp add: mapped_def)

lemma mapped_nonzero: "mapped P N M i n \<Longrightarrow> k < n \<Longrightarrow> blk P N M (Dat i (k div BSIZE P)) \<noteq> 0"
  by (simp add: mapped_def)

lemma mapped_piece: "0 < BSIZE P \<Longrightarrow> mapped P N M i n \<Longrightarrow> k < n \<Longrightarrow> k div BSIZE P < MAXFILE P"
  by (auto simp: mapped_def less_mult_imp_div_less)

lemma grows_file:
  assumes "grows P I i N M N' M'" "j \<in> I" "mapped P N M j n" "0 < BSIZE P"
  shows "mapped P N' M' j n" "k < n \<Longrightarrow> file_byte P N' M' j k = file_byte P N M j k"
proof -
  have b: "blk P N' M' (Dat j (k div BSIZE P)) = blk P N M (Dat j (k div BSIZE P))"
    "M' (blk P N M (Dat j (k div BSIZE P))) = M (blk P N M (Dat j (k div BSIZE P)))" if "k < n" for k
    using assms that mapped_piece [OF assms(4,3)] mapped_nonzero [OF assms(3)]
    by (auto simp: grows_def simp del: blk.simps)
  show "mapped P N' M' j n" using assms(3) b(1) by (simp add: mapped_def del: blk.simps)
  show "k < n \<Longrightarrow> file_byte P N' M' j k = file_byte P N M j k" using b by (simp add: file_byte_def del: blk.simps)
qed

lemma touched_piece:
  assumes "0 < BSIZE P" "0 < n"
  shows "touched P (off + min n ((off div BSIZE P + 1) * BSIZE P - off)) (n - min n ((off div BSIZE P + 1) * BSIZE P - off)) + 1 \<le> touched P off n"
proof (cases "n \<le> (off div BSIZE P + 1) * BSIZE P - off")
  case True
  then show ?thesis using assms(2) by (simp add: touched_def)
next
  case False
  then show ?thesis using assms touched_next [OF assms(1), of "(off div BSIZE P + 1) * BSIZE P - off" off n] by simp
qed

text \<open>Writing a piece into the block of the file it belongs to.\<close>

lemma piece_appended:
  assumes g: "grown P nm I i N s (N(i := din)) t" and i: "i \<in> I" and mp: "mapped P N (sect P s) i off" and B: "0 < BSIZE P"
    and f: "off div BSIZE P < MAXFILE P" and fit: "off + length ys \<le> MAXFILE P * BSIZE P" and fit1: "off mod BSIZE P + length ys \<le> BSIZE P"
    and blk: "blk P (N(i := din)) (sect P t) (Dat i (off div BSIZE P)) = x" and x0: "x \<noteq> 0" and x: "nm \<le> x"
    and lx: "length (sect P t x) = BSIZE P"
    and s': "img_ok P s'" "sect P s' = (sect P t)(x := overlay (off mod BSIZE P) ys (sect P t x))"
      "sb s' = sb t" "freeinode s' = freeinode t" "freeblock s' = freeblock t"
  shows "appended P nm I i off ys N s (N(i := din)) s'"
proof -
  let ?B = "BSIZE P" and ?f = "off div BSIZE P" and ?N = "N(i := din)" and ?o = "off mod BSIZE P"
  let ?buf = "overlay ?o ys (sect P t x)"
  have imgt: "sb t = sb s" "freeinode t = freeinode s" and okt: "blocks_ok P nm I ?N (sect P t) (unat (freeblock t))"
    and gt: "grows P I i N (sect P s) ?N (sect P t)" and meta: "\<forall>k < nm. sect P t k = sect P s k"
    using g by (simp_all add: grown_def)
  have om: "?f * ?B + ?o = off" by simp
  have e: "(?f + 1) * ?B = ?f * ?B + ?B" by (simp add: distrib_right)
  have u: "live P I (Dat i ?f)" using i f by simp
  note wd = write_data [OF okt u blk [symmetric] x0, where buf = ?buf, folded s'(2)]
  have lv: "live P I (Dat i (k div ?B))" "blk P ?N (sect P t) (Dat i (k div ?B)) \<noteq> 0" if "k < off + length ys" for k
  proof -
    have "k < (?f + 1) * ?B" using that om fit1 e by linarith
    then have "k div ?B < ?f + 1" by (rule less_mult_imp_div_less)
    then have kf: "k div ?B \<le> ?f" by simp
    then show "live P I (Dat i (k div ?B))" using i f by simp
    show "blk P ?N (sect P t) (Dat i (k div ?B)) \<noteq> 0"
    proof (cases "k div ?B = ?f")
      case False
      with kf have "k < off" by (metis div_le_mono le_antisym not_less)
      then show ?thesis using grows_file(1) [OF gt i mp B] by (rule mapped_nonzero [rotated])
    qed (use blk x0 in simp)
  qed
  have "mapped P ?N (sect P s') i (off + length ys)"
    using lv wd(2) fit  by (auto simp: mapped_def simp del: blk.simps live.simps)
  moreover have "file_byte P ?N (sect P s') i k = file_byte P N (sect P s) i k" if "k < off" for k
  proof -
    have "sect P t (x) ! (k mod ?B) = ?buf ! (k mod ?B)" if "k div ?B = ?f"
    proof -
      have "k mod ?B < ?o" using that \<open>k < off\<close> by (metis add_less_cancel_left div_mult_mod_eq)
      then show ?thesis using fit1 lx B by (simp add: nth_overlay)
    qed
    then show ?thesis
      using wd(3) [of i k] lv [of k] that grows_file(2) [OF gt i mp B that] blk
      by (auto simp: file_byte_def simp del: blk.simps live.simps split: if_splits)
  qed
  moreover have "file_byte P ?N (sect P s') i (off + k) = ys ! k" if k: "k < length ys" for k
  proof -
    have ok: "?o + k < ?B" using k fit1 by linarith
    note dm = within_piece [OF ok]
    have "?buf ! (?o + k) = ys ! k" using ok k fit1 lx by (simp add: nth_overlay)
    then show ?thesis using wd(3) [of i "off + k"] lv [of "off + k"] k dm by (simp del: blk.simps live.simps)
  qed
  moreover have "mapped P ?N (sect P s') j n \<and> (\<forall>k < n. file_byte P ?N (sect P s') j k = file_byte P N (sect P s) j k)"
    if j: "j \<in> I" "j \<noteq> i" and m: "mapped P N (sect P s) j n" for j n
  proof -
    note g = grows_file [OF gt j(1) m B]
    have lj: "live P I (Dat j (k div ?B))" "blk P ?N (sect P t) (Dat j (k div ?B)) \<noteq> 0" if "k < n" for k
      using mapped_piece [OF B g(1) that] mapped_nonzero [OF g(1) that] j(1) by simp_all
    then show ?thesis using g wd(2,3) j(2) by (auto simp: mapped_def simp del: blk.simps live.simps)
  qed
  moreover have meta': "\<forall>k < nm. sect P s' k = sect P s k" using meta x(1) s'(2) by simp
  moreover have dd: "d_type din = d_type (N i)" "d_nlink din = d_nlink (N i)" "d_size din = d_size (N i)"
    using gt by (simp_all add: grows_def)
  ultimately show ?thesis using s' imgt wd(1) meta' dd by (simp add: appended_def)
qed

lemma iappend_step_ok:
  assumes lay: "layout_ok P (sb s) nm" and img: "img_ok P s"
    and ok: "blocks_ok P nm I N (sect P s) (unat (freeblock s))" and i: "i \<in> I"
    and xs: "xs \<noteq> []" "length xs < 2 ^ 31" and fit: "unat off + length xs \<le> MAXFILE P * BSIZE P"
    and room: "unat (freeblock s) + 2 * touched P (unat off) (length xs) \<le> FSSIZE P" and mp: "mapped P N (sect P s) i (unat off)"
  shows "\<exists>n1 din s'. iappend_step P (N i, off, xs, s) = Inr (din, off + of_nat n1, drop n1 xs, s')
    \<and> 0 < n1 \<and> n1 \<le> length xs \<and> appended P nm I i (unat off) (take n1 xs) N s (N(i := din)) s'
    \<and> unat (off + of_nat n1) = unat off + n1
    \<and> unat (freeblock s') + 2 * touched P (unat off + n1) (length xs - n1) \<le> unat (freeblock s) + 2 * touched P (unat off) (length xs)"
proof -
  let ?B = "BSIZE P" and ?f = "unat off div BSIZE P"
  define n1 where "n1 = min (length xs) ((?f + 1) * ?B - unat off)"
  have B: "0 < ?B" "MAXFILE P * ?B < 2 ^ 31" using lay unfolding layout_ok_def by blast+
  have "unat off < MAXFILE P * ?B" using fit xs(1) by (cases xs) auto
  then have f: "?f < MAXFILE P" by (rule less_mult_imp_div_less)
  then have top: "(?f + 1) * ?B \<le> MAXFILE P * ?B" by (intro mult_le_mono1) simp
  note w = iappend_words [OF B(1) le_less_trans [OF top B(2)] xs(2)]
  have lt: "unat off < (?f + 1) * ?B" using B(1) by (simp add: dividend_less_div_times)
  have t1: "1 \<le> touched P (unat off) (length xs)" using xs(1) by (simp add: touched_def)
  let ?fbn = "off div of_nat ?B :: u32"
  from iappend_block_ok [OF lay img ok i, of ?fbn] f w(1) room t1 obtain x din t where
    t: "iappend_block P ?fbn (N i) s = Inr (x, din, t)" "grown P nm I i N s (N(i := din)) t"
      "unat (freeblock t) \<le> unat (freeblock s) + 2" "blk P (N(i := din)) (sect P t) (Dat i ?f) = unat x" "x \<noteq> 0"
    by auto
  let ?N = "N(i := din)"
  have imgt: "img_ok P t" "sb t = sb s" "freeinode t = freeinode s" and okt: "blocks_ok P nm I ?N (sect P t) (unat (freeblock t))"
    and gt: "grows P I i N (sect P s) ?N (sect P t)" and meta: "\<forall>k < nm. sect P t k = sect P s k"
    using t(2) by (simp_all add: grown_def)
  have u: "live P I (Dat i ?f)" using i f by simp
  have x0: "unat x \<noteq> 0" using t(5) by (simp add: unat_eq_0)
  have xr: "nm \<le> unat x" "unat x < unat (freeblock t)"
    using okt u t(4) x0 by (auto simp: blocks_ok_def simp del: blk.simps dest!: spec [of _ "Dat i ?f"])
  then have x: "unat x < FSSIZE P" using t(3) room t1 by linarith
  let ?ys = "take n1 xs" and ?o = "unat off mod ?B"
  let ?buf = "overlay ?o ?ys (sect P t (unat x))"
  have om: "?f * ?B + ?o = unat off" by simp
  have e: "(?f + 1) * ?B = ?f * ?B + ?B" by (simp add: distrib_right)
  have "n1 \<le> (?f + 1) * ?B - unat off" by (simp add: n1_def)
  then have fit1: "?o + n1 \<le> ?B" using lt om e by linarith
  have ly: "length ?ys = n1" "n1 \<le> length xs" by (simp_all add: n1_def)
  from sec.update [OF imgt(1) x, of ?o ?ys, unfolded ly(1), OF fit1] obtain s' where
    s': "then_res (rsect P x t) (\<lambda>buf. wsect P x (overlay ?o ?ys buf) t) = Inr s'" "img_ok P s'"
      "sect P s' = (sect P t)(unat x := ?buf)" "sb s' = sb t" "freeinode s' = freeinode t" "freeblock s' = freeblock t"
    by auto
  have lx: "length (sect P t (unat x)) = ?B" by (rule length_sect [OF imgt(1) x])
  note wd = write_data [OF okt u t(4) [symmetric] x0, where buf = ?buf, folded s'(3)]
  have pos: "0 < n1" using xs(1) lt by (simp add: n1_def)
  have offn: "unat (off + of_nat n1) = unat off + n1"
  proof -
    have "n1 \<le> length xs" using ly by simp
    moreover have "(2 :: nat) ^ 31 < 2 ^ 32" by simp
    ultimately have "unat off + n1 < 2 ^ 32" using fit B(2) by linarith
    then show ?thesis by (simp add: unat_word_ariths unat_of_nat)
  qed
  have step: "iappend_step P (N i, off, xs, s) = Inr (din, off + of_nat n1, drop n1 xs, s')"
  proof -
    from s'(1) have "rsect P x t = Inr (sect P t (unat x))" "wsect P x ?buf t = Inr s'"
      using rsect_ok [OF imgt(1) x] by simp_all
    moreover have "min (of_nat (length xs)) ((?fbn + 1) * of_nat ?B - off) = of_nat n1"
      unfolding n1_def w(3) [symmetric] by (rule unat_inverse [symmetric])
    moreover have "unat (min (of_nat (length xs)) ((?fbn + 1) * of_nat ?B - off)) = n1" using w(3) by (simp add: n1_def)
    ultimately show ?thesis using f w(1,2) t(1) by (simp add: iappend_step_def Let_def)
  qed
  have off_ok: "unat off + n1 \<le> MAXFILE P * ?B" using fit ly(2) by linarith
  have app: "appended P nm I i (unat off) ?ys N s ?N s'"
    by (rule piece_appended [OF t(2) i mp B(1) f _ _ t(4) x0 xr(1) lx s'(2,3,4,5,6)]) (use off_ok fit1 ly(1) in simp_all)
  have "touched P (unat off + n1) (length xs - n1) + 1 \<le> touched P (unat off) (length xs)"
    unfolding n1_def using B(1) xs(1) by (intro touched_piece) simp_all
  then show ?thesis using step pos app offn t(3) s'(6)
    by (intro exI [of _ n1] exI [of _ din] exI [of _ s']) (simp add: ly)
qed

lemma appended_nil:
  assumes "img_ok P s" "blocks_ok P nm I N (sect P s) (unat (freeblock s))" "mapped P N (sect P s) i off"
  shows "appended P nm I i off [] N s N s"
  using assms by (simp add: appended_def)

lemma iappend_loop_ok:
  assumes "layout_ok P (sb s) nm" "img_ok P s" "blocks_ok P nm I N (sect P s) (unat (freeblock s))" "i \<in> I"
    and "length xs < 2 ^ 31" "unat off + length xs \<le> MAXFILE P * BSIZE P"
    and "unat (freeblock s) + 2 * touched P (unat off) (length xs) \<le> FSSIZE P" "mapped P N (sect P s) i (unat off)"
  shows "\<exists>din off' s'. loop_res (\<lambda>(din, off, xs, s). xs \<noteq> []) (iappend_step P) (N i, off, xs, s) = Inr (din, off', [], s')
    \<and> unat off' = unat off + length xs \<and> appended P nm I i (unat off) xs N s (N(i := din)) s'
    \<and> unat (freeblock s') \<le> unat (freeblock s) + 2 * touched P (unat off) (length xs)"
  using assms
proof (induction "length xs" arbitrary: xs N s off rule: less_induct)
  case less
  show ?case
  proof (cases "xs = []")
    case True
    then show ?thesis using less.prems
      by (intro exI [of _ "N i"] exI [of _ off] exI [of _ s]) (simp add: appended_nil)
  next
    case False
    from iappend_step_ok [OF less.prems(1-4) False less.prems(5-8)] obtain n1 din s1 where
      1: "iappend_step P (N i, off, xs, s) = Inr (din, off + of_nat n1, drop n1 xs, s1)" "0 < n1" "n1 \<le> length xs"
        "appended P nm I i (unat off) (take n1 xs) N s (N(i := din)) s1" "unat (off + of_nat n1) = unat off + n1"
        "unat (freeblock s1) + 2 * touched P (unat off + n1) (length xs - n1) \<le> unat (freeblock s) + 2 * touched P (unat off) (length xs)"
      by blast
    let ?N = "N(i := din)" and ?off = "off + of_nat n1"
    have p: "length (drop n1 xs) < length xs" "layout_ok P (sb s1) nm" "img_ok P s1"
      "blocks_ok P nm I ?N (sect P s1) (unat (freeblock s1))" "length (drop n1 xs) < 2 ^ 31"
      "unat ?off + length (drop n1 xs) \<le> MAXFILE P * BSIZE P"
      "unat (freeblock s1) + 2 * touched P (unat ?off) (length (drop n1 xs)) \<le> FSSIZE P"
      "mapped P ?N (sect P s1) i (unat ?off)"
      using 1 False less.prems by (simp_all add: appended_def min_absorb2)
    note less.hyps [OF p(1-4) less.prems(4) p(5-8)]
    then obtain din' off' s' where 2: "loop_res (\<lambda>(din, off, xs, s). xs \<noteq> []) (iappend_step P) (din, ?off, drop n1 xs, s1) = Inr (din', off', [], s')"
      "unat off' = unat off + length xs" "appended P nm I i (unat off + n1) (drop n1 xs) ?N s1 (N(i := din')) s'"
      "unat (freeblock s') \<le> unat (freeblock s1) + 2 * touched P (unat off + n1) (length xs - n1)"
      using 1(3,5) by auto
    have "appended P nm I i (unat off) (take n1 xs @ drop n1 xs) N s (N(i := din')) s'"
      by (rule appended_trans [OF 1(4)]) (use 2(3) 1(3) in simp)
    moreover have "loop_res (\<lambda>(din, off, xs, s). xs \<noteq> []) (iappend_step P) (N i, off, xs, s) = Inr (din', off', [], s')"
      using False 1(1) 2(1) by (subst loop_res_unfold) simp
    ultimately show ?thesis using 2(2,4) 1(6) by (intro exI [of _ din'] exI [of _ off'] exI [of _ s']) simp
  qed
qed

section \<open>The file system\<close>

definition live_inodes :: "mkfs \<Rightarrow> u32 set" where
  "live_inodes s = {i. 0 < i \<and> i < freeinode s}"

text \<open>The invariant of the image between two calls, and the contents of a file.\<close>

definition fs_inv :: "fsparam \<Rightarrow> nat \<Rightarrow> mkfs \<Rightarrow> bool" where
  "fs_inv P nm s \<longleftrightarrow> layout_ok P (sb s) nm \<and> img_ok P s \<and> unat (freeinode s) \<le> NINODES
     \<and> blocks_ok P nm (live_inodes s) (inode_at P s) (sect P s) (unat (freeblock s))
     \<and> (\<forall>i \<in> live_inodes s. mapped P (inode_at P s) (sect P s) i (unat (d_size (inode_at P s i))))"

definition file_of :: "fsparam \<Rightarrow> mkfs \<Rightarrow> u32 \<Rightarrow> u8 list" where
  "file_of P s i = map (file_byte P (inode_at P s) (sect P s) i) [0..<unat (d_size (inode_at P s i))]"

lemma live_less: "unat (freeinode s) \<le> NINODES \<Longrightarrow> i \<in> live_inodes s \<Longrightarrow> unat i < NINODES"
  by (auto simp: live_inodes_def word_less_nat_alt)

text \<open>Pointers depend on the inodes' addresses and on the data blocks only.\<close>

lemma blk_cong:
  assumes ok: "blocks_ok P nm I N M fb" and N: "\<And>j. j \<in> I \<Longrightarrow> d_addrs (N' j) = d_addrs (N j)"
    and M: "\<And>k. nm \<le> k \<Longrightarrow> M' k = M k" and nm: "0 < nm"
  shows "live P I a \<Longrightarrow> blk P N' M' a = blk P N M a" "blocks_ok P nm I N' M' fb"
    "0 < BSIZE P \<Longrightarrow> j \<in> I \<Longrightarrow> mapped P N' M' j n = mapped P N M j n"
    "0 < BSIZE P \<Longrightarrow> j \<in> I \<Longrightarrow> mapped P N M j n \<Longrightarrow> k < n \<Longrightarrow> file_byte P N' M' j k = file_byte P N M j k"
proof -
  have used: "nm \<le> blk P N M a" if "live P I a" "blk P N M a \<noteq> 0" for a using ok that by (simp add: blocks_ok_def)
  have ind: "M' (unat (d_addrs (N j) ! NDIRECT P)) = M (unat (d_addrs (N j) ! NDIRECT P))"
    if "j \<in> I" "unat (d_addrs (N j) ! NDIRECT P) \<noteq> 0" for j
    using used [of "Ind j"] that M by simp
  have b: "blk P N' M' a = blk P N M a" if "live P I a" for a
    using that N ind by (cases a) auto
  then show "live P I a \<Longrightarrow> blk P N' M' a = blk P N M a" .
  show "blocks_ok P nm I N' M' fb" using ok b N M unfolding blocks_ok_def by (auto simp del: blk.simps)
  have piece: "live P I (Dat j (k div BSIZE P))" if "0 < BSIZE P" "j \<in> I" "n \<le> MAXFILE P * BSIZE P" "k < n" for j n k
    using that by (auto intro!: less_mult_imp_div_less)
  then show "0 < BSIZE P \<Longrightarrow> j \<in> I \<Longrightarrow> mapped P N' M' j n = mapped P N M j n"
    using b unfolding mapped_def by (metis (no_types, lifting))
  show "file_byte P N' M' j k = file_byte P N M j k" if "0 < BSIZE P" "j \<in> I" "mapped P N M j n" "k < n"
    using b [OF piece [OF that(1,2) _ that(4)]] used [OF piece [OF that(1,2) _ that(4)]] that M
    by (simp add: file_byte_def mapped_def del: blk.simps live.simps)
qed

text \<open>A state whose metadata blocks are those of another has its inodes.\<close>

lemma inode_at_meta:
  assumes "layout_ok P (sb s) nm" "sb s' = sb s" "\<And>k. k < nm \<Longrightarrow> sect P s' k = sect P s k" "unat i < NINODES"
  shows "inode_at P s' i = inode_at P s i"
  using assms by (simp add: inode_at_def layout_ok_def)

lemma fs_inv_layout: "fs_inv P nm s \<Longrightarrow> 0 < nm \<and> 0 < BSIZE P \<and> MAXFILE P * BSIZE P < 2 ^ 31"
  unfolding fs_inv_def layout_ok_def by blast

text \<open>Once the inode is written, the image is the one the inodes in memory described.\<close>

lemma fs_inv_write_inode:
  assumes lay: "layout_ok P (sb s) nm" and img: "img_ok P s" and fi: "unat (freeinode s) \<le> NINODES"
    and N: "\<And>j. j \<in> live_inodes s \<Longrightarrow> j \<noteq> i \<Longrightarrow> inode_at P s j = N j" and i: "i \<in> live_inodes s"
    and ok: "blocks_ok P nm (live_inodes s) N (sect P s) (unat (freeblock s))"
    and mp: "\<And>j. j \<in> live_inodes s \<Longrightarrow> mapped P N (sect P s) j (unat (d_size (N j)))"
  shows "\<exists>s'. winode P i (N i) s = Inr s' \<and> fs_inv P nm s' \<and> sb s' = sb s \<and> freeinode s' = freeinode s \<and> freeblock s' = freeblock s
    \<and> (\<forall>j \<in> live_inodes s. inode_at P s' j = N j
        \<and> file_of P s' j = map (file_byte P N (sect P s) j) [0..<unat (d_size (N j))])
    \<and> other_meta P nm s s'"
proof -
  let ?I = "live_inodes s"
  have len: "length (d_addrs (N i)) = NDIRECT P + 1" using ok i by (simp add: blocks_ok_def)
  from winode_ok [OF lay img live_less [OF fi i] len] obtain s' where
    s': "winode P i (N i) s = Inr s'" "img_ok P s'" "sb s' = sb s" "freeinode s' = freeinode s" "freeblock s' = freeblock s"
      "\<forall>j. unat j < NINODES \<longrightarrow> inode_at P s' j = (if j = i then N i else inode_at P s j)" "\<forall>k \<ge> nm. sect P s' k = sect P s k"
      "other_meta P nm s s'"
    by blast
  have li: "live_inodes s' = ?I" by (simp add: live_inodes_def s'(4))
  have N': "inode_at P s' j = N j" if "j \<in> ?I" for j
    using s'(6) live_less [OF fi that] N [OF that] by auto
  have nm: "0 < nm" and B: "0 < BSIZE P" using lay by (simp_all add: layout_ok_def)
  note cong = blk_cong [OF ok, of "inode_at P s'" "sect P s'"]
  have 1: "blocks_ok P nm ?I (inode_at P s') (sect P s') (unat (freeblock s))"
    "\<And>j n. j \<in> ?I \<Longrightarrow> mapped P (inode_at P s') (sect P s') j n = mapped P N (sect P s) j n"
    "\<And>j n k. j \<in> ?I \<Longrightarrow> mapped P N (sect P s) j n \<Longrightarrow> k < n \<Longrightarrow>
       file_byte P (inode_at P s') (sect P s') j k = file_byte P N (sect P s) j k"
    using cong(2-4) N' s'(7) nm B by simp_all
  have "fs_inv P nm s'" using 1(1,2) lay fi s'(2-5) mp N' by (simp add: fs_inv_def li)
  moreover have "file_of P s' j = map (file_byte P N (sect P s) j) [0..<unat (d_size (N j))]" if "j \<in> ?I" for j
    using 1(3) [OF that mp [OF that]] N' [OF that] by (simp add: file_of_def)
  ultimately show ?thesis using s' N' by blast
qed

definition append_room :: "fsparam \<Rightarrow> mkfs \<Rightarrow> u32 \<Rightarrow> nat \<Rightarrow> bool" where
  "append_room P s i n \<longleftrightarrow> length (file_of P s i) + n \<le> MAXFILE P * BSIZE P
     \<and> unat (freeblock s) + 2 * touched P (length (file_of P s i)) n \<le> FSSIZE P"

lemma length_file_of: "length (file_of P s i) = unat (d_size (inode_at P s i))"
  by (simp add: file_of_def)

lemma iappend_ok:
  assumes inv: "fs_inv P nm s" and i: "i \<in> live_inodes s" and room: "append_room P s i (length xs)"
  shows "\<exists>s'. iappend P i xs s = Inr s' \<and> fs_inv P nm s' \<and> sb s' = sb s \<and> freeinode s' = freeinode s
    \<and> file_of P s' i = file_of P s i @ xs
    \<and> (\<forall>j \<in> live_inodes s. j \<noteq> i \<longrightarrow> file_of P s' j = file_of P s j)
    \<and> (\<forall>j \<in> live_inodes s. d_type (inode_at P s' j) = d_type (inode_at P s j))
    \<and> unat (freeblock s') \<le> unat (freeblock s) + 2 * touched P (length (file_of P s i)) (length xs)
    \<and> other_meta P nm s s'"
proof -
  let ?N = "inode_at P s" and ?M = "sect P s" and ?I = "live_inodes s"
  let ?off = "d_size (?N i)"
  have lay: "layout_ok P (sb s) nm" and img: "img_ok P s" and fi: "unat (freeinode s) \<le> NINODES"
    and ok: "blocks_ok P nm ?I ?N ?M (unat (freeblock s))" and mp: "\<And>j. j \<in> ?I \<Longrightarrow> mapped P ?N ?M j (unat (d_size (?N j)))"
    using inv by (simp_all add: fs_inv_def)
  have r: "unat ?off + length xs \<le> MAXFILE P * BSIZE P" "unat (freeblock s) + 2 * touched P (unat ?off) (length xs) \<le> FSSIZE P"
    using room by (simp_all add: append_room_def length_file_of)
  have small: "length xs < 2 ^ 31" "MAXFILE P * BSIZE P < 2 ^ 32" using r(1) fs_inv_layout [OF inv] by auto
  from iappend_loop_ok [OF lay img ok i small(1) r mp [OF i]] obtain din off' t where
    t: "loop_res (\<lambda>(din, off, xs, s). xs \<noteq> []) (iappend_step P) (?N i, ?off, xs, s) = Inr (din, off', [], t)"
      "unat off' = unat ?off + length xs" "appended P nm ?I i (unat ?off) xs ?N s (?N(i := din)) t"
      "unat (freeblock t) \<le> unat (freeblock s) + 2 * touched P (unat ?off) (length xs)"
    by blast
  let ?d = "din\<lparr>d_size := off'\<rparr>" and ?M' = "sect P t"
  let ?N' = "?N(i := ?d)"
  have a: "img_ok P t" "sb t = sb s" "freeinode t = freeinode s" "blocks_ok P nm ?I (?N(i := din)) ?M' (unat (freeblock t))"
    "\<And>k. k < nm \<Longrightarrow> ?M' k = ?M k" "d_type din = d_type (?N i)" "mapped P (?N(i := din)) ?M' i (unat off')"
    "\<And>k. k < unat ?off \<Longrightarrow> file_byte P (?N(i := din)) ?M' i k = file_byte P ?N ?M i k"
    "\<And>k. k < length xs \<Longrightarrow> file_byte P (?N(i := din)) ?M' i (unat ?off + k) = xs ! k"
    "\<And>j n. j \<in> ?I \<Longrightarrow> j \<noteq> i \<Longrightarrow> mapped P ?N ?M j n \<Longrightarrow> mapped P (?N(i := din)) ?M' j n
       \<and> (\<forall>k < n. file_byte P (?N(i := din)) ?M' j k = file_byte P ?N ?M j k)"
    using t(2,3) by (simp_all add: appended_def)
  have li: "live_inodes t = ?I" by (simp add: live_inodes_def a(3))
  have nm: "0 < nm" "0 < BSIZE P" using fs_inv_layout [OF inv] by simp_all
  have size: "d_addrs (?N' j) = d_addrs ((?N(i := din)) j)" for j by simp
  note cong = blk_cong [where N = "?N(i := din)" and M = ?M' and N' = ?N' and M' = ?M', OF a(4) size refl nm(1)]
  have ok': "blocks_ok P nm ?I ?N' ?M' (unat (freeblock t))" by (rule cong(2))
  have mp': "mapped P ?N' ?M' j (unat (d_size (?N' j)))" if "j \<in> ?I" for j
    using cong(3) [OF nm(2) that] a(7,10) mp [OF that] that by (cases "j = i") simp_all
  have N: "inode_at P t j = ?N' j" if "j \<in> ?I" "j \<noteq> i" for j
    using inode_at_meta [OF lay a(2) a(5) live_less [OF fi that(1)]] that(2) by simp
  from fs_inv_write_inode [of P t nm i ?N'] lay a(1-3) fi li N i ok' mp' obtain s' where
    s': "winode P i ?d t = Inr s'" "fs_inv P nm s'" "sb s' = sb s" "freeinode s' = freeinode s" "freeblock s' = freeblock t"
      "\<And>j. j \<in> ?I \<Longrightarrow> inode_at P s' j = ?N' j \<and> file_of P s' j = map (file_byte P ?N' ?M' j) [0..<unat (d_size (?N' j))]"
      "other_meta P nm t s'"
    by auto
  have "other_meta P nm s t" using a(5) by (simp add: other_meta_def)
  then have "other_meta P nm s s'" using s'(7) a(2) by (rule other_meta_trans)
  moreover have "iappend P i xs s = Inr s'"
    using rinode_ok [OF lay img live_less [OF fi i]] t(1) s'(1) by (simp add: iappend_def)
  moreover have "file_of P s' i = file_of P s i @ xs"
  proof (rule nth_equalityI)
    show "length (file_of P s' i) = length (file_of P s i @ xs)" using s'(6) [OF i] t(2) by (simp add: length_file_of)
    fix k assume "k < length (file_of P s' i)"
    then have k: "k < unat off'" using s'(6) [OF i] by (simp add: length_file_of)
    then have "file_of P s' i ! k = file_byte P (?N(i := din)) ?M' i k"
      using s'(6) [OF i] cong(4) [OF nm(2) i a(7) k] by simp
    then show "file_of P s' i ! k = (file_of P s i @ xs) ! k"
      using a(8) [of k] a(9) [of "k - unat ?off"] k t(2) by (auto simp: nth_append file_of_def)
  qed
  moreover have "file_of P s' j = file_of P s j" if j: "j \<in> ?I" "j \<noteq> i" for j
  proof -
    have "file_byte P ?N' ?M' j k = file_byte P ?N ?M j k" if "k < unat (d_size (?N j))" for k
      using a(10) [OF j mp [OF j(1)]] cong(4) [OF nm(2) j(1) _ that] that by simp
    then show ?thesis unfolding file_of_def [of P s j] using s'(6) [OF j(1)] j(2) by simp
  qed
  moreover have "d_type (inode_at P s' j) = d_type (?N j)" if "j \<in> ?I" for j
    using s'(6) [OF that] a(6) by simp
  ultimately show ?thesis using s' t(4) by (auto simp: length_file_of)
qed

section \<open>New files\<close>

lemma live_inodes_Suc:
  assumes "unat (freeinode s) < NINODES" "0 < freeinode s"
  shows "live_inodes (s\<lparr>freeinode := freeinode s + 1\<rparr>) = insert (freeinode s) (live_inodes s)"
    "unat (freeinode s + 1) = Suc (unat (freeinode s))"
proof -
  show u: "unat (freeinode s + 1) = Suc (unat (freeinode s))"
    using assms(1) by (simp add: NINODES_def unat_word_ariths)
  have "x < freeinode s + 1 \<longleftrightarrow> x < freeinode s \<or> x = freeinode s" for x
    unfolding word_less_nat_alt u word_unat_eq_iff by auto
  then show "live_inodes (s\<lparr>freeinode := freeinode s + 1\<rparr>) = insert (freeinode s) (live_inodes s)"
    using assms(2) by (auto simp: live_inodes_def)
qed

lemma blocks_ok_new_inode:
  assumes ok: "blocks_ok P nm I N M fb" and i: "i \<notin> I" and d: "d_addrs d = replicate (NDIRECT P + 1) 0"
  shows "blocks_ok P nm (insert i I) (N(i := d)) M fb"
proof -
  have "d_addrs d ! f = 0" if "f \<le> NDIRECT P" for f
    unfolding d using that by (subst nth_replicate) simp_all
  then have new: "blk P (N(i := d)) M a = 0" if "live P (insert i I) a" "\<not> live P I a" for a
    using that by (cases a) auto
  have old: "blk P (N(i := d)) M a = blk P N M a" if "live P I a" for a
    using that i by (cases a) auto
  have lv: "live P I a" if "live P (insert i I) a" "blk P (N(i := d)) M a \<noteq> 0" for a
    using new [OF that(1)] that(2) by (cases "live P I a") simp_all
  have used: "nm \<le> blk P N M a \<and> blk P N M a < fb" if "live P I a" "blk P N M a \<noteq> 0" for a
    using ok that by (simp add: blocks_ok_def)
  have inj: "a = b" if "live P I a" "live P I b" "blk P N M a \<noteq> 0" "blk P N M a = blk P N M b" for a b
    using ok that by (simp add: blocks_ok_def)
  have "nm \<le> blk P (N(i := d)) M a \<and> blk P (N(i := d)) M a < fb"
    if "live P (insert i I) a" "blk P (N(i := d)) M a \<noteq> 0" for a
    using used [OF lv [OF that]] old [OF lv [OF that]] that by simp
  moreover have "a = b" if "live P (insert i I) a" "live P (insert i I) b" "blk P (N(i := d)) M a \<noteq> 0"
      "blk P (N(i := d)) M a = blk P (N(i := d)) M b" for a b
  proof (rule inj)
    show a: "live P I a" by (rule lv [OF that(1,3)])
    show b: "live P I b" by (rule lv [OF that(2)]) (use that(3,4) in simp)
    show "blk P N M a \<noteq> 0" "blk P N M a = blk P N M b" using that(3,4) unfolding old [OF a] old [OF b] .
  qed
  moreover have "\<forall>j \<in> insert i I. length (d_addrs ((N(i := d)) j)) = NDIRECT P + 1"
    using ok d by (auto simp: blocks_ok_def)
  ultimately show ?thesis using ok unfolding blocks_ok_def by (simp del: blk.simps live.simps)
qed

lemma mkfs_freeinode [simp]:
  "sect P (s\<lparr>freeinode := v\<rparr>) = sect P s" "img_ok P (s\<lparr>freeinode := v\<rparr>) = img_ok P s"
  "inode_at P (s\<lparr>freeinode := v\<rparr>) = inode_at P s"
  by (simp_all add: sect_def fun_eq_iff img_ok_def inode_at_def)

lemma ialloc_ok:
  assumes inv: "fs_inv P nm s" and fi: "unat (freeinode s) < NINODES" "0 < freeinode s"
  shows "\<exists>s'. ialloc P type s = Inr (freeinode s, s') \<and> fs_inv P nm s' \<and> sb s' = sb s
    \<and> freeinode s' = freeinode s + 1 \<and> freeblock s' = freeblock s \<and> live_inodes s' = insert (freeinode s) (live_inodes s)
    \<and> file_of P s' (freeinode s) = [] \<and> d_type (inode_at P s' (freeinode s)) = type
    \<and> (\<forall>j \<in> live_inodes s. file_of P s' j = file_of P s j \<and> d_type (inode_at P s' j) = d_type (inode_at P s j))
    \<and> other_meta P nm s s'"
proof -
  let ?i = "freeinode s" and ?N = "inode_at P s" and ?M = "sect P s"
  let ?d = "\<lparr>d_type = type, d_nlink = 1, d_size = 0, d_addrs = replicate (NDIRECT P + 1) 0\<rparr> :: dinode"
  let ?s = "s\<lparr>freeinode := freeinode s + 1\<rparr>" and ?N' = "?N(?i := ?d)"
  note li = live_inodes_Suc [OF fi]
  have ni: "?i \<notin> live_inodes s" by (simp add: live_inodes_def)
  have inv': "layout_ok P (sb s) nm" "img_ok P s" "blocks_ok P nm (live_inodes s) ?N ?M (unat (freeblock s))"
    "\<And>j. j \<in> live_inodes s \<Longrightarrow> mapped P ?N ?M j (unat (d_size (?N j)))"
    using inv by (simp_all add: fs_inv_def)
  have nm: "0 < nm" "0 < BSIZE P" using fs_inv_layout [OF inv] by simp_all
  have ok: "blocks_ok P nm (live_inodes ?s) ?N' ?M (unat (freeblock ?s))"
    unfolding li using blocks_ok_new_inode [OF inv'(3) ni, of ?d] by simp
  have same: "d_addrs (?N' j) = d_addrs (?N j)" if "j \<in> live_inodes s" for j using that ni by auto
  have cong: "\<And>j n. j \<in> live_inodes s \<Longrightarrow> mapped P ?N' ?M j n = mapped P ?N ?M j n"
    "\<And>j n k. j \<in> live_inodes s \<Longrightarrow> mapped P ?N ?M j n \<Longrightarrow> k < n \<Longrightarrow> file_byte P ?N' ?M j k = file_byte P ?N ?M j k"
    using blk_cong(3,4) [OF inv'(3), of ?N' ?M] same nm by blast+
  have mp: "mapped P ?N' ?M j (unat (d_size (?N' j)))" if "j \<in> live_inodes ?s" for j
  proof (cases "j = ?i")
    case False
    then have "j \<in> live_inodes s" using that unfolding li by simp
    from cong(1) [OF this] inv'(4) [OF this] False show ?thesis by simp
  qed simp
  have "\<exists>s'. winode P ?i (?N' ?i) ?s = Inr s' \<and> fs_inv P nm s' \<and> sb s' = sb ?s \<and> freeinode s' = freeinode ?s \<and> freeblock s' = freeblock ?s
    \<and> (\<forall>j \<in> live_inodes ?s. inode_at P s' j = ?N' j
        \<and> file_of P s' j = map (file_byte P ?N' (sect P ?s) j) [0..<unat (d_size (?N' j))])
    \<and> other_meta P nm ?s s'"
    by (rule fs_inv_write_inode [where N = ?N' and s = ?s and i = ?i])
      (use inv' ok mp fi li in simp_all)
  then obtain s' where w: "winode P ?i ?d ?s = Inr s'" "fs_inv P nm s'" "sb s' = sb ?s" "freeinode s' = freeinode ?s"
    "freeblock s' = freeblock ?s" and all: "\<forall>j \<in> insert ?i (live_inodes s). inode_at P s' j = ?N' j
      \<and> file_of P s' j = map (file_byte P ?N' ?M j) [0..<unat (d_size (?N' j))]"
    and om: "other_meta P nm ?s s'"
    unfolding li(1) fun_upd_same mkfs_freeinode by blast
  have s': "winode P ?i ?d ?s = Inr s'" "fs_inv P nm s'" "sb s' = sb s" "freeinode s' = ?i + 1" "freeblock s' = freeblock s"
    using w by simp_all
  have s'6: "inode_at P s' j = ?N' j" "file_of P s' j = map (file_byte P ?N' ?M j) [0..<unat (d_size (?N' j))]"
    if "j = ?i \<or> j \<in> live_inodes s" for j
    using all that by blast+
  have "live_inodes s' = insert ?i (live_inodes s)" using li s'(4) by (simp add: live_inodes_def)
  moreover have "file_of P s' j = file_of P s j \<and> d_type (inode_at P s' j) = d_type (?N j)" if "j \<in> live_inodes s" for j
    using s'6 [of j] that ni cong(2) [OF that inv'(4) [OF that]] unfolding file_of_def [of P s j] by auto
  moreover have "other_meta P nm s s'" using om by (simp add: other_meta_def)
  ultimately show ?thesis using s' s'6 [of ?i] by (simp add: ialloc_def)
qed

section \<open>iappend refines appending to a list\<close>

text \<open>The abstract file system: what each inode number holds.\<close>

definition files :: "fsparam \<Rightarrow> mkfs \<Rightarrow> u32 \<Rightarrow> u8 list option" where
  "files P s i = (if i \<in> live_inodes s then Some (file_of P s i) else None)"

lemma files_update:
  assumes "live_inodes s' = insert i (live_inodes s)" "\<And>j. j \<in> live_inodes s \<Longrightarrow> j \<noteq> i \<Longrightarrow> file_of P s' j = file_of P s j"
  shows "files P s' = (files P s)(i \<mapsto> file_of P s' i)"
  using assms by (auto simp: files_def fun_eq_iff)

text \<open>
  C15: on a consistent image with room, \<open>iappend\<close> returns, keeps the image consistent and refines the
  abstract operation: the file of inode \<open>i\<close> is its old contents followed by \<open>xs\<close>, through direct
  and indirect blocks, and every other file is unchanged.
\<close>

theorem iappend_refines:
  assumes "fs_inv P nm s" "i \<in> live_inodes s" "append_room P s i (length xs)"
  shows "\<exists>s'. iappend P i xs s = Inr s' \<and> fs_inv P nm s' \<and> files P s' = (files P s)(i \<mapsto> file_of P s i @ xs)"
proof -
  from iappend_ok [OF assms] obtain s' where s': "iappend P i xs s = Inr s'" "fs_inv P nm s'" "freeinode s' = freeinode s"
    "file_of P s' i = file_of P s i @ xs" "\<forall>j \<in> live_inodes s. j \<noteq> i \<longrightarrow> file_of P s' j = file_of P s j"
    by blast
  have "live_inodes s' = insert i (live_inodes s)" using assms(2) s'(3) by (auto simp: live_inodes_def)
  from files_update [OF this] s' show ?thesis by simp
qed

text \<open>
  \<open>ialloc\<close> on a consistent image with an inode left returns the next inode number and adds an empty
  file of the given type; every other file is unchanged and no data block is used.
\<close>

theorem ialloc_refines:
  assumes "fs_inv P nm s" "unat (freeinode s) < NINODES" "0 < freeinode s"
  shows "\<exists>s'. ialloc P type s = Inr (freeinode s, s') \<and> fs_inv P nm s' \<and> files P s' = (files P s)(freeinode s \<mapsto> [])
    \<and> d_type (inode_at P s' (freeinode s)) = type \<and> freeblock s' = freeblock s"
proof -
  from ialloc_ok [OF assms, of type] obtain s' where s': "ialloc P type s = Inr (freeinode s, s')" "fs_inv P nm s'"
    "live_inodes s' = insert (freeinode s) (live_inodes s)" "file_of P s' (freeinode s) = []"
    "d_type (inode_at P s' (freeinode s)) = type" "freeblock s' = freeblock s"
    "\<forall>j \<in> live_inodes s. file_of P s' j = file_of P s j"
    by blast
  from files_update [OF s'(3)] s' show ?thesis by simp
qed

text \<open>
  A file that already has the largest size is not extended: \<open>iappend\<close> of any bytes stops at its
  assertion.
\<close>

theorem iappend_full:
  assumes "fs_inv P nm s" "i \<in> live_inodes s" "length (file_of P s i) = MAXFILE P * BSIZE P" "xs \<noteq> []"
  shows "iappend P i xs s = Inl (Panic ''fbn < MAXFILE'')"
proof -
  let ?d = "inode_at P s i"
  have lay: "layout_ok P (sb s) nm" and B: "0 < BSIZE P" "MAXFILE P * BSIZE P < 2 ^ 31"
    using assms(1) fs_inv_layout [OF assms(1)] by (simp_all add: fs_inv_def)
  have i: "unat i < NINODES" using assms(1,2) live_less [of s i] by (simp add: fs_inv_def)
  have size: "unat (d_size ?d) = MAXFILE P * BSIZE P" using assms(3) by (simp add: length_file_of)
  have "0 < MAXFILE P" using lay B(1) by (auto simp: layout_ok_def)
  then have "BSIZE P \<le> MAXFILE P * BSIZE P" by simp
  moreover have "(2 :: nat) ^ 31 < 2 ^ 32" by simp
  ultimately have "BSIZE P < 2 ^ 32" using B(2) by linarith
  then have "unat (of_nat (BSIZE P) :: u32) = BSIZE P" by (simp add: unat_of_nat)
  then have "\<not> unat (d_size ?d div of_nat (BSIZE P)) < MAXFILE P" using size B(1) by (simp add: unat_div)
  then have "iappend_step P (?d, d_size ?d, xs, s) = Inl (Panic ''fbn < MAXFILE'')" by (simp add: iappend_step_def Let_def)
  then have "loop_res (\<lambda>(din, off, xs, s). xs \<noteq> []) (iappend_step P) (?d, d_size ?d, xs, s) = Inl (Panic ''fbn < MAXFILE'')"
    using assms(4) by (subst loop_res_unfold) simp
  moreover have "rinode P i s = Inr ?d" using assms(1) i by (intro rinode_ok [of P s nm]) (simp_all add: fs_inv_def)
  ultimately show ?thesis by (simp add: iappend_def)
qed

section \<open>Witnesses\<close>

lemma sect_zero: "img s = replicate (n * BSIZE P) 0 \<Longrightarrow> k < n \<Longrightarrow> sect P s k = replicate (BSIZE P) 0"
proof -
  assume "img s = replicate (n * BSIZE P) 0" "k < n"
  moreover have "k * BSIZE P + BSIZE P \<le> n * BSIZE P" using mult_le_mono1 [of "Suc k" n "BSIZE P"] \<open>k < n\<close> by (simp add: add.commute)
  ultimately show ?thesis by (simp add: sect_def min_def)
qed

lemma fresh_fs_inv:
  assumes "layout_ok P (sb s) nm" "img_ok P s" "freeinode s = 1" "unat (freeblock s) = nm"
    "\<And>k. nm \<le> k \<Longrightarrow> k < FSSIZE P \<Longrightarrow> sect P s k = replicate (BSIZE P) 0"
  shows "fs_inv P nm s" "live_inodes s = {}"
proof -
  have "\<not> (0 < i \<and> i < 1)" for i :: u32 by (auto simp: word_less_nat_alt)
  then show li: "live_inodes s = {}" using assms(3) by (auto simp: live_inodes_def)
  have "\<not> live P {} a" for a by (cases a) simp_all
  then show "fs_inv P nm s" unfolding fs_inv_def li blocks_ok_def using assms by (simp add: NINODES_def)
qed

lemma demo_fs_inv: "fs_inv demo_param 57 demo_state" "live_inodes demo_state = {}"
  using fresh_fs_inv [OF _ demo_img, of 57] demo_layout sect_zero [of demo_state 200 demo_param]
  by (simp_all add: demo_state_def demo_param_def)

lemma demo_file:
  "\<exists>s. fs_inv demo_param 57 s \<and> live_inodes s = {1} \<and> file_of demo_param s 1 = [] \<and> freeblock s = 57"
proof -
  have "freeinode demo_state = 1" "freeblock demo_state = 57" by (simp_all add: demo_state_def)
  with ialloc_ok [OF demo_fs_inv(1), of 2] show ?thesis by (auto simp: demo_fs_inv(2) NINODES_def)
qed

theorem ialloc_refines_witness:
  "\<exists>s'. ialloc demo_param 2 demo_state = Inr (1, s') \<and> files demo_param s' = [1 \<mapsto> []]"
proof -
  have "freeinode demo_state = 1" by (simp add: demo_state_def)
  moreover have "files demo_param demo_state = Map.empty" by (simp add: files_def demo_fs_inv(2) fun_eq_iff)
  ultimately show ?thesis using ialloc_refines [OF demo_fs_inv(1), of 2] by (auto simp: NINODES_def)
qed

theorem iappend_refines_witness:
  "\<exists>s s'. files demo_param s = [1 \<mapsto> []] \<and> iappend demo_param 1 (replicate 100 9) s = Inr s'
    \<and> files demo_param s' = [1 \<mapsto> replicate 100 9]"
proof -
  from demo_file obtain s where s: "fs_inv demo_param 57 s" "live_inodes s = {1}" "file_of demo_param s 1 = []" "freeblock s = 57"
    by blast
  have f: "files demo_param s = [1 \<mapsto> []]" using s(2,3) by (auto simp: files_def fun_eq_iff)
  have "append_room demo_param s 1 (length (replicate 100 (9 :: u8)))"
    using s by (simp add: append_room_def touched_def demo_param_def)
  with iappend_refines [OF s(1), of 1 "replicate 100 9"] s f show ?thesis by fastforce
qed

theorem iappend_full_witness:
  "\<exists>s. length (file_of demo_param s 1) = 1088 \<and> iappend demo_param 1 [1] s = Inl (Panic ''fbn < MAXFILE'')"
proof -
  from demo_file obtain s where s: "fs_inv demo_param 57 s" "live_inodes s = {1}" "file_of demo_param s 1 = []" "freeblock s = 57"
    by blast
  have "append_room demo_param s 1 (length (replicate 1088 (9 :: u8)))"
    using s by (simp add: append_room_def touched_def demo_param_def)
  from iappend_ok [OF s(1) _ this] s obtain t where t: "fs_inv demo_param 57 t" "freeinode t = freeinode s" "length (file_of demo_param t 1) = 1088"
    by auto
  have "1 \<in> live_inodes t" using s(2) t(2) by (auto simp: live_inodes_def)
  then have "iappend demo_param 1 [1] t = Inl (Panic ''fbn < MAXFILE'')"
    using t by (intro iappend_full) (simp_all add: demo_param_def)
  then show ?thesis using t(3) by blast
qed

end
