(* ===== verification/Mkfs_Main.thy ===== *)
theory Mkfs_Main
  imports Mkfs
begin

text \<open>
  \<open>main\<close> of \<open>mkfs/mkfs.c\<close>: the image is zeroed, the superblock and the root directory are written,
  every file named on the command line is copied into the image, and the bitmap is written. The
  last section shows what the finished image holds.
\<close>

section \<open>main\<close>

text \<open>
  Lines 157 and 158: the file is read a block at a time and appended. \<open>bytes\<close> is what the host's \<open>read\<close>
  delivers, in whole blocks but for the last; an error of \<open>read\<close> ends the file there, as in the code.
\<close>

function mkfs_copy :: "fsparam \<Rightarrow> u32 \<Rightarrow> u8 list \<Rightarrow> mkfs \<Rightarrow> mkfs res" where
  "mkfs_copy P inum bytes s =
     (if take (BSIZE P) bytes = [] then Inr s
      else then_res (iappend P inum (take (BSIZE P) bytes) s) (mkfs_copy P inum (drop (BSIZE P) bytes)))"
  by pat_completeness auto
termination
  by (relation "measure (\<lambda>(P, inum, bytes, s). length bytes)") auto

declare mkfs_copy.simps [simp del]

definition short_name :: "string \<Rightarrow> string" where
  "short_name arg = (if take 5 arg = ''user/'' then drop 5 arg else arg)"

definition skip_underscore :: "string \<Rightarrow> string" where
  "skip_underscore name = (case name of [] \<Rightarrow> [] | c # cs \<Rightarrow> if c = CHR ''_'' then cs else name)"

definition add_dirent :: "fsparam \<Rightarrow> u32 \<Rightarrow> u32 \<Rightarrow> string \<Rightarrow> mkfs \<Rightarrow> mkfs res" where
  "add_dirent P rootino inum name s =
     iappend P rootino (dirent_bytes P (xshort (ucast inum)) (take (DIRSIZ P) name)) s"

definition mkfs_file :: "fsparam \<Rightarrow> (string \<Rightarrow> u8 list option) \<Rightarrow> u32 \<Rightarrow> string \<Rightarrow> mkfs \<Rightarrow> mkfs res" where
  "mkfs_file P host rootino arg s =
     (let shortname = short_name arg
      in if CHR ''/'' \<in> set shortname then Inl (Panic ''index(shortname, slash) == 0'')
         else case host arg of
             None \<Rightarrow> Inl (Panic arg)
           | Some bytes \<Rightarrow>
               let shortname = skip_underscore shortname
               in then_res (ialloc P (T_FILE P) s) (\<lambda>(inum, s).
                  then_res (add_dirent P rootino inum shortname s) (\<lambda>s.
                  mkfs_copy P inum bytes s)))"

fun mkfs_files :: "fsparam \<Rightarrow> (string \<Rightarrow> u8 list option) \<Rightarrow> u32 \<Rightarrow> string list \<Rightarrow> mkfs \<Rightarrow> mkfs res" where
  "mkfs_files P host rootino [] s = Inr s"
| "mkfs_files P host rootino (arg # args) s = then_res (mkfs_file P host rootino arg s) (mkfs_files P host rootino args)"

fun zero_blocks :: "fsparam \<Rightarrow> nat \<Rightarrow> nat \<Rightarrow> mkfs \<Rightarrow> mkfs res" where
  "zero_blocks P 0 i s = Inr s"
| "zero_blocks P (Suc n) i s = then_res (wsect P (of_nat i) (replicate (BSIZE P) 0) s) (zero_blocks P n (Suc i))"

definition nbitmap :: "fsparam \<Rightarrow> nat" where
  "nbitmap P = FSSIZE P div (BSIZE P * 8) + 1"

definition ninodeblocks :: "fsparam \<Rightarrow> nat" where
  "ninodeblocks P = NINODES div IPB P + 1"

definition nmeta :: "fsparam \<Rightarrow> nat" where
  "nmeta P = 2 + LOGSIZE P + ninodeblocks P + nbitmap P"

definition mkfs_sb :: "fsparam \<Rightarrow> superblock" where
  "mkfs_sb P = \<lparr>sb_magic = FSMAGIC P, sb_size = xint (of_nat (FSSIZE P)),
     sb_nblocks = xint (of_int (int (FSSIZE P) - int (nmeta P))), sb_ninodes = xint (of_nat NINODES),
     sb_nlog = xint (of_nat (LOGSIZE P)), sb_logstart = xint 2, sb_inodestart = xint (of_nat (2 + LOGSIZE P)),
     sb_bmapstart = xint (of_nat (2 + LOGSIZE P + ninodeblocks P))\<rparr>"

text \<open>Lines 163 to 168: the size of the root directory is rounded up to the next block.\<close>

definition fix_root :: "fsparam \<Rightarrow> u32 \<Rightarrow> mkfs \<Rightarrow> mkfs res" where
  "fix_root P rootino s =
     then_res (rinode P rootino s) (\<lambda>din.
     let off = xint (d_size din);
         off = (off div of_nat (BSIZE P) + 1) * of_nat (BSIZE P)
     in winode P rootino (din\<lparr>d_size := xint off\<rparr>) s)"

definition mkfs_main :: "fsparam \<Rightarrow> (string \<Rightarrow> u8 list option) \<Rightarrow> (string \<Rightarrow> bool) \<Rightarrow> string list \<Rightarrow> mkfs res" where
  "mkfs_main P host can_create argv =
     (case argv of
        prog # fsimg # args \<Rightarrow>
          if BSIZE P mod sizeof_dinode P \<noteq> 0 then Inl (Panic ''(BSIZE % sizeof(struct dinode)) == 0'')
          else if BSIZE P mod sizeof_dirent P \<noteq> 0 then Inl (Panic ''(BSIZE % sizeof(struct dirent)) == 0'')
          else if \<not> can_create fsimg then Inl (Panic fsimg)
          else
            let s = \<lparr>img = [], sb = mkfs_sb P, freeinode = 1, freeblock = of_nat (nmeta P)\<rparr>
            in then_res (zero_blocks P (FSSIZE P) 0 s) (\<lambda>s.
               then_res (wsect P 1 (overlay 0 (sb_bytes P (sb s)) (replicate (BSIZE P) 0)) s) (\<lambda>s.
               then_res (ialloc P (T_DIR P) s) (\<lambda>(rootino, s).
               if rootino \<noteq> ROOTINO P then Inl (Panic ''rootino == ROOTINO'')
               else
                 then_res (add_dirent P rootino rootino ''.'' s) (\<lambda>s.
                 then_res (add_dirent P rootino rootino ''..'' s) (\<lambda>s.
                 then_res (mkfs_files P host rootino args s) (\<lambda>s.
                 then_res (fix_root P rootino s) (\<lambda>s.
                 balloc P (freeblock s) s)))))))
      | _ \<Rightarrow> Inl (Panic ''Usage: mkfs fs.img files...''))"

section \<open>Copying a file\<close>

text \<open>A chunk of at most one block touches at most two blocks.\<close>

lemma touched_chunk:
  assumes "n \<le> BSIZE P" "0 < BSIZE P"
  shows "touched P off n \<le> 2"
proof -
  have "(off + n - 1) div BSIZE P \<le> (off + BSIZE P) div BSIZE P" using assms by (intro div_le_mono) simp
  moreover have "(off + BSIZE P) div BSIZE P = off div BSIZE P + 1" using assms(2) by (intro div_add_self2) simp
  ultimately show ?thesis by (simp add: touched_def le_diff_conv)
qed

text \<open>Blocks that are surely enough for the contents of one file.\<close>

definition file_cost :: "fsparam \<Rightarrow> u8 list \<Rightarrow> nat" where
  "file_cost P bytes = 4 * ((length bytes + BSIZE P - 1) div BSIZE P)"

lemma file_cost_chunk:
  assumes "bytes \<noteq> []" "0 < BSIZE P"
  shows "file_cost P (drop (BSIZE P) bytes) + 4 \<le> file_cost P bytes"
proof (cases "length bytes \<le> BSIZE P")
  case True
  have "1 \<le> (length bytes + BSIZE P - 1) div BSIZE P"
    using assms div_le_mono [of "BSIZE P" "length bytes + BSIZE P - 1" "BSIZE P"] by (cases bytes) auto
  then show ?thesis using True assms(2) by (simp add: file_cost_def)
next
  case False
  have "length bytes + BSIZE P - 1 = (length bytes - BSIZE P + BSIZE P - 1) + BSIZE P" using False assms(2) by simp
  then have "(length bytes + BSIZE P - 1) div BSIZE P = (length bytes - BSIZE P + BSIZE P - 1) div BSIZE P + 1"
    using assms(2) by (metis div_add_self2 less_numeral_extra(3))
  then show ?thesis by (simp add: file_cost_def)
qed

lemma mkfs_copy_ok:
  assumes "fs_inv P nm s" "i \<in> live_inodes s" "length (file_of P s i) + length bytes \<le> MAXFILE P * BSIZE P"
    and "unat (freeblock s) + file_cost P bytes \<le> FSSIZE P"
  shows "\<exists>s'. mkfs_copy P i bytes s = Inr s' \<and> fs_inv P nm s' \<and> sb s' = sb s \<and> freeinode s' = freeinode s
    \<and> file_of P s' i = file_of P s i @ bytes
    \<and> (\<forall>j \<in> live_inodes s. j \<noteq> i \<longrightarrow> file_of P s' j = file_of P s j)
    \<and> (\<forall>j \<in> live_inodes s. d_type (inode_at P s' j) = d_type (inode_at P s j))
    \<and> unat (freeblock s') \<le> unat (freeblock s) + file_cost P bytes \<and> other_meta P nm s s'"
  using assms
proof (induction P i bytes s rule: mkfs_copy.induct)
  case (1 P i bytes s)
  have B: "0 < BSIZE P" using fs_inv_layout [OF 1(2)] by simp
  show ?case
  proof (cases "bytes = []")
    case True
    then show ?thesis using 1(2) by (simp add: mkfs_copy.simps other_meta_def)
  next
    case False
    let ?c = "take (BSIZE P) bytes" and ?r = "drop (BSIZE P) bytes"
    have ne: "?c \<noteq> []" using False B by simp
    have t: "touched P (length (file_of P s i)) (length ?c) \<le> 2" by (rule touched_chunk) (use B in simp_all)
    note cost = file_cost_chunk [OF False B]
    have "append_room P s i (length ?c)" using 1(4,5) t cost by (auto simp: append_room_def)
    from iappend_ok [OF 1(2,3) this] obtain s1 where
      s1: "iappend P i ?c s = Inr s1" "fs_inv P nm s1" "sb s1 = sb s" "freeinode s1 = freeinode s" "file_of P s1 i = file_of P s i @ ?c"
        "\<forall>j \<in> live_inodes s. j \<noteq> i \<longrightarrow> file_of P s1 j = file_of P s j"
        "\<forall>j \<in> live_inodes s. d_type (inode_at P s1 j) = d_type (inode_at P s j)"
        "unat (freeblock s1) \<le> unat (freeblock s) + 2 * touched P (length (file_of P s i)) (length ?c)" "other_meta P nm s s1"
      by blast
    have li: "live_inodes s1 = live_inodes s" by (simp add: live_inodes_def s1(4))
    have fb: "unat (freeblock s1) + file_cost P ?r \<le> unat (freeblock s) + file_cost P bytes" using s1(8) t cost by linarith
    have pre: "i \<in> live_inodes s1" "length (file_of P s1 i) + length ?r \<le> MAXFILE P * BSIZE P"
      "unat (freeblock s1) + file_cost P ?r \<le> FSSIZE P"
      using 1(3-5) s1(5) li fb by simp_all
    from 1(1) [OF ne s1(1,2) pre] obtain s2 where
      "mkfs_copy P i ?r s1 = Inr s2" "fs_inv P nm s2" "sb s2 = sb s" "freeinode s2 = freeinode s"
      "file_of P s2 i = file_of P s i @ bytes" "\<forall>j \<in> live_inodes s. j \<noteq> i \<longrightarrow> file_of P s2 j = file_of P s j"
      "\<forall>j \<in> live_inodes s. d_type (inode_at P s2 j) = d_type (inode_at P s j)"
      "unat (freeblock s2) \<le> unat (freeblock s1) + file_cost P ?r" "other_meta P nm s s2"
      using s1 li other_meta_trans [OF s1(9) _ s1(3)] by auto
    then show ?thesis using ne s1(1) fb by (subst mkfs_copy.simps) simp
  qed
qed

section \<open>The abstract image\<close>

text \<open>The bytes of a directory entry, and what the arguments add to the file system.\<close>

definition entry :: "fsparam \<Rightarrow> u32 \<Rightarrow> string \<Rightarrow> u8 list" where
  "entry P inum name = dirent_bytes P (ucast inum) (take (DIRSIZ P) name)"

fun add_files :: "fsparam \<Rightarrow> (string \<Rightarrow> u8 list option) \<Rightarrow> u32 \<Rightarrow> string list \<Rightarrow> u32 \<Rightarrow>
    (u32 \<Rightarrow> u8 list option) \<Rightarrow> (u32 \<Rightarrow> u8 list option)" where
  "add_files P host root [] n F = F"
| "add_files P host root (arg # args) n F =
     add_files P host root args (n + 1)
       (F(root \<mapsto> the (F root) @ entry P n (skip_underscore (short_name arg)), n \<mapsto> the (host arg)))"

text \<open>The arguments name files that exist, with no slash left in the name, and small enough.\<close>

definition args_ok :: "fsparam \<Rightarrow> (string \<Rightarrow> u8 list option) \<Rightarrow> string list \<Rightarrow> bool" where
  "args_ok P host args \<longleftrightarrow> (\<forall>arg \<in> set args. CHR ''/'' \<notin> set (short_name arg)
     \<and> (\<exists>bytes. host arg = Some bytes \<and> length bytes \<le> MAXFILE P * BSIZE P))"

definition args_cost :: "fsparam \<Rightarrow> (string \<Rightarrow> u8 list option) \<Rightarrow> string list \<Rightarrow> nat" where
  "args_cost P host args = (\<Sum>arg \<leftarrow> args. 4 + file_cost P (the (host arg)))"

definition dirent_ok :: "fsparam \<Rightarrow> bool" where
  "dirent_ok P \<longleftrightarrow> sizeof_dirent P \<le> BSIZE P \<and> (\<forall>i name. length (dirent_bytes P i name) = sizeof_dirent P)"

text \<open>What a step of \<open>main\<close> keeps besides the files: the root, the invariant, the superblock.\<close>

definition stepped :: "fsparam \<Rightarrow> nat \<Rightarrow> mkfs \<Rightarrow> mkfs \<Rightarrow> nat \<Rightarrow> bool" where
  "stepped P nm s s' cost \<longleftrightarrow> fs_inv P nm s' \<and> sb s' = sb s \<and> live_inodes s \<subseteq> live_inodes s'
     \<and> unat (freeblock s') \<le> unat (freeblock s) + cost
     \<and> (\<forall>j \<in> live_inodes s. d_type (inode_at P s' j) = d_type (inode_at P s j))
     \<and> other_meta P nm s s'"

lemma stepped_trans:
  assumes "stepped P nm s s1 a" "stepped P nm s1 s2 b"
  shows "stepped P nm s s2 (a + b)"
proof -
  have "other_meta P nm s s2" using assms other_meta_trans [of P nm s s1 s2] by (auto simp: stepped_def)
  then show ?thesis using assms by (auto simp: stepped_def)
qed

lemma files_live: "i \<in> live_inodes s \<Longrightarrow> the (files P s i) = file_of P s i"
  by (simp add: files_def)

lemma add_dirent_ok:
  assumes "fs_inv P nm s" "root \<in> live_inodes s" "dirent_ok P"
    and "length (file_of P s root) + sizeof_dirent P \<le> MAXFILE P * BSIZE P" "unat (freeblock s) + 4 \<le> FSSIZE P"
  shows "\<exists>s'. add_dirent P root inum name s = Inr s' \<and> stepped P nm s s' 4 \<and> freeinode s' = freeinode s
    \<and> files P s' = (files P s)(root \<mapsto> file_of P s root @ entry P inum name)"
proof -
  let ?e = "entry P inum name"
  have e: "length ?e = sizeof_dirent P" "sizeof_dirent P \<le> BSIZE P" using assms(3) by (simp_all add: dirent_ok_def entry_def)
  have B: "0 < BSIZE P" using fs_inv_layout [OF assms(1)] by simp
  have t: "touched P (length (file_of P s root)) (length ?e) \<le> 2" by (rule touched_chunk) (use e B in simp_all)
  have "append_room P s root (length ?e)" using assms(4,5) t e by (simp add: append_room_def)
  from iappend_ok [OF assms(1,2) this] obtain s' where
    s': "iappend P root ?e s = Inr s'" "fs_inv P nm s'" "sb s' = sb s" "freeinode s' = freeinode s" "file_of P s' root = file_of P s root @ ?e"
      "\<forall>j \<in> live_inodes s. j \<noteq> root \<longrightarrow> file_of P s' j = file_of P s j"
      "\<forall>j \<in> live_inodes s. d_type (inode_at P s' j) = d_type (inode_at P s j)"
      "unat (freeblock s') \<le> unat (freeblock s) + 2 * touched P (length (file_of P s root)) (length ?e)" "other_meta P nm s s'"
    by blast
  have li: "live_inodes s' = insert root (live_inodes s)" using assms(2) s'(4) by (auto simp: live_inodes_def)
  have "files P s' = (files P s)(root \<mapsto> file_of P s' root)" using s'(6) by (intro files_update [OF li]) simp
  moreover have "stepped P nm s s' 4" using s' t li by (auto simp: stepped_def)
  ultimately show ?thesis using s' by (auto simp: add_dirent_def entry_def)
qed

lemma mkfs_file_ok:
  assumes inv: "fs_inv P nm s" and root: "root \<in> live_inodes s" and fi: "unat (freeinode s) < NINODES" and de: "dirent_ok P"
    and arg: "CHR ''/'' \<notin> set (short_name arg)" "host arg = Some bytes" "length bytes \<le> MAXFILE P * BSIZE P"
    and size: "length (file_of P s root) + sizeof_dirent P \<le> MAXFILE P * BSIZE P"
    and room: "unat (freeblock s) + (4 + file_cost P bytes) \<le> FSSIZE P"
  shows "\<exists>s'. mkfs_file P host root arg s = Inr s' \<and> stepped P nm s s' (4 + file_cost P bytes) \<and> freeinode s' = freeinode s + 1
    \<and> files P s' = (files P s)(root \<mapsto> file_of P s root @ entry P (freeinode s) (skip_underscore (short_name arg)), freeinode s \<mapsto> bytes)
    \<and> d_type (inode_at P s' (freeinode s)) = T_FILE P"
proof -
  let ?i = "freeinode s" and ?n = "skip_underscore (short_name arg)"
  have pos: "0 < ?i" using root by (auto simp: live_inodes_def)
  have ni: "?i \<notin> live_inodes s" by (simp add: live_inodes_def)
  from ialloc_ok [OF inv fi pos, of "T_FILE P"] obtain s1 where
    1: "ialloc P (T_FILE P) s = Inr (?i, s1)" "fs_inv P nm s1" "sb s1 = sb s" "freeinode s1 = ?i + 1" "freeblock s1 = freeblock s"
      "live_inodes s1 = insert ?i (live_inodes s)" "file_of P s1 ?i = []" "d_type (inode_at P s1 ?i) = T_FILE P"
      "\<forall>j \<in> live_inodes s. file_of P s1 j = file_of P s j \<and> d_type (inode_at P s1 j) = d_type (inode_at P s j)" "other_meta P nm s s1"
    by blast
  have f1: "files P s1 = (files P s)(?i \<mapsto> [])" using files_update [OF 1(6), of P] 1(7,9) by simp
  have st1: "stepped P nm s s1 0" using 1 by (auto simp: stepped_def)
  have r1: "root \<in> live_inodes s1" "file_of P s1 root = file_of P s root" using root 1(6,9) by auto
  from add_dirent_ok [OF 1(2) r1(1) de, of ?i ?n] size room r1(2) 1(5) obtain s2 where
    2: "add_dirent P root ?i ?n s1 = Inr s2" "stepped P nm s1 s2 4" "freeinode s2 = ?i + 1"
      "files P s2 = (files P s1)(root \<mapsto> file_of P s root @ entry P ?i ?n)"
    using 1(4) by auto
  have li2: "live_inodes s2 = live_inodes s1" using 2(3) 1(4) by (simp add: live_inodes_def)
  have i2: "?i \<in> live_inodes s2" using li2 1(6) by simp
  have e2: "file_of P s2 ?i = []"
    using files_live [OF i2, of P] 2(4) f1 root ni by (auto simp: fun_upd_apply split: if_splits)
  have inv2: "fs_inv P nm s2" "unat (freeblock s2) \<le> unat (freeblock s) + 4" using 2(2) 1(5) by (simp_all add: stepped_def)
  from mkfs_copy_ok [OF inv2(1) i2, of bytes] e2 arg(3) inv2(2) room obtain s3 where
    3: "mkfs_copy P ?i bytes s2 = Inr s3" "fs_inv P nm s3" "sb s3 = sb s2" "freeinode s3 = freeinode s2" "file_of P s3 ?i = bytes"
      "\<forall>j \<in> live_inodes s2. j \<noteq> ?i \<longrightarrow> file_of P s3 j = file_of P s2 j"
      "\<forall>j \<in> live_inodes s2. d_type (inode_at P s3 j) = d_type (inode_at P s2 j)"
      "unat (freeblock s3) \<le> unat (freeblock s2) + file_cost P bytes" "other_meta P nm s2 s3"
    by auto
  have li3: "live_inodes s3 = insert ?i (live_inodes s2)" using 3(4) i2 by (auto simp: live_inodes_def)
  have f3: "files P s3 = (files P s2)(?i \<mapsto> bytes)" using files_update [OF li3, of P] 3(5,6) by simp
  have "stepped P nm s2 s3 (file_cost P bytes)" using 3 li3 by (auto simp: stepped_def)
  then have "stepped P nm s s3 (0 + 4 + file_cost P bytes)" using st1 2(2) stepped_trans by blast
  moreover have "mkfs_file P host root arg s = Inr s3"
    using arg 1(1) 2(1) 3(1) by (simp add: mkfs_file_def)
  moreover have "files P s3 = (files P s)(root \<mapsto> file_of P s root @ entry P ?i ?n, ?i \<mapsto> bytes)"
    using f3 2(4) f1 root ni by (auto simp: fun_eq_iff)
  moreover have "d_type (inode_at P s3 ?i) = T_FILE P" using 3(7) i2 2(2) 1(6,8) by (simp add: stepped_def)
  ultimately show ?thesis using 3(4) 2(3) by auto
qed

lemma mkfs_files_ok:
  assumes "fs_inv P nm s" "root \<in> live_inodes s" "dirent_ok P" "args_ok P host args"
    and "unat (freeinode s) + length args \<le> NINODES"
    and "length (file_of P s root) + length args * sizeof_dirent P \<le> MAXFILE P * BSIZE P"
    and "unat (freeblock s) + args_cost P host args \<le> FSSIZE P"
  shows "\<exists>s'. mkfs_files P host root args s = Inr s' \<and> stepped P nm s s' (args_cost P host args)
    \<and> freeinode s' = freeinode s + of_nat (length args)
    \<and> files P s' = add_files P host root args (freeinode s) (files P s)
    \<and> length (file_of P s' root) = length (file_of P s root) + length args * sizeof_dirent P
    \<and> (\<forall>k < length args. d_type (inode_at P s' (freeinode s + of_nat k)) = T_FILE P)"
  using assms
proof (induction args arbitrary: s)
  case Nil
  then show ?case by (simp add: stepped_def args_cost_def other_meta_def)
next
  case (Cons arg args)
  let ?i = "freeinode s" and ?n = "skip_underscore (short_name arg)"
  from Cons.prems(4) obtain bytes where b: "CHR ''/'' \<notin> set (short_name arg)" "host arg = Some bytes" "length bytes \<le> MAXFILE P * BSIZE P"
    and ok: "args_ok P host args" by (auto simp: args_ok_def)
  have cost: "args_cost P host (arg # args) = 4 + file_cost P bytes + args_cost P host args" using b(2) by (simp add: args_cost_def)
  have fi: "unat ?i < NINODES" using Cons.prems(5) by simp
  have sz: "length (file_of P s root) + sizeof_dirent P \<le> MAXFILE P * BSIZE P" using Cons.prems(6) by simp
  have rm: "unat (freeblock s) + (4 + file_cost P bytes) \<le> FSSIZE P" using Cons.prems(7) cost by simp
  from mkfs_file_ok [where host = host and arg = arg, OF Cons.prems(1,2) fi Cons.prems(3) b sz rm] obtain s1 where
    1: "mkfs_file P host root arg s = Inr s1" "stepped P nm s s1 (4 + file_cost P bytes)" "freeinode s1 = ?i + 1"
      "files P s1 = (files P s)(root \<mapsto> file_of P s root @ entry P ?i ?n, ?i \<mapsto> bytes)" "d_type (inode_at P s1 ?i) = T_FILE P"
    by blast
  have ui: "unat (?i + 1) = Suc (unat ?i)" using fi by (simp add: NINODES_def unat_word_ariths)
  have r1: "root \<in> live_inodes s1" using 1(2) Cons.prems(2) by (auto simp: stepped_def)
  have ni: "root \<noteq> ?i" using Cons.prems(2) by (auto simp: live_inodes_def)
  have fr: "file_of P s1 root = file_of P s root @ entry P ?i ?n"
    using files_live [OF r1, of P] 1(4) ni by simp
  have le: "length (entry P ?i ?n) = sizeof_dirent P" using Cons.prems(3) by (simp add: dirent_ok_def entry_def)
  have pre: "fs_inv P nm s1" "unat (freeinode s1) + length args \<le> NINODES"
    "length (file_of P s1 root) + length args * sizeof_dirent P \<le> MAXFILE P * BSIZE P"
    "unat (freeblock s1) + args_cost P host args \<le> FSSIZE P"
    using 1(2,3) Cons.prems(5-7) ui fr le cost by (simp_all add: stepped_def)
  from Cons.IH [OF pre(1) r1 Cons.prems(3) ok pre(2-4)] obtain s2 where
    2: "mkfs_files P host root args s1 = Inr s2" "stepped P nm s1 s2 (args_cost P host args)"
      "freeinode s2 = freeinode s1 + of_nat (length args)" "files P s2 = add_files P host root args (freeinode s1) (files P s1)"
      "length (file_of P s2 root) = length (file_of P s1 root) + length args * sizeof_dirent P"
      "\<forall>k < length args. d_type (inode_at P s2 (freeinode s1 + of_nat k)) = T_FILE P"
    by blast
  have i1: "?i \<in> live_inodes s1" using 1(4) by (metis files_def fun_upd_same option.distinct(1))
  have "d_type (inode_at P s2 (?i + of_nat k)) = T_FILE P" if "k < Suc (length args)" for k
  proof (cases k)
    case 0
    then show ?thesis using 2(2) i1 1(5) by (simp add: stepped_def)
  next
    case (Suc j)
    then show ?thesis using 2(6) that 1(3) by (auto simp: add.assoc)
  qed
  moreover have "add_files P host root (arg # args) ?i (files P s) = files P s2"
    using 2(4) 1(3,4) files_live [OF Cons.prems(2), of P] b(2) by simp
  moreover have "stepped P nm s s2 (args_cost P host (arg # args))"
    using stepped_trans [OF 1(2) 2(2)] cost by simp
  ultimately show ?case using 1(1,3) 2(1,3,5) fr le by (simp add: add.assoc)
qed

section \<open>The whole image\<close>

lemma zero_blocks_img:
  assumes "img s = replicate (i * BSIZE P) 0" "(i + n) * BSIZE P < 2 ^ 32" "0 < BSIZE P" "host_ok P"
  shows "zero_blocks P n i s = Inr (s\<lparr>img := replicate ((i + n) * BSIZE P) 0\<rparr>)"
  using assms
proof (induction n arbitrary: i s)
  case (Suc n)
  have B: "i * BSIZE P \<le> (i + Suc n) * BSIZE P" "i * 1 \<le> i * BSIZE P" "1 * BSIZE P \<le> (i + Suc n) * BSIZE P"
    using Suc.prems(3) by (intro mult_le_mono; simp)+
  then have "i < 2 ^ 32" "BSIZE P < 2 ^ 32" using Suc.prems(2) by linarith+
  then have "unat (of_nat i :: u32) = i" "unat (of_nat (BSIZE P) :: u32) = BSIZE P"
    by (simp_all add: unat_of_nat)
  then have off: "sector_offset P (of_nat i) = i * BSIZE P"
    using B(1) Suc.prems(2) by (simp add: sector_offset_def unat_word_ariths)
  have "write_at (i * BSIZE P) (replicate (BSIZE P) 0) (img s) = replicate (Suc i * BSIZE P) 0"
    using Suc.prems(1) by (simp add: write_at_def overlay_def replicate_add [symmetric] add.commute)
  then have "zero_blocks P (Suc n) i s = zero_blocks P n (Suc i) (s\<lparr>img := replicate (Suc i * BSIZE P) 0\<rparr>)"
    using Suc.prems(4) by (simp add: wsect_def off host_ok_def)
  also have "\<dots> = Inr (s\<lparr>img := replicate ((Suc i + n) * BSIZE P) 0\<rparr>)"
    by (subst Suc.IH) (use Suc.prems in simp_all)
  finally show ?case by simp
qed simp

text \<open>Rounding up the size of the root directory.\<close>

definition rounded :: "fsparam \<Rightarrow> nat \<Rightarrow> nat" where
  "rounded P n = (n div BSIZE P + 1) * BSIZE P"

lemma unat_rounded:
  assumes "n < M * BSIZE P" "M * BSIZE P < 2 ^ 31" "unat w = n"
  shows "unat ((w div of_nat (BSIZE P) + 1) * of_nat (BSIZE P) :: u32) = rounded P n" "n < rounded P n"
proof -
  let ?B = "BSIZE P"
  have B: "0 < ?B" using assms(1) by (cases ?B) auto
  have "n div ?B < M" using assms(1) by (rule less_mult_imp_div_less)
  then have top: "rounded P n < 2 ^ 31"
    using mult_le_mono1 [of "n div ?B + 1" M ?B] assms(2) by (simp add: rounded_def)
  show "n < rounded P n" using B by (simp add: rounded_def dividend_less_div_times)
  have "?B \<le> rounded P n" "n div ?B + 1 \<le> rounded P n"
    using B mult_le_mono2 [of 1 ?B "n div ?B + 1"] by (simp_all add: rounded_def)
  then have lim: "?B < 2 ^ 32" "n div ?B + 1 < 2 ^ 32" "rounded P n < 2 ^ 32" using top by simp_all
  have B32: "unat (of_nat ?B :: u32) = ?B" using lim(1) by (simp add: unat_of_nat)
  have "unat (w div of_nat ?B) = n div ?B" by (simp add: unat_div B32 assms(3))
  then have "unat (w div of_nat ?B + 1) = n div ?B + 1" using lim(2) by (simp add: unat_word_ariths)
  then show "unat ((w div of_nat ?B + 1) * of_nat ?B) = rounded P n"
    using lim(3) by (simp add: unat_word_ariths B32 rounded_def)
qed

lemma fix_root_ok:
  assumes inv: "fs_inv P nm s" and r: "r \<in> live_inodes s" and size: "length (file_of P s r) < MAXFILE P * BSIZE P"
  shows "\<exists>s' d. fix_root P r s = Inr s' \<and> img_ok P s' \<and> sb s' = sb s \<and> freeinode s' = freeinode s \<and> freeblock s' = freeblock s
    \<and> (\<forall>j. unat j < NINODES \<longrightarrow> inode_at P s' j = (if j = r then d else inode_at P s j))
    \<and> d_addrs d = d_addrs (inode_at P s r) \<and> d_type d = d_type (inode_at P s r)
    \<and> unat (d_size d) = rounded P (length (file_of P s r))
    \<and> (\<forall>k \<ge> nm. sect P s' k = sect P s k) \<and> other_meta P nm s s'"
proof -
  let ?N = "inode_at P s"
  let ?d = "(?N r)\<lparr>d_size := (d_size (?N r) div of_nat (BSIZE P) + 1) * of_nat (BSIZE P)\<rparr>"
  have lay: "layout_ok P (sb s) nm" "img_ok P s" "unat (freeinode s) \<le> NINODES"
    and ok: "blocks_ok P nm (live_inodes s) ?N (sect P s) (unat (freeblock s))"
    using inv by (simp_all add: fs_inv_def)
  have rN: "unat r < NINODES" by (rule live_less [OF lay(3) r])
  have len: "length (d_addrs ?d) = NDIRECT P + 1" using ok r by (simp add: blocks_ok_def)
  have "unat (d_size ?d) = rounded P (length (file_of P s r))"
    using unat_rounded(1) [OF size _ length_file_of [symmetric]] fs_inv_layout [OF inv] by simp
  moreover have "fix_root P r s = winode P r ?d s"
    using rinode_ok [OF lay(1,2) rN] by (simp add: fix_root_def Let_def)
  moreover from winode_ok [OF lay(1,2) rN len] obtain s' where
    "winode P r ?d s = Inr s'" "img_ok P s'" "sb s' = sb s" "freeinode s' = freeinode s" "freeblock s' = freeblock s"
    "\<forall>j. unat j < NINODES \<longrightarrow> inode_at P s' j = (if j = r then ?d else ?N j)"
    "\<forall>k \<ge> nm. sect P s' k = sect P s k" "other_meta P nm s s'"
    by blast
  ultimately show ?thesis by (intro exI [of _ s'] exI [of _ ?d]) simp
qed

text \<open>Files read the same in an image that has the same pointers and the same data blocks.\<close>

lemma same_files:
  assumes inv: "fs_inv P nm s" and N: "\<And>j. j \<in> live_inodes s \<Longrightarrow> d_addrs (inode_at P s' j) = d_addrs (inode_at P s j)"
    and M: "\<And>k. nm \<le> k \<Longrightarrow> sect P s' k = sect P s k"
  shows "blocks_ok P nm (live_inodes s) (inode_at P s') (sect P s') (unat (freeblock s))"
    "j \<in> live_inodes s \<Longrightarrow> length (file_of P s j) \<le> length (file_of P s' j) \<Longrightarrow>
       take (length (file_of P s j)) (file_of P s' j) = file_of P s j"
proof -
  have ok: "blocks_ok P nm (live_inodes s) (inode_at P s) (sect P s) (unat (freeblock s))"
    and mp: "\<And>j. j \<in> live_inodes s \<Longrightarrow> mapped P (inode_at P s) (sect P s) j (unat (d_size (inode_at P s j)))"
    using inv by (simp_all add: fs_inv_def)
  have B: "0 < nm" "0 < BSIZE P" using fs_inv_layout [OF inv] by simp_all
  have cong: "blocks_ok P nm (live_inodes s) (inode_at P s') (sect P s') (unat (freeblock s))"
    "\<And>j n k. j \<in> live_inodes s \<Longrightarrow> mapped P (inode_at P s) (sect P s) j n \<Longrightarrow> k < n \<Longrightarrow>
       file_byte P (inode_at P s') (sect P s') j k = file_byte P (inode_at P s) (sect P s) j k"
    using blk_cong(2,4) [OF ok, of "inode_at P s'" "sect P s'"] N M B by blast+
  show "blocks_ok P nm (live_inodes s) (inode_at P s') (sect P s') (unat (freeblock s))" by (rule cong(1))
  show "take (length (file_of P s j)) (file_of P s' j) = file_of P s j"
    if j: "j \<in> live_inodes s" and le: "length (file_of P s j) \<le> length (file_of P s' j)"
  proof (rule nth_equalityI)
    fix k assume "k < length (take (length (file_of P s j)) (file_of P s' j))"
    then have k: "k < unat (d_size (inode_at P s j))" using le by (simp add: length_file_of)
    then show "take (length (file_of P s j)) (file_of P s' j) ! k = file_of P s j ! k"
      using cong(2) [OF j mp [OF j] k] le by (simp add: file_of_def)
  qed (use le in simp)
qed

text \<open>Lines 162 to 170: what is left to do once the files are there.\<close>

lemma finish_ok:
  assumes inv: "fs_inv P nm s" and r: "r \<in> live_inodes s" and size: "length (file_of P s r) < MAXFILE P * BSIZE P"
    and bm: "unat (sb_bmapstart (sb s)) < nm" "\<And>i. unat i < NINODES \<Longrightarrow> IBLOCK P i (sb s) \<noteq> sb_bmapstart (sb s)"
    and used: "sint (freeblock s) < int (BSIZE P * 8)"
  shows "\<exists>s'. then_res (fix_root P r s) (\<lambda>s. balloc P (freeblock s) s) = Inr s'
    \<and> sb s' = sb s \<and> freeinode s' = freeinode s \<and> freeblock s' = freeblock s
    \<and> (\<forall>j \<in> live_inodes s. j \<noteq> r \<longrightarrow> file_of P s' j = file_of P s j)
    \<and> length (file_of P s' r) = rounded P (length (file_of P s r))
    \<and> take (length (file_of P s r)) (file_of P s' r) = file_of P s r
    \<and> (\<forall>j \<in> live_inodes s. d_type (inode_at P s' j) = d_type (inode_at P s j))
    \<and> blocks_ok P nm (live_inodes s) (inode_at P s') (sect P s') (unat (freeblock s))
    \<and> (\<forall>j < 8 * BSIZE P. bit (sect P s' (unat (sb_bmapstart (sb s))) ! (j div 8)) (j mod 8) \<longleftrightarrow> int j < sint (freeblock s))
    \<and> (\<forall>k < nm. k \<noteq> unat (sb_bmapstart (sb s)) \<longrightarrow> (\<forall>i. unat i < NINODES \<longrightarrow> unat (IBLOCK P i (sb s)) \<noteq> k) \<longrightarrow>
          sect P s' k = sect P s k)"
proof -
  from fix_root_ok [OF inv r size] obtain s1 d where
    1: "fix_root P r s = Inr s1" "img_ok P s1" "sb s1 = sb s" "freeinode s1 = freeinode s" "freeblock s1 = freeblock s"
      "\<And>j. unat j < NINODES \<Longrightarrow> inode_at P s1 j = (if j = r then d else inode_at P s j)"
      "d_addrs d = d_addrs (inode_at P s r)" "d_type d = d_type (inode_at P s r)" "unat (d_size d) = rounded P (length (file_of P s r))"
      "\<And>k. k \<ge> nm \<Longrightarrow> sect P s1 k = sect P s k" "other_meta P nm s s1"
    by blast
  have lay: "layout_ok P (sb s) nm" "unat (freeinode s) \<le> NINODES" using inv by (simp_all add: fs_inv_def)
  have "nm \<le> FSSIZE P" using lay(1) unfolding layout_ok_def by blast
  then have bmF: "unat (sb_bmapstart (sb s1)) < FSSIZE P" using bm(1) 1(3) by simp
  from balloc_ok [OF 1(2) bmF, of "freeblock s1"] used 1(3,5) obtain s2 b where
    2: "balloc P (freeblock s1) s1 = Inr s2" "sect P s2 = (sect P s1)(unat (sb_bmapstart (sb s)) := b)"
      "\<forall>j < 8 * BSIZE P. bit (b ! (j div 8)) (j mod 8) \<longleftrightarrow> int j < sint (freeblock s)"
      "sb s2 = sb s" "freeinode s2 = freeinode s" "freeblock s2 = freeblock s"
    using 1(4) by auto
  have N: "inode_at P s2 j = (if j = r then d else inode_at P s j)" if "unat j < NINODES" for j
  proof -
    have "inode_at P s2 j = inode_at P s1 j" using bm(2) [OF that] by (simp add: inode_at_def 2(2,4) 1(3) word_unat_eq_iff)
    then show ?thesis using 1(6) [OF that] by simp
  qed
  have N': "inode_at P s2 j = (if j = r then d else inode_at P s j)" if "j \<in> live_inodes s" for j
    by (rule N [OF live_less [OF lay(2) that]])
  have M: "sect P s2 k = sect P s k" if "nm \<le> k" for k using 1(10) [OF that] 2(2) bm(1) that by simp
  have A: "d_addrs (inode_at P s2 j) = d_addrs (inode_at P s j)" if "j \<in> live_inodes s" for j
    using N' [OF that] 1(7) by simp
  have same: "blocks_ok P nm (live_inodes s) (inode_at P s2) (sect P s2) (unat (freeblock s))"
    "\<And>j. j \<in> live_inodes s \<Longrightarrow> length (file_of P s j) \<le> length (file_of P s2 j) \<Longrightarrow>
       take (length (file_of P s j)) (file_of P s2 j) = file_of P s j"
    using same_files [OF inv, of s2] A M by blast+
  have L: "length (file_of P s2 j) = (if j = r then rounded P (length (file_of P s r)) else length (file_of P s j))"
    if "j \<in> live_inodes s" for j using N' [OF that] 1(9) by (simp add: length_file_of)
  moreover have "length (file_of P s r) < rounded P (length (file_of P s r))"
    using unat_rounded(2) [OF size _ length_file_of [symmetric]] fs_inv_layout [OF inv] by simp
  ultimately have F: "length (file_of P s2 r) = rounded P (length (file_of P s r))"
    "take (length (file_of P s r)) (file_of P s2 r) = file_of P s r"
    using same(2) r by simp_all
  have G: "file_of P s2 j = file_of P s j" if "j \<in> live_inodes s" "j \<noteq> r" for j
    using same(2) [OF that(1)] L [OF that(1)] that(2) by simp
  have "sect P s2 k = sect P s k" if "k < nm" "k \<noteq> unat (sb_bmapstart (sb s))"
    "\<forall>i. unat i < NINODES \<longrightarrow> unat (IBLOCK P i (sb s)) \<noteq> k" for k
    using that 1(11) 2(2) by (simp add: other_meta_def)
  then show ?thesis using 1(1) 2 F G N' 1(8) same(1) by (intro exI [of _ s2]) simp
qed

text \<open>
  What \<open>main\<close> relies on: a host whose calls on the image do not fail, the layout of the headers, with
  the inode blocks where the superblock says, arguments that can be added, an image with room for
  them and a bitmap of one block.
\<close>

definition main_ok :: "fsparam \<Rightarrow> (string \<Rightarrow> u8 list option) \<Rightarrow> string list \<Rightarrow> bool" where
  "main_ok P host args \<longleftrightarrow> host_ok P \<and> layout_ok P (mkfs_sb P) (nmeta P)
     \<and> BSIZE P mod sizeof_dinode P = 0 \<and> BSIZE P mod sizeof_dirent P = 0 \<and> ROOTINO P = 1 \<and> dirent_ok P
     \<and> length (sb_bytes P (mkfs_sb P)) \<le> BSIZE P
     \<and> (\<forall>i. unat i < NINODES \<longrightarrow> 2 + LOGSIZE P \<le> unat (IBLOCK P i (mkfs_sb P))
          \<and> unat (IBLOCK P i (mkfs_sb P)) < 2 + LOGSIZE P + ninodeblocks P)
     \<and> args_ok P host args \<and> length args + 2 \<le> NINODES
     \<and> (length args + 2) * sizeof_dirent P < MAXFILE P * BSIZE P
     \<and> nmeta P + 8 + args_cost P host args \<le> FSSIZE P \<and> FSSIZE P < BSIZE P * 8"

definition dots :: "fsparam \<Rightarrow> u8 list" where
  "dots P = entry P 1 ''.'' @ entry P 1 ''..''"

lemma mkfs_sb_fields [simp]:
  "sb_bmapstart (mkfs_sb P) = of_nat (2 + LOGSIZE P + ninodeblocks P)"
  by (simp add: mkfs_sb_def)

lemma small_image:
  assumes "(F :: nat) * B < 2 ^ 32" "F < B * 8"
  shows "F < 2 ^ 31"
proof (rule ccontr)
  assume "\<not> F < 2 ^ 31"
  then have "2 ^ 31 * 2 ^ 28 \<le> F * B" using assms(2) by (intro mult_le_mono) simp_all
  then show False using assms(1) by simp
qed

lemma sint_small:
  fixes w :: u32
  assumes "unat w < 2 ^ 31"
  shows "sint w = int (unat w)"
proof -
  have "int (unat w) < int (2 ^ 31)" using assms by (simp only: of_nat_less_iff)
  then have lt: "uint w < 2 ^ 31" by simp
  have "- (2 ^ 31) \<le> uint w" by (rule order_trans [OF _ uint_ge_0]) simp
  from signed_take_bit_int_eq_self [OF this lt] show ?thesis unfolding sint_uint by simp
qed

text \<open>The image when the root directory has been allocated.\<close>

lemma mkfs_start:
  assumes ok: "main_ok P host args"
  defines "s0 \<equiv> \<lparr>img = [], sb = mkfs_sb P, freeinode = 1, freeblock = of_nat (nmeta P)\<rparr>"
  shows "\<exists>s1 s2 s3. zero_blocks P (FSSIZE P) 0 s0 = Inr s1
    \<and> wsect P 1 (overlay 0 (sb_bytes P (mkfs_sb P)) (replicate (BSIZE P) 0)) s1 = Inr s2
    \<and> ialloc P (T_DIR P) s2 = Inr (1, s3) \<and> sb s1 = mkfs_sb P
    \<and> fs_inv P (nmeta P) s3 \<and> sb s3 = mkfs_sb P \<and> freeinode s3 = 2 \<and> unat (freeblock s3) = nmeta P
    \<and> files P s3 = [1 \<mapsto> []] \<and> d_type (inode_at P s3 1) = T_DIR P
    \<and> sect P s3 1 = overlay 0 (sb_bytes P (mkfs_sb P)) (replicate (BSIZE P) 0)"
proof -
  let ?nm = "nmeta P" and ?B = "overlay 0 (sb_bytes P (mkfs_sb P)) (replicate (BSIZE P) 0)"
  have lay: "layout_ok P (mkfs_sb P) ?nm" and F: "FSSIZE P * BSIZE P < 2 ^ 32" "FSSIZE P < BSIZE P * 8" "?nm \<le> FSSIZE P" "0 < BSIZE P"
    and len: "length (sb_bytes P (mkfs_sb P)) \<le> BSIZE P" and host: "host_ok P"
    and ib: "\<And>i. unat i < NINODES \<Longrightarrow> 2 + LOGSIZE P \<le> unat (IBLOCK P i (mkfs_sb P))"
    using ok unfolding main_ok_def layout_ok_def by auto
  have "?nm < 2 ^ 32" using small_image [OF F(1,2)] F(3) by simp
  then have nm: "unat (of_nat ?nm :: u32) = ?nm" by (simp add: unat_of_nat)
  have one: "1 < ?nm" by (simp add: nmeta_def)
  let ?s1 = "s0\<lparr>img := replicate (FSSIZE P * BSIZE P) 0\<rparr>"
  have z: "zero_blocks P (FSSIZE P) 0 s0 = Inr ?s1"
    using zero_blocks_img [of s0 0 P "FSSIZE P"] F(1,4) host by (simp add: s0_def)
  have img1: "img_ok P ?s1" using F(1) host by (simp add: img_ok_def)
  from wsect_ok [OF img1, of 1 ?B] len one F(3) obtain s2 where
    2: "wsect P 1 ?B ?s1 = Inr s2" "img_ok P s2" "sect P s2 = (sect P ?s1)(1 := ?B)" "sb s2 = mkfs_sb P"
      "freeinode s2 = 1" "freeblock s2 = of_nat ?nm"
    by (auto simp: s0_def)
  have zero: "sect P s2 k = replicate (BSIZE P) 0" if "?nm \<le> k" "k < FSSIZE P" for k
    using that one sect_zero [of ?s1 "FSSIZE P" P k] by (simp add: 2(3))
  have "layout_ok P (sb s2) ?nm" "unat (freeblock s2) = ?nm" using lay 2(4,6) nm by simp_all
  then have inv2: "fs_inv P ?nm s2" "live_inodes s2 = {}" using fresh_fs_inv [OF _ 2(2,5)] zero by blast+
  from ialloc_ok [OF inv2(1), of "T_DIR P"] obtain s3 where
    3: "ialloc P (T_DIR P) s2 = Inr (1, s3)" "fs_inv P ?nm s3" "sb s3 = mkfs_sb P" "freeinode s3 = 2" "freeblock s3 = of_nat ?nm"
      "live_inodes s3 = {1}" "file_of P s3 1 = []" "d_type (inode_at P s3 1) = T_DIR P" "other_meta P ?nm s2 s3"
    using 2(4-6) inv2(2) by (auto simp: NINODES_def)
  have "unat (IBLOCK P i (mkfs_sb P)) \<noteq> 1" if "unat i < NINODES" for i using ib [OF that] by simp
  then have "sect P s3 1 = ?B" using 3(9) one 2(3,4) by (simp add: other_meta_def)
  moreover have "files P s3 = [1 \<mapsto> []]" using 3(6,7) by (auto simp: files_def fun_eq_iff)
  ultimately show ?thesis using z 2(1) 3(1-5,8) nm
    by (intro exI [of _ ?s1] exI [of _ s2] exI [of _ s3]) (simp add: s0_def)
qed

text \<open>The two entries every directory has.\<close>

lemma add_dots:
  assumes inv: "fs_inv P nm s" and f: "files P s = [r \<mapsto> []]" and de: "dirent_ok P"
    and size: "2 * sizeof_dirent P \<le> MAXFILE P * BSIZE P" and room: "unat (freeblock s) + 8 \<le> FSSIZE P"
  shows "\<exists>s1 s2. add_dirent P r r ''.'' s = Inr s1 \<and> add_dirent P r r ''..'' s1 = Inr s2 \<and> stepped P nm s s2 8
    \<and> freeinode s2 = freeinode s \<and> r \<in> live_inodes s2 \<and> files P s2 = [r \<mapsto> entry P r ''.'' @ entry P r ''..'']"
proof -
  have live: "r \<in> live_inodes t \<and> file_of P t r = xs" if "files P t = [r \<mapsto> xs]" for t xs
    using fun_cong [OF that, of r] by (simp add: files_def split: if_splits)
  have r: "r \<in> live_inodes s" "file_of P s r = []" using live [OF f] by simp_all
  from add_dirent_ok [OF inv r(1) de, of r "''.''"] r(2) size room f obtain s1 where
    1: "add_dirent P r r ''.'' s = Inr s1" "stepped P nm s s1 4" "freeinode s1 = freeinode s" "files P s1 = [r \<mapsto> entry P r ''.'']"
    by auto
  have r1: "r \<in> live_inodes s1" "file_of P s1 r = entry P r ''.''" using live [OF 1(4)] by simp_all
  have s1: "fs_inv P nm s1" "unat (freeblock s1) + 4 \<le> FSSIZE P" using 1(2) room by (simp_all add: stepped_def)
  have "length (entry P r ''.'') = sizeof_dirent P" using de by (simp add: dirent_ok_def entry_def)
  with add_dirent_ok [OF s1(1) r1(1) de, of r "''..''"] s1(2) r1(2) size 1(4) obtain s2 where
    2: "add_dirent P r r ''..'' s1 = Inr s2" "stepped P nm s1 s2 4" "freeinode s2 = freeinode s1"
      "files P s2 = [r \<mapsto> entry P r ''.'' @ entry P r ''..'']"
    by auto
  show ?thesis using 1 2 live [OF 2(4)] stepped_trans [OF 1(2) 2(2)] by auto
qed

text \<open>Up to the padding of the root directory: the image holds every file.\<close>

lemma mkfs_populates:
  assumes "main_ok P host args" "can_create fsimg"
  shows "\<exists>s. mkfs_main P host can_create (prog # fsimg # args) = then_res (fix_root P 1 s) (\<lambda>s. balloc P (freeblock s) s)
    \<and> fs_inv P (nmeta P) s \<and> sb s = mkfs_sb P \<and> 1 \<in> live_inodes s \<and> unat (freeblock s) \<le> FSSIZE P
    \<and> freeinode s = 2 + of_nat (length args) \<and> files P s = add_files P host 1 args 2 [1 \<mapsto> dots P]
    \<and> length (file_of P s 1) = (length args + 2) * sizeof_dirent P \<and> d_type (inode_at P s 1) = T_DIR P
    \<and> (\<forall>k < length args. d_type (inode_at P s (2 + of_nat k)) = T_FILE P)
    \<and> sect P s 1 = overlay 0 (sb_bytes P (mkfs_sb P)) (replicate (BSIZE P) 0)"
proof -
  let ?nm = "nmeta P" and ?D = "sizeof_dirent P"
  note ok = assms(1) [unfolded main_ok_def]
  from mkfs_start [OF assms(1)] obtain s1 s2 s3 where
    start: "zero_blocks P (FSSIZE P) 0 \<lparr>img = [], sb = mkfs_sb P, freeinode = 1, freeblock = of_nat ?nm\<rparr> = Inr s1" "sb s1 = mkfs_sb P"
      "wsect P 1 (overlay 0 (sb_bytes P (mkfs_sb P)) (replicate (BSIZE P) 0)) s1 = Inr s2" "ialloc P (T_DIR P) s2 = Inr (1, s3)"
    and 3: "fs_inv P ?nm s3" "sb s3 = mkfs_sb P" "freeinode s3 = 2" "unat (freeblock s3) = ?nm"
      "files P s3 = [1 \<mapsto> []]" "d_type (inode_at P s3 1) = T_DIR P"
      "sect P s3 1 = overlay 0 (sb_bytes P (mkfs_sb P)) (replicate (BSIZE P) 0)"
    by blast
  from add_dots [OF 3(1,5)] ok 3(3,4) obtain s4 s5 where
    dot: "add_dirent P 1 1 ''.'' s3 = Inr s4" "add_dirent P 1 1 ''..'' s4 = Inr s5"
    and 5: "stepped P ?nm s3 s5 8" "freeinode s5 = 2" "1 \<in> live_inodes s5" "files P s5 = [1 \<mapsto> dots P]"
    by (auto simp: dots_def)
  have f5: "file_of P s5 1 = dots P" using files_live [OF 5(3), of P] 5(4) by simp
  have l5: "length (dots P) = 2 * ?D" using ok by (simp add: dots_def dirent_ok_def entry_def)
  have inv5: "fs_inv P ?nm s5" "unat (freeblock s5) \<le> ?nm + 8" using 5(1) 3(4) by (simp_all add: stepped_def)
  have de: "dirent_ok P" "args_ok P host args" using ok by blast+
  have pre: "unat (freeinode s5) + length args \<le> NINODES" "length (file_of P s5 1) + length args * ?D \<le> MAXFILE P * BSIZE P"
    "unat (freeblock s5) + args_cost P host args \<le> FSSIZE P"
    using ok 5(2) f5 l5 inv5(2) by simp_all
  from mkfs_files_ok [OF inv5(1) 5(3) de pre] obtain s6 where
    6: "mkfs_files P host 1 args s5 = Inr s6" "stepped P ?nm s5 s6 (args_cost P host args)"
      "files P s6 = add_files P host 1 args 2 [1 \<mapsto> dots P]" "length (file_of P s6 1) = (length args + 2) * ?D"
      "\<forall>k < length args. d_type (inode_at P s6 (2 + of_nat k)) = T_FILE P" "freeinode s6 = 2 + of_nat (length args)"
    using 5(2,4) f5 l5 by auto
  note st = stepped_trans [OF 5(1) 6(2)]
  have r3: "1 \<in> live_inodes s3" using 3(3) by (simp add: live_inodes_def)
  have inv6: "fs_inv P ?nm s6" "sb s6 = mkfs_sb P" "1 \<in> live_inodes s6" "unat (freeblock s6) \<le> FSSIZE P" "other_meta P ?nm s3 s6"
    "d_type (inode_at P s6 1) = T_DIR P"
    using st 3(2,4,6) r3 ok by (auto simp: stepped_def)
  have "unat (IBLOCK P i (sb s6)) \<noteq> 1" if "unat i < NINODES" for i
    using ok inv6(2) that by (auto simp: word_unat_eq_iff)
  moreover have "1 < ?nm" by (simp add: nmeta_def nbitmap_def)
  ultimately have "sect P s6 1 = overlay 0 (sb_bytes P (mkfs_sb P)) (replicate (BSIZE P) 0)"
    using inv6(2,5) 3(2,7) by (simp add: other_meta_def)
  moreover have "mkfs_main P host can_create (prog # fsimg # args) = then_res (fix_root P 1 s6) (\<lambda>s. balloc P (freeblock s) s)"
    using start dot 6(1) ok assms(2) by (simp add: mkfs_main_def)
  ultimately show ?thesis using inv6 6(3-6) by (intro exI [of _ s6]) simp
qed

text \<open>
  C1: given a layout that fits, room for its arguments and a host that does not fail, \<open>mkfs\<close> returns, and the finished image
  refines the abstract file system: inode \<open>2 + k\<close> holds the bytes of the \<open>k\<close>-th file, the root directory
  holds \<open>.\<close>, \<open>..\<close> and one entry per file followed by the padding that rounds its size to whole
  blocks, pointers lead to distinct blocks, all below \<open>freeblock\<close>, the bitmap marks exactly the
  blocks below \<open>freeblock\<close>, and block 1 starts with the superblock.
\<close>

theorem mkfs_main_image:
  assumes "main_ok P host args" "can_create fsimg"
  shows "\<exists>s' pad F. mkfs_main P host can_create (prog # fsimg # args) = Inr s'
    \<and> F = add_files P host 1 args 2 [1 \<mapsto> dots P]
    \<and> files P s' = F(1 \<mapsto> the (F 1) @ pad)
    \<and> length (the (F 1) @ pad) = rounded P ((length args + 2) * sizeof_dirent P)
    \<and> d_type (inode_at P s' 1) = T_DIR P
    \<and> (\<forall>k < length args. d_type (inode_at P s' (2 + of_nat k)) = T_FILE P)
    \<and> blocks_ok P (nmeta P) (live_inodes s') (inode_at P s') (sect P s') (unat (freeblock s'))
    \<and> (\<forall>j < 8 * BSIZE P. bit (sect P s' (2 + LOGSIZE P + ninodeblocks P) ! (j div 8)) (j mod 8) \<longleftrightarrow> j < unat (freeblock s'))
    \<and> sect P s' 1 = overlay 0 (sb_bytes P (mkfs_sb P)) (replicate (BSIZE P) 0)"
proof -
  let ?nm = "nmeta P" and ?bm = "2 + LOGSIZE P + ninodeblocks P" and ?D = "sizeof_dirent P"
  note ok = assms(1) [unfolded main_ok_def]
  have F: "FSSIZE P * BSIZE P < 2 ^ 32" "?nm \<le> FSSIZE P" using ok unfolding layout_ok_def by auto
  have small: "FSSIZE P < 2 ^ 31" using small_image [OF F(1)] ok by blast
  have "?bm < ?nm" by (simp add: nmeta_def nbitmap_def)
  then have "?bm < 2 ^ 32" using F(2) small by simp
  then have bm: "unat (of_nat ?bm :: u32) = ?bm" by (simp add: unat_of_nat del: of_nat_add of_nat_Suc)
  from mkfs_populates [where can_create = can_create and fsimg = fsimg and prog = prog, OF assms] obtain s6 where
    run6: "mkfs_main P host can_create (prog # fsimg # args) = then_res (fix_root P 1 s6) (\<lambda>s. balloc P (freeblock s) s)"
    and inv6: "fs_inv P ?nm s6" "sb s6 = mkfs_sb P" "1 \<in> live_inodes s6" "unat (freeblock s6) \<le> FSSIZE P" "d_type (inode_at P s6 1) = T_DIR P"
    and 6: "files P s6 = add_files P host 1 args 2 [1 \<mapsto> dots P]" "length (file_of P s6 1) = (length args + 2) * ?D"
      "\<forall>k < length args. d_type (inode_at P s6 (2 + of_nat k)) = T_FILE P" "freeinode s6 = 2 + of_nat (length args)"
    and sect1: "sect P s6 1 = overlay 0 (sb_bytes P (mkfs_sb P)) (replicate (BSIZE P) 0)" by blast
  have sf: "sint (freeblock s6) = int (unat (freeblock s6))"
    by (rule sint_small) (use inv6(4) small in simp)
  have bmF: "sb_bmapstart (sb s6) = of_nat ?bm" "unat (sb_bmapstart (sb s6)) = ?bm" "?bm < ?nm"
    using inv6(2) bm \<open>?bm < ?nm\<close> by simp_all
  have ib: "IBLOCK P i (sb s6) \<noteq> sb_bmapstart (sb s6)" "unat (IBLOCK P i (sb s6)) \<noteq> 1" if "unat i < NINODES" for i
    using ok inv6(2) that bmF(2) by (auto simp: word_unat_eq_iff)
  have "unat (freeblock s6) < BSIZE P * 8" using ok inv6(4) by linarith
  then have size: "length (file_of P s6 1) < MAXFILE P * BSIZE P" "sint (freeblock s6) < int (BSIZE P * 8)"
    unfolding sf using ok 6(2) by (simp_all only: of_nat_less_iff)
  from finish_ok [OF inv6(1,3) size(1) _ ib(1) size(2)] bmF obtain s' where
    fin: "then_res (fix_root P 1 s6) (\<lambda>s. balloc P (freeblock s) s) = Inr s'"
    and 7: "sb s' = sb s6" "freeinode s' = freeinode s6" "freeblock s' = freeblock s6"
      "\<forall>j \<in> live_inodes s6. j \<noteq> 1 \<longrightarrow> file_of P s' j = file_of P s6 j"
      "length (file_of P s' 1) = rounded P (length (file_of P s6 1))"
      "take (length (file_of P s6 1)) (file_of P s' 1) = file_of P s6 1"
      "\<forall>j \<in> live_inodes s6. d_type (inode_at P s' j) = d_type (inode_at P s6 j)"
      "blocks_ok P ?nm (live_inodes s6) (inode_at P s') (sect P s') (unat (freeblock s6))"
      "\<forall>j < 8 * BSIZE P. bit (sect P s' ?bm ! (j div 8)) (j mod 8) \<longleftrightarrow> int j < sint (freeblock s6)"
      "\<forall>k < ?nm. k \<noteq> ?bm \<longrightarrow> (\<forall>i. unat i < NINODES \<longrightarrow> unat (IBLOCK P i (sb s6)) \<noteq> k) \<longrightarrow> sect P s' k = sect P s6 k"
    by auto
  have one: "1 < ?nm" "?bm \<noteq> 1" by (simp_all add: nmeta_def nbitmap_def)
  have run: "mkfs_main P host can_create (prog # fsimg # args) = Inr s'"
    using run6 fin by simp
  define pad where "pad = drop (length (file_of P s6 1)) (file_of P s' 1)"
  have whole: "file_of P s' 1 = file_of P s6 1 @ pad" using 7(6) unfolding pad_def by (metis append_take_drop_id)
  have li: "live_inodes s' = live_inodes s6" using 7(2) by (simp add: live_inodes_def)
  have f6: "the (files P s6 1) = file_of P s6 1" by (rule files_live [OF inv6(3)])
  have "files P s' = (files P s6)(1 \<mapsto> the (files P s6 1) @ pad)"
    using files_update [of s' 1 s6 P] li inv6(3) 7(4) whole f6 by auto
  moreover have "length (the (files P s6 1) @ pad) = rounded P ((length args + 2) * ?D)"
    using f6 whole 7(5) 6(2) by (metis)
  moreover have "d_type (inode_at P s' (2 + of_nat k)) = T_FILE P" if k: "k < length args" for k
  proof -
    have "length args + 2 \<le> NINODES" using ok by blast
    then have "2 + of_nat k \<in> live_inodes s6"
      using k 6(4) by (simp add: live_inodes_def NINODES_def word_less_nat_alt unat_word_ariths unat_of_nat)
    then show ?thesis using 7(7) 6(3) k by simp
  qed
  moreover have "d_type (inode_at P s' 1) = T_DIR P" using 7(7) inv6(3,5) by simp
  moreover have "\<forall>j < 8 * BSIZE P. bit (sect P s' ?bm ! (j div 8)) (j mod 8) \<longleftrightarrow> j < unat (freeblock s')"
    using 7(3,9) sf by (simp del: of_nat_unat)
  moreover have "sect P s' 1 = overlay 0 (sb_bytes P (mkfs_sb P)) (replicate (BSIZE P) 0)"
    using 7(10) ib(2) sect1 one by simp
  ultimately show ?thesis using run 6(1) 7(3,8) li
    by (intro exI [of _ s'] exI [of _ pad] exI [of _ "files P s6"] conjI) simp_all
qed

section \<open>A concrete image\<close>

definition demo_host :: "string \<Rightarrow> u8 list option" where
  "demo_host = [''user/_ls'' \<mapsto> replicate 100 9, ''README'' \<mapsto> [1, 2, 3]]"

lemma demo_main: "mkfs_sb demo_param = demo_sb" "nmeta demo_param = 57" "ninodeblocks demo_param = 51"
  by (simp_all add: mkfs_sb_def demo_sb_def nmeta_def ninodeblocks_def nbitmap_def demo_param_def NINODES_def)

lemma demo_main_ok: "main_ok demo_param demo_host [''user/_ls'', ''README'']"
proof -
  have "args_ok demo_param demo_host [''user/_ls'', ''README'']"
    by (simp add: args_ok_def demo_host_def demo_param_def short_name_def)
  moreover have "args_cost demo_param demo_host [''user/_ls'', ''README''] = 20"
    by (simp add: args_cost_def demo_host_def file_cost_def demo_param_def)
  moreover have "dirent_ok demo_param" by (auto simp: dirent_ok_def demo_param_def min_def)
  moreover have "5 \<le> unat (IBLOCK demo_param i demo_sb) \<and> unat (IBLOCK demo_param i demo_sb) < 56" if "unat i < NINODES" for i
    using that unfolding demo_iblock [OF that] by (auto simp: NINODES_def)
  moreover note demo_layout
  moreover have "host_ok demo_param" using demo_img by (simp add: img_ok_def)
  moreover have "BSIZE demo_param = 64" "FSSIZE demo_param = 200" "LOGSIZE demo_param = 3" "MAXFILE demo_param = 17"
    "sizeof_dinode demo_param = 16" "sizeof_dirent demo_param = 8" "ROOTINO demo_param = 1"
    "length (sb_bytes demo_param demo_sb) = 32"
    by (simp_all add: demo_param_def)
  ultimately show ?thesis by (simp add: main_ok_def demo_main NINODES_def)
qed

theorem mkfs_main_image_witness:
  "\<exists>s'. mkfs_main demo_param demo_host (\<lambda>_. True) [''mkfs'', ''fs.img'', ''user/_ls'', ''README''] = Inr s'
    \<and> files demo_param s' 2 = Some (replicate 100 9) \<and> files demo_param s' 3 = Some [1, 2, 3]
    \<and> d_type (inode_at demo_param s' 1) = 1"
proof -
  let ?F = "add_files demo_param demo_host 1 [''user/_ls'', ''README''] 2 [1 \<mapsto> dots demo_param]"
  from mkfs_main_image [OF demo_main_ok, of "\<lambda>_. True" "''fs.img''" "''mkfs''"] obtain s' pad where
    s': "mkfs_main demo_param demo_host (\<lambda>_. True) [''mkfs'', ''fs.img'', ''user/_ls'', ''README''] = Inr s'"
    "files demo_param s' = ?F(1 \<mapsto> the (?F 1) @ pad)" "d_type (inode_at demo_param s' 1) = T_DIR demo_param"
    by blast
  have F: "?F 2 = Some (replicate 100 9)" "?F 3 = Some [1, 2, 3]" by (simp_all add: demo_host_def)
  have "files demo_param s' 2 = Some (replicate 100 9)" "files demo_param s' 3 = Some [1, 2, 3]"
    unfolding s'(2) using F by (simp_all del: add_files.simps)
  moreover have "T_DIR demo_param = 1" by (simp add: demo_param_def)
  ultimately show ?thesis using s'(1,3) by (intro exI [of _ s']) simp
qed

section \<open>Refused command lines\<close>

text \<open>
  With no image name \<open>mkfs\<close> stops with its usage; an argument that keeps a slash after the leading
  \<open>user/\<close>, or that names a file the host cannot open, stops it before any inode is allocated for it.
\<close>

theorem mkfs_refuses:
  assumes "length argv < 2" "CHR ''/'' \<in> set (short_name arg)" "CHR ''/'' \<notin> set (short_name arg')" "host arg' = None"
  shows "mkfs_main P host can_create argv = Inl (Panic ''Usage: mkfs fs.img files...'')
    \<and> mkfs_file P host root arg s = Inl (Panic ''index(shortname, slash) == 0'')
    \<and> mkfs_file P host root arg' s = Inl (Panic arg')"
  using assms by (auto simp: mkfs_main_def mkfs_file_def Let_def split: list.splits)

theorem mkfs_refuses_witness:
  "mkfs_main demo_param demo_host (\<lambda>_. True) [''mkfs''] = Inl (Panic ''Usage: mkfs fs.img files...'')
    \<and> mkfs_file demo_param demo_host 1 ''a/b'' demo_state = Inl (Panic ''index(shortname, slash) == 0'')
    \<and> mkfs_file demo_param demo_host 1 ''none'' demo_state = Inl (Panic ''none'')"
  by (rule mkfs_refuses) (simp_all add: short_name_def demo_host_def)

end
