(* ===== verification/Console.thy ===== *)
theory Console
  imports Spinlock
begin

text \<open>
  \<open>kernel/console.c\<close>: the console structure and the handler the serial driver calls for every
  character it receives. The handler takes the console's lock and ends: it neither stores the
  character nor releases the lock.
\<close>

section \<open>State and handler\<close>

record console =
  con_lock :: spinlock
  con_buf :: "u8 list"

record console_mach = mach +
  kconsole :: console

definition consloe_input_handler :: "i32 \<Rightarrow> 'a console_mach_scheme \<Rightarrow> 'a console_mach_scheme res" where
  "consloe_input_handler c s =
     then_res (acquire (con_lock (kconsole s)) s) (\<lambda>(l, s). Inr (s\<lparr>kconsole := (kconsole s)\<lparr>con_lock := l\<rparr>\<rparr>))"

section \<open>What the handler does\<close>

lemma console_more: "mach.more s = mach.more t \<Longrightarrow> kconsole s = kconsole t"
  by (cases s; cases t) simp

lemma console_simps [simp]: "kconsole (pushed s) = kconsole s" "kconsole (popped s) = kconsole s"
  by (rule console_more, simp)+

lemma console_update [simp]:
  "id_ok (s\<lparr>kconsole := g\<rparr>) = id_ok s" "this_cpu (s\<lparr>kconsole := g\<rparr>) = this_cpu s"
  by (simp_all add: id_ok_def this_cpu_def cpu_id_def)

lemma consloe_input_handler_eq:
  "id_ok s \<Longrightarrow> consloe_input_handler c s = (if available (con_lock (kconsole s)) = 0 then Inl Diverges
     else Inr ((pushed s)\<lparr>kconsole := (kconsole s)\<lparr>con_lock := (con_lock (kconsole s))\<lparr>available := 0\<rparr>\<rparr>\<rparr>))"
  by (simp add: consloe_input_handler_def acquire_eq)

lemma handler_twice:
  "id_ok s \<Longrightarrow> then_res (consloe_input_handler c s) (consloe_input_handler d) = Inl Diverges"
  by (simp add: consloe_input_handler_eq)

end
