(* ===== verification/Uart.thy ===== *)
theory Uart
  imports Console
begin

text \<open>
  \<open>kernel/uart.c\<close>: the driver of the 16550 serial port.

  The port itself is a parameter: \<open>bus\<close> holds what a read and a write of a device address do to
  the state \<open>'d\<close> of the device. \<open>find_uart_register\<close> uses a name that is not declared; it is read as
  its argument. The test of line 88 is \<open>read_uart_register(LSR) & ((1 << 5) == 0)\<close>, as C parses it.
  Line 141 compares \<open>flag\<close> with 0 and drops the result.
\<close>

section \<open>The port\<close>

definition RHR :: i32 where "RHR = 0"
definition THR :: i32 where "THR = 0"
definition IER :: i32 where "IER = 1"
definition IER_RX_ENABLE :: u8 where "IER_RX_ENABLE = push_bit 0 1"
definition IER_TX_ENABLE :: u8 where "IER_TX_ENABLE = push_bit 1 1"
definition FCR :: i32 where "FCR = 2"
definition FCR_FIFO_ENABLE :: u8 where "FCR_FIFO_ENABLE = push_bit 0 1"
definition FCR_FIFO_CLEAR :: u8 where "FCR_FIFO_CLEAR = push_bit 1 3"
definition LCR :: i32 where "LCR = 3"
definition LCR_EIGHT_BITS :: u8 where "LCR_EIGHT_BITS = push_bit 0 3"
definition LSR :: i32 where "LSR = 5"

lemmas uart_regs = RHR_def THR_def IER_def FCR_def LCR_def LSR_def
lemmas uart_bits = IER_RX_ENABLE_def IER_TX_ENABLE_def FCR_FIFO_ENABLE_def FCR_FIFO_CLEAR_def LCR_EIGHT_BITS_def

definition find_uart_register :: "i32 \<Rightarrow> u64" where
  "find_uart_register offset = UART0 + scast offset"

section \<open>State\<close>

record 'd uart_mach = console_mach +
  dev :: 'd
  t_buffer :: "u8 list"
  w_tbuffer_cursor :: u64
  r_tbuffer_cursor :: u64
  uart_tx_lock :: spinlock

section \<open>Operations\<close>

definition write_uart_register :: "(u8, 'd) bus \<Rightarrow> i32 \<Rightarrow> u8 \<Rightarrow> ('d, 'a) uart_mach_scheme \<Rightarrow> ('d, 'a) uart_mach_scheme" where
  "write_uart_register B offset x s = s\<lparr>dev := bus_write B (find_uart_register offset) x (dev s)\<rparr>"

definition read_uart_register :: "(u8, 'd) bus \<Rightarrow> i32 \<Rightarrow> ('d, 'a) uart_mach_scheme \<Rightarrow> u8 \<times> ('d, 'a) uart_mach_scheme" where
  "read_uart_register B offset s =
     (let (v, d) = bus_read B (find_uart_register offset) (dev s) in (v, s\<lparr>dev := d\<rparr>))"

definition uart_init :: "(u8, 'd) bus \<Rightarrow> ('d, 'a) uart_mach_scheme \<Rightarrow> ('d, 'a) uart_mach_scheme" where
  "uart_init B s =
     (let s = write_uart_register B IER 0x00 s;
          s = write_uart_register B LCR (push_bit 7 1) s;
          s = write_uart_register B 0 0x03 s;
          s = write_uart_register B 1 0x00 s;
          s = write_uart_register B LCR LCR_EIGHT_BITS s;
          s = write_uart_register B FCR (FCR_FIFO_ENABLE OR FCR_FIFO_CLEAR) s;
          s = write_uart_register B IER (IER_TX_ENABLE OR IER_RX_ENABLE) s
      in s\<lparr>uart_tx_lock := spinlock_init (uart_tx_lock s)\<rparr>)"

text \<open>One turn of \<open>for(;;)\<close>; the flag is \<open>False\<close> once the routine has returned.\<close>

definition uart_send_step :: "(u8, 'd) bus \<Rightarrow> bool \<times> ('d, 'a) uart_mach_scheme \<Rightarrow> (bool \<times> ('d, 'a) uart_mach_scheme) res" where
  "uart_send_step B = (\<lambda>(go, s).
     if w_tbuffer_cursor s = r_tbuffer_cursor s then Inr (False, s)
     else
       let (lsr, s) = read_uart_register B LSR s
       in if (ucast lsr :: i32) AND (if push_bit 5 1 = (0 :: i32) then 1 else 0) \<noteq> 0 then Inr (False, s)
          else
            let on_sending = t_buffer s ! unat (r_tbuffer_cursor s mod 32);
                s = s\<lparr>r_tbuffer_cursor := r_tbuffer_cursor s + 1\<rparr>
            in Inr (True, write_uart_register B THR on_sending s))"

definition uart_send :: "(u8, 'd) bus \<Rightarrow> ('d, 'a) uart_mach_scheme \<Rightarrow> ('d, 'a) uart_mach_scheme res" where
  "uart_send B s = then_res (loop_res fst (uart_send_step B) (True, s)) (\<lambda>(go, s). Inr s)"

definition uart_input :: "(u8, 'd) bus \<Rightarrow> i32 \<Rightarrow> ('d, 'a) uart_mach_scheme \<Rightarrow> ('d, 'a) uart_mach_scheme res" where
  "uart_input B c s =
     then_res (acquire (uart_tx_lock s) s) (\<lambda>(l, s).
     then_res (loop_res (\<lambda>s. w_tbuffer_cursor s = r_tbuffer_cursor s + 32) Inr (s\<lparr>uart_tx_lock := l\<rparr>)) (\<lambda>s.
     let s = s\<lparr>w_tbuffer_cursor := w_tbuffer_cursor s + 1\<rparr>;
         s = s\<lparr>t_buffer := (t_buffer s)[unat (w_tbuffer_cursor s mod 32) := ucast c]\<rparr>
     in then_res (uart_send B s) (\<lambda>s.
     then_res (release (uart_tx_lock s) s) (\<lambda>(l, s). Inr (s\<lparr>uart_tx_lock := l\<rparr>)))))"

text \<open>One turn of \<open>while(flag)\<close>.\<close>

definition uart_inter_step :: "(u8, 'd) bus \<Rightarrow> i32 \<times> ('d, 'a) uart_mach_scheme \<Rightarrow> (i32 \<times> ('d, 'a) uart_mach_scheme) res" where
  "uart_inter_step B = (\<lambda>(flag, s).
     let (lsr, s) = read_uart_register B LSR s
     in if (ucast lsr :: i32) AND 0x01 \<noteq> 0 then
          let (c, s) = read_uart_register B RHR s
          in then_res (consloe_input_handler (ucast c) s) (\<lambda>s. Inr (flag, s))
        else Inr (flag, s))"

definition uart_inter :: "(u8, 'd) bus \<Rightarrow> ('d, 'a) uart_mach_scheme \<Rightarrow> ('d, 'a) uart_mach_scheme res" where
  "uart_inter B s =
     then_res (loop_res (\<lambda>(flag, s). flag \<noteq> 0) (uart_inter_step B) (1, s)) (\<lambda>(flag, s).
     then_res (acquire (uart_tx_lock s) s) (\<lambda>(l, s).
     then_res (uart_send B (s\<lparr>uart_tx_lock := l\<rparr>)) (\<lambda>s.
     then_res (release (uart_tx_lock s) s) (\<lambda>(l, s). Inr (s\<lparr>uart_tx_lock := l\<rparr>)))))"

section \<open>Frames\<close>

lemma uart_more:
  assumes "mach.more s = mach.more t"
  shows "dev s = dev t" "t_buffer s = t_buffer t" "w_tbuffer_cursor s = w_tbuffer_cursor t"
    "r_tbuffer_cursor s = r_tbuffer_cursor t" "uart_tx_lock s = uart_tx_lock t"
  using assms by (cases s; cases t; simp)+

lemma uart_simps [simp]:
  "dev (pushed s) = dev s" "t_buffer (pushed s) = t_buffer s" "w_tbuffer_cursor (pushed s) = w_tbuffer_cursor s"
  "r_tbuffer_cursor (pushed s) = r_tbuffer_cursor s" "uart_tx_lock (pushed s) = uart_tx_lock s"
  "dev (popped s) = dev s" "t_buffer (popped s) = t_buffer s" "w_tbuffer_cursor (popped s) = w_tbuffer_cursor s"
  "r_tbuffer_cursor (popped s) = r_tbuffer_cursor s" "uart_tx_lock (popped s) = uart_tx_lock s"
  by (rule uart_more, simp)+

lemma uart_update [simp]:
  "id_ok (s\<lparr>dev := d\<rparr>) = id_ok s" "id_ok (s\<lparr>t_buffer := b\<rparr>) = id_ok s" "id_ok (s\<lparr>w_tbuffer_cursor := w\<rparr>) = id_ok s"
  "id_ok (s\<lparr>r_tbuffer_cursor := w\<rparr>) = id_ok s" "id_ok (s\<lparr>uart_tx_lock := l\<rparr>) = id_ok s"
  "this_cpu (s\<lparr>dev := d\<rparr>) = this_cpu s" "this_cpu (s\<lparr>t_buffer := b\<rparr>) = this_cpu s" "this_cpu (s\<lparr>w_tbuffer_cursor := w\<rparr>) = this_cpu s"
  "this_cpu (s\<lparr>r_tbuffer_cursor := w\<rparr>) = this_cpu s" "this_cpu (s\<lparr>uart_tx_lock := l\<rparr>) = this_cpu s"
  by (simp_all add: id_ok_def this_cpu_def cpu_id_def)

section \<open>Sending\<close>

text \<open>
  What the port sees while the driver empties the ring: for each byte a read of the line status,
  whose answer does not matter, and a write of the transmit register.
\<close>

fun transmit :: "(u8, 'd) bus \<Rightarrow> u8 list \<Rightarrow> 'd \<Rightarrow> 'd" where
  "transmit B [] d = d"
| "transmit B (c # cs) d = transmit B cs (bus_write B (find_uart_register THR) c (snd (bus_read B (find_uart_register LSR) d)))"

text \<open>The bytes from the read cursor on.\<close>

definition pending :: "u8 list \<Rightarrow> u64 \<Rightarrow> nat \<Rightarrow> u8 list" where
  "pending buf r n = map (\<lambda>k. buf ! unat ((r + of_nat k) mod 32)) [0..<n]"

lemma pending_Suc: "pending buf r (Suc n) = buf ! unat (r mod 32) # pending buf (r + 1) n"
proof -
  have "[0..<Suc n] = 0 # map Suc [0..<n]" by (metis map_Suc_upt upt_conv_Cons zero_less_Suc)
  then show ?thesis by (simp add: pending_def comp_def add.assoc del: upt_Suc)
qed

lemma uart_send_step_eq:
  assumes "w_tbuffer_cursor s \<noteq> r_tbuffer_cursor s"
  shows "uart_send_step B (go, s) = Inr (True, s\<lparr>r_tbuffer_cursor := r_tbuffer_cursor s + 1,
    dev := transmit B [t_buffer s ! unat (r_tbuffer_cursor s mod 32)] (dev s)\<rparr>)"
  using assms by (simp add: uart_send_step_def read_uart_register_def write_uart_register_def split_beta Let_def)

lemma uart_send_loop:
  "loop_res fst (uart_send_step B) (True, s) = Inr (False, s\<lparr>r_tbuffer_cursor := w_tbuffer_cursor s,
     dev := transmit B (pending (t_buffer s) (r_tbuffer_cursor s) (unat (w_tbuffer_cursor s - r_tbuffer_cursor s))) (dev s)\<rparr>)"
proof (induction "unat (w_tbuffer_cursor s - r_tbuffer_cursor s)" arbitrary: s)
  case 0
  then have "w_tbuffer_cursor s = r_tbuffer_cursor s" by (simp add: unat_eq_0)
  then have "uart_send_step B (True, s) = Inr (False, s)" "s\<lparr>r_tbuffer_cursor := w_tbuffer_cursor s, dev := dev s\<rparr> = s"
    by (simp_all add: uart_send_step_def)
  then show ?case using 0 by (subst loop_res_unfold) (simp add: pending_def)
next
  case (Suc n)
  let ?w = "w_tbuffer_cursor s" and ?r = "r_tbuffer_cursor s"
  let ?s = "s\<lparr>r_tbuffer_cursor := ?r + 1, dev := transmit B [t_buffer s ! unat (?r mod 32)] (dev s)\<rparr>"
  have ne: "?w \<noteq> ?r" using Suc.hyps(2) by auto
  then have n: "unat (?w - (?r + 1)) = n" using unat_diff_Suc [of ?w ?r] Suc.hyps(2) by simp
  have "loop_res fst (uart_send_step B) (True, s) = loop_res fst (uart_send_step B) (True, ?s)"
    by (subst loop_res_unfold) (simp add: uart_send_step_eq [OF ne])
  also have "\<dots> = Inr (False, ?s\<lparr>r_tbuffer_cursor := ?w, dev := transmit B (pending (t_buffer s) (?r + 1) n) (dev ?s)\<rparr>)"
    using Suc.hyps(1) [of ?s] n by simp
  finally show ?case unfolding Suc.hyps(2) [symmetric] by (simp add: pending_Suc)
qed

lemma uart_send_eq:
  "uart_send B s = Inr (s\<lparr>r_tbuffer_cursor := w_tbuffer_cursor s,
     dev := transmit B (pending (t_buffer s) (r_tbuffer_cursor s) (unat (w_tbuffer_cursor s - r_tbuffer_cursor s))) (dev s)\<rparr>)"
  by (simp add: uart_send_def uart_send_loop)

text \<open>
  C28: \<open>uart_send\<close> always returns. It hands every byte between the cursors to the port, in ring
  order, one transmit write each, without regard to what the line status register says, and
  leaves the ring empty; nothing else of the state changes.
\<close>

theorem uart_send_flushes:
  "uart_send B s = Inr (s\<lparr>r_tbuffer_cursor := w_tbuffer_cursor s,
     dev := transmit B (pending (t_buffer s) (r_tbuffer_cursor s) (unat (w_tbuffer_cursor s - r_tbuffer_cursor s))) (dev s)\<rparr>)"
  by (rule uart_send_eq)

section \<open>Writing characters\<close>

text \<open>The driver at rest: its lock is free, the ring is empty and has its 32 bytes.\<close>

definition uart_idle :: "('d, 'a) uart_mach_scheme \<Rightarrow> bool" where
  "uart_idle s \<longleftrightarrow> id_ok s \<and> available (uart_tx_lock s) \<noteq> 0 \<and> w_tbuffer_cursor s = r_tbuffer_cursor s \<and> length (t_buffer s) = 32"

lemma uart_input_idle:
  assumes "uart_idle s"
  shows "\<exists>t. uart_input B c s = Inr t \<and> uart_idle t \<and> r_tbuffer_cursor t = r_tbuffer_cursor s + 1
    \<and> t_buffer t = (t_buffer s)[unat ((r_tbuffer_cursor s + 1) mod 32) := ucast c]
    \<and> dev t = transmit B [t_buffer t ! unat (r_tbuffer_cursor s mod 32)] (dev s)
    \<and> kconsole t = kconsole s \<and> lock_layer (this_cpu t) = lock_layer (this_cpu s)"
proof -
  let ?r = "r_tbuffer_cursor s"
  let ?s1 = "(pushed s)\<lparr>uart_tx_lock := (uart_tx_lock s)\<lparr>available := 0\<rparr>\<rparr>"
  let ?s2 = "?s1\<lparr>w_tbuffer_cursor := ?r + 1, t_buffer := (t_buffer s)[unat ((?r + 1) mod 32) := ucast c]\<rparr>"
  let ?s3 = "?s2\<lparr>r_tbuffer_cursor := ?r + 1, dev := transmit B [t_buffer ?s2 ! unat (?r mod 32)] (dev s)\<rparr>"
  have "loop_res (\<lambda>s. w_tbuffer_cursor s = r_tbuffer_cursor s + 32) Inr ?s1 = Inr ?s1"
    using assms by (intro loop_res_done) (simp add: uart_idle_def)
  moreover have "pending (t_buffer ?s2) ?r 1 = [t_buffer ?s2 ! unat (?r mod 32)]" by (simp add: pending_def)
  then have "uart_send B ?s2 = Inr ?s3" by (simp add: uart_send_eq)
  ultimately have "uart_input B c s = Inr ((popped ?s3)\<lparr>uart_tx_lock := (uart_tx_lock s)\<lparr>available := 1\<rparr>\<rparr>)"
    using assms by (simp add: uart_input_def uart_idle_def acquire_eq release_eq Let_def)
  then show ?thesis using assms by (simp add: uart_idle_def)
qed

lemma uart_input_full:
  assumes "id_ok s" "w_tbuffer_cursor s = r_tbuffer_cursor s + 32"
  shows "uart_input B c s = Inl Diverges"
proof (cases "available (uart_tx_lock s) = 0")
  case False
  let ?s1 = "(pushed s)\<lparr>uart_tx_lock := (uart_tx_lock s)\<lparr>available := 0\<rparr>\<rparr>"
  have "loop_res (\<lambda>s. w_tbuffer_cursor s = r_tbuffer_cursor s + 32) Inr ?s1 = Inl Diverges"
    by (rule loop_res_diverges [where I = "\<lambda>t. t = ?s1"]) (use assms(2) in simp_all)
  then show ?thesis using False assms(1) by (simp add: uart_input_def acquire_eq)
qed (use assms(1) in \<open>simp add: uart_input_def acquire_eq\<close>)

fun uart_inputs :: "(u8, 'd) bus \<Rightarrow> i32 list \<Rightarrow> ('d, 'a) uart_mach_scheme \<Rightarrow> ('d, 'a) uart_mach_scheme res" where
  "uart_inputs B [] s = Inr s"
| "uart_inputs B (c # cs) s = then_res (uart_input B c s) (uart_inputs B cs)"

lemma transmit_append: "transmit B (xs @ ys) d = transmit B ys (transmit B xs d)"
  by (induction xs arbitrary: d) simp_all

lemma ring_neighbours: "unat (r mod 32) \<noteq> unat ((r + 1) mod (32 :: u64))"
proof -
  have "r mod 32 = r AND mask 5" "(r + 1) mod 32 = (r + 1) AND mask 5"
    by (simp_all add: take_bit_eq_mask [symmetric] take_bit_eq_mod)
  moreover have "bit (r + 1) 0 \<noteq> bit r 0" by (simp add: bit_0)
  then have "bit (r AND mask 5) 0 \<noteq> bit ((r + 1) AND mask 5) 0" by (simp add: bit_simps)
  ultimately show ?thesis by (metis word_unat_eq_iff)
qed

text \<open>
  C33: the port runs one character behind. From an idle driver, writing the characters \<open>cs\<close> returns
  and hands the port the byte that was in the ring before and then all of \<open>cs\<close> but the last one,
  which stays in the ring until the next call. On a full ring \<open>uart_input\<close> never returns: nobody
  else can take its lock to empty the ring.
\<close>

theorem uart_inputs_lag:
  assumes "uart_idle s"
  shows "(\<exists>t. uart_inputs B cs s = Inr t \<and> uart_idle t
      \<and> dev t = transmit B (butlast (t_buffer s ! unat (r_tbuffer_cursor s mod 32) # map ucast cs)) (dev s)
      \<and> t_buffer t ! unat (r_tbuffer_cursor t mod 32) = last (t_buffer s ! unat (r_tbuffer_cursor s mod 32) # map ucast cs))
    \<and> uart_input B c (s\<lparr>w_tbuffer_cursor := r_tbuffer_cursor s + 32\<rparr>) = Inl Diverges"
proof -
  have "\<exists>t. uart_inputs B cs s = Inr t \<and> uart_idle t
      \<and> dev t = transmit B (butlast (t_buffer s ! unat (r_tbuffer_cursor s mod 32) # map ucast cs)) (dev s)
      \<and> t_buffer t ! unat (r_tbuffer_cursor t mod 32) = last (t_buffer s ! unat (r_tbuffer_cursor s mod 32) # map ucast cs)"
    using assms
  proof (induction cs arbitrary: s)
    case (Cons c cs)
    from uart_input_idle [OF Cons.prems, of B c] obtain t where t: "uart_input B c s = Inr t" "uart_idle t"
      "r_tbuffer_cursor t = r_tbuffer_cursor s + 1" "t_buffer t = (t_buffer s)[unat ((r_tbuffer_cursor s + 1) mod 32) := ucast c]"
      "dev t = transmit B [t_buffer t ! unat (r_tbuffer_cursor s mod 32)] (dev s)" by blast
    have "unat ((r_tbuffer_cursor s + 1) mod 32) < 32" by (simp add: unat_mod)
    then have "t_buffer t ! unat (r_tbuffer_cursor t mod 32) = ucast c"
      "t_buffer t ! unat (r_tbuffer_cursor s mod 32) = t_buffer s ! unat (r_tbuffer_cursor s mod 32)"
      using t(3,4) Cons.prems ring_neighbours [of "r_tbuffer_cursor s"] by (simp_all add: uart_idle_def)
    with Cons.IH [OF t(2)] t(1,5) show ?case by auto
  qed simp
  with uart_input_full [of "s\<lparr>w_tbuffer_cursor := r_tbuffer_cursor s + 32\<rparr>" B c] assms show ?thesis
    by (simp add: uart_idle_def)
qed

text \<open>A port that answers \<open>busy\<close> to every status read and keeps the bytes it is handed.\<close>

definition demo_bus :: "(u8, u8 list) bus" where
  "demo_bus = \<lparr>bus_read = (\<lambda>a d. (0, d)), bus_write = (\<lambda>a x d. d @ [x])\<rparr>"

definition demo_uart :: "u8 list uart_mach" where
  "demo_uart = mach.extend zero_mach \<lparr>kconsole = \<lparr>con_lock = \<lparr>available = 1\<rparr>, con_buf = replicate 128 0\<rparr>,
     dev = [], t_buffer = replicate 32 0, w_tbuffer_cursor = 0, r_tbuffer_cursor = 0, uart_tx_lock = \<lparr>available = 1\<rparr>\<rparr>"

lemma demo_uart_idle: "uart_idle demo_uart" "id_ok demo_uart"
  by (simp_all add: uart_idle_def demo_uart_def mach.defs id_ok_def cpu_id_def zero_mach_def zero_hart_def)

theorem uart_inputs_lag_witness: "\<exists>t. uart_inputs demo_bus [104, 105] demo_uart = Inr t \<and> dev t = [0, 104]"
proof -
  have "dev demo_uart = []" "t_buffer demo_uart ! unat (r_tbuffer_cursor demo_uart mod 32) = 0"
    by (simp_all add: demo_uart_def mach.defs)
  then show ?thesis using uart_inputs_lag [OF demo_uart_idle(1), of demo_bus "[104, 105]" 0]
    by (auto simp: demo_bus_def)
qed

section \<open>The interrupt handler\<close>

text \<open>
  \<open>uart_inter\<close> never returns, whatever the port answers: its loop goes on after the last character, and a
  second character waits for ever for the console lock that the first one kept.
\<close>

theorem uart_inter_never_returns:
  assumes "id_ok s"
  shows "uart_inter B s = Inl Diverges"
proof -
  let ?I = "\<lambda>(flag :: i32, s). flag = 1 \<and> id_ok s"
  have "case uart_inter_step B p of Inr q \<Rightarrow> ?I q | Inl e \<Rightarrow> e = Diverges" if "?I p" for p
    using that by (cases p)
      (simp add: uart_inter_step_def read_uart_register_def consloe_input_handler_eq split_beta Let_def)
  with assms have "case loop_res (\<lambda>(flag, s). flag \<noteq> 0) (uart_inter_step B) (1, s) of
      Inr q \<Rightarrow> ?I q \<and> \<not> (case q of (flag, s) \<Rightarrow> flag \<noteq> 0) | Inl e \<Rightarrow> e = Diverges \<or> e = Diverges"
    by (intro loop_res_invariant) auto
  then have "loop_res (\<lambda>(flag, s). flag \<noteq> 0) (uart_inter_step B) (1, s) = Inl Diverges"
    by (auto split: sum.splits)
  then show ?thesis by (simp add: uart_inter_def)
qed

theorem uart_inter_never_returns_witness: "uart_inter demo_bus demo_uart = Inl Diverges"
  by (rule uart_inter_never_returns [OF demo_uart_idle(2)])

section \<open>Initialisation\<close>

text \<open>
  \<open>uart_init\<close> gives the port seven writes in this order: interrupts off, divisor latch on, the
  two divisor bytes, eight-bit words with the latch off, the FIFO enabled and cleared, both
  interrupts on; the driver's lock is free afterwards.
\<close>

theorem uart_init_writes:
  "uart_init B s = s\<lparr>uart_tx_lock := \<lparr>available = 1\<rparr>,
     dev := fold (\<lambda>(a, v). bus_write B (0x10000000 + a) v)
       [(1, 0), (3, 0x80), (0, 3), (1, 0), (3, 3), (2, 7), (1, 3)] (dev s)\<rparr>"
  by (simp add: uart_init_def write_uart_register_def uart_regs uart_bits find_uart_register_def UART0_def
      spinlock_init_def Let_def)

end
