(* ===== verification/Trap.thy ===== *)
theory Trap
  imports Proc
begin

text \<open>
  \<open>kernel/trap.c\<close>: entry from and return to user mode, and the classification of a trap.

  The addresses of the assembly routines are parameters, collected in \<open>tramp\<close>. The file does not
  compile as it stands; the readings are: \<open>get_inter_type()\<close> is called with \<open>scause\<close>;
  \<open>c -> cur_proc\<close> on a structure is \<open>c.cur_proc\<close>; \<open>cur_proc -> tf\<close> in \<open>user_trap\<close> is \<open>myproc -> tf\<close>;
  \<open>sstauts\<close> and \<open>sstatus\<close> in \<open>return_2_user\<close> are one variable; the argument \<open>pagetable\<close> of the last
  call is the variable \<open>page\<close> computed for it; \<open>kstack\<close>, which \<open>struct proc\<close> does not declare, is a
  parameter. The jump to \<open>userret\<close> leaves C, so \<open>return_2_user\<close> returns its target and its argument.
\<close>

section \<open>Operations\<close>

record tramp =
  trampoline :: u64
  uservec :: u64
  userret :: u64
  user_trap_addr :: u64
  ktraph :: u64
  kstack :: "nat \<Rightarrow> u64"

definition SOFTWARE_INTER :: i32 where "SOFTWARE_INTER = 0"
definition TIMER_INTER :: i32 where "TIMER_INTER = 1"
definition EXTERNAL_INTER :: i32 where "EXTERNAL_INTER = 2"
definition SYS_CALL :: i32 where "SYS_CALL = 3"

definition trap_init :: "tramp \<Rightarrow> 'a mach_scheme \<Rightarrow> 'a mach_scheme" where
  "trap_init A s = s\<lparr>reg := write_stvec (ktraph A) (reg s)\<rparr>"

definition get_inter_type :: "u64 \<Rightarrow> i32" where
  "get_inter_type cause =
     (if cause AND 0x8000000000000000 \<noteq> 0 \<and> cause AND 0xff = 9 then EXTERNAL_INTER
      else if cause = 0x8000000000000001 then TIMER_INTER
      else if cause = 8 then SYS_CALL
      else - 1)"

text \<open>Every case of the switch is empty; the registers are restored by \<open>ktraph.S\<close>.\<close>

definition kernel_trap :: "'a mach_scheme \<Rightarrow> 'a mach_scheme" where
  "kernel_trap s =
     (let cause = read_scause (reg s)
      in if check_open_interrupts (reg s) = 0 then
           let type = get_inter_type cause
           in if type = TIMER_INTER then s else if type = EXTERNAL_INTER then s else s
         else s)"

definition return_2_user :: "tramp \<Rightarrow> 'a mach_scheme \<Rightarrow> (u64 \<times> u64 \<times> 'a mach_scheme) res" where
  "return_2_user A s =
     then_res (cpu_copy s) (\<lambda>(c, s).
     let myproc = cpu_proc c;
         s = s\<lparr>reg := write_sstatus (read_sstatus (reg s) OR NOT SSTATUS_SIE) (reg s)\<rparr>;
         uhandler = TRAMPOLINE + (uservec A - trampoline A);
         s = s\<lparr>reg := write_stvec uhandler (reg s)\<rparr>
     in case myproc of
          None \<Rightarrow> Inl NullDeref
        | Some i \<Rightarrow>
            if i < length (procs s) then
              case tf (proc_at i s) of
                None \<Rightarrow> Inl NullDeref
              | Some f \<Rightarrow>
                  let f = f\<lparr>tf_kernel_trap := read_satp (reg s)\<rparr>;
                      f = f\<lparr>tf_kernel_sp := kstack A i + 4096\<rparr>;
                      f = f\<lparr>tf_kernel_trap := user_trap_addr A\<rparr>;
                      (t, h) = read_tp (reg s);
                      s = s\<lparr>reg := h\<rparr>;
                      f = f\<lparr>tf_kernel_hartid := t\<rparr>;
                      s = set_proc i (tf_update (\<lambda>_. Some f)) s;
                      s = s\<lparr>reg := write_sepc (tf_epc f) (reg s)\<rparr>;
                      mask = push_bit 60 8;
                      page = mask OR drop_bit 12 (pagetable (proc_at i s));
                      trampoline_userret = TRAMPOLINE + (userret A - trampoline A);
                      sst = read_sstatus (reg s);
                      sst = sst AND NOT (push_bit 11 3);
                      sst = sst OR SSTATUS_SPIE;
                      s = s\<lparr>reg := write_sstatus sst (reg s)\<rparr>
                  in Inr (trampoline_userret, page, s)
            else Inl OutOfBounds)"

text \<open>The switch of \<open>user_trap\<close> compares \<open>scause\<close> itself with the codes, and its cases are empty.\<close>

definition user_trap :: "tramp \<Rightarrow> 'a mach_scheme \<Rightarrow> (u64 \<times> u64 \<times> 'a mach_scheme) res" where
  "user_trap A s =
     (let s = s\<lparr>reg := write_stvec (ktraph A) (reg s)\<rparr>
      in then_res (cpu_copy s) (\<lambda>(c, s).
         case cpu_proc c of
           None \<Rightarrow> Inl NullDeref
         | Some i \<Rightarrow>
             if i < length (procs s) then
               case tf (proc_at i s) of
                 None \<Rightarrow> Inl NullDeref
               | Some f \<Rightarrow>
                   let s = set_proc i (tf_update (\<lambda>_. Some (f\<lparr>tf_epc := read_sepc (reg s)\<rparr>))) s;
                       cause = read_scause (reg s);
                       s = (if cause = ucast SYS_CALL then s else if cause = ucast TIMER_INTER then s else s)
                   in return_2_user A s
             else Inl OutOfBounds))"

section \<open>Back to user mode\<close>

text \<open>
  The process that \<open>cpus[read_tp()]\<close> names, and its trap frame; the three calls of \<open>read_tp\<close> between the
  entry and the jump agree.
\<close>

definition traps_in :: "'a mach_scheme \<Rightarrow> nat \<Rightarrow> trapframe \<Rightarrow> bool" where
  "traps_in s i f \<longleftrightarrow> steady (outreg (reg s)) \<and> unat (outreg (reg s) 0) < length (cpus s) \<and> cpu_proc (cpus s ! unat (outreg (reg s) 0)) = Some i
     \<and> i < length (procs s) \<and> tf (proc_at i s) = Some f"

definition left_kernel :: "tramp \<Rightarrow> nat \<Rightarrow> trapframe \<Rightarrow> u64 \<Rightarrow> trapframe" where
  "left_kernel A i f hartid = f\<lparr>tf_kernel_sp := kstack A i + 4096, tf_kernel_trap := user_trap_addr A,
     tf_kernel_hartid := hartid\<rparr>"

lemma return_2_user_eq:
  assumes "traps_in s i f"
  shows "return_2_user A s = Inr (TRAMPOLINE + (userret A - trampoline A),
    push_bit 60 8 OR drop_bit 12 (pagetable (proc_at i s)),
    (set_proc i (tf_update (\<lambda>_. Some (left_kernel A i f (outreg (reg s) 0)))) s)
      \<lparr>reg := (reg s)\<lparr>tp := outreg (reg s) 0, stvec := TRAMPOLINE + (uservec A - trampoline A), sepc := tf_epc f,
        sstatus := (sstatus (reg s) OR NOT SSTATUS_SIE) AND NOT (push_bit 11 3) OR SSTATUS_SPIE\<rparr>\<rparr>)"
  using assms
  by (simp add: return_2_user_def traps_in_def cpu_copy_eq csr_defs left_kernel_def Let_def set_proc_def proc_at_def)

lemma user_trap_eq:
  assumes "traps_in s i f"
  shows "user_trap A s = return_2_user A (set_proc i (tf_update (\<lambda>_. Some (f\<lparr>tf_epc := sepc (reg s)\<rparr>)))
    (s\<lparr>reg := (reg s)\<lparr>stvec := ktraph A, tp := outreg (reg s) 0\<rparr>\<rparr>))"
  using assms by (simp add: user_trap_def traps_in_def cpu_copy_eq csr_defs set_proc_def proc_at_def Let_def)

text \<open>
  C13: a trap from user mode comes back where it came from: \<open>user_trap\<close> saves \<open>sepc\<close> in the trap frame
  of the process, sets the frame up for the next trap, and jumps to \<open>userret\<close> in the trampoline
  with the page table of the process in Sv39 mode, \<open>sepc\<close> as it was on entry and \<open>stvec\<close> at
  \<open>uservec\<close>; no other process changes. Three things are not as the comments have it: the kernel
  page table is not stored (\<open>kernel_satp\<close> keeps its value), the previous-privilege bit of \<open>sstatus\<close>
  is set, so \<open>sret\<close> stays in supervisor mode, and the interrupt-enable bit is the one on entry.
\<close>

theorem user_trap_resumes:
  assumes "traps_in s i f"
  shows "\<exists>t g. user_trap A s = Inr (TRAMPOLINE + (userret A - trampoline A), push_bit 60 8 OR drop_bit 12 (pagetable (proc_at i s)), t)
    \<and> sepc (reg t) = sepc (reg s) \<and> stvec (reg t) = TRAMPOLINE + (uservec A - trampoline A)
    \<and> tf (proc_at i t) = Some g \<and> tf_epc g = sepc (reg s) \<and> tf_kernel_sp g = kstack A i + 4096
    \<and> tf_kernel_trap g = user_trap_addr A \<and> tf_kernel_hartid g = outreg (reg s) 0 \<and> tf_kernel_satp g = tf_kernel_satp f
    \<and> bit (sstatus (reg t)) 8 \<and> bit (sstatus (reg t)) 5 \<and> interrupts_on (reg t) = interrupts_on (reg s)
    \<and> (\<forall>j. j \<noteq> i \<longrightarrow> proc_at j t = proc_at j s)"
proof -
  let ?s = "set_proc i (tf_update (\<lambda>_. Some (f\<lparr>tf_epc := sepc (reg s)\<rparr>))) (s\<lparr>reg := (reg s)\<lparr>stvec := ktraph A, tp := outreg (reg s) 0\<rparr>\<rparr>)"
  have "traps_in ?s i (f\<lparr>tf_epc := sepc (reg s)\<rparr>)" using assms by (simp add: traps_in_def)
  from return_2_user_eq [OF this, of A] user_trap_eq [OF assms, of A] assms show ?thesis
    by (simp add: left_kernel_def traps_in_def interrupts_on_def SSTATUS_SIE_def SSTATUS_SPIE_def bit_simps)
qed

definition trap_mach :: mach where
  "trap_mach = zero_mach\<lparr>cpus := replicate 8 (zero_cpu\<lparr>cpu_proc := Some 0\<rparr>),
     procs := replicate 64 (zero_proc\<lparr>tf := Some \<lparr>tf_kernel_satp = 0, tf_kernel_sp = 0, tf_kernel_trap = 0, tf_epc = 0,
       tf_kernel_hartid = 0, tf_ra = 0, tf_sp = 0, tf_gp = 0, tf_tp = 0, tf_t0 = 0, tf_t1 = 0, tf_t2 = 0, tf_s0 = 0,
       tf_s1 = 0, tf_a0 = 0, tf_a1 = 0, tf_a2 = 0, tf_a3 = 0, tf_a4 = 0, tf_a5 = 0, tf_a6 = 0, tf_a7 = 0, tf_s2 = 0,
       tf_s3 = 0, tf_s4 = 0, tf_s5 = 0, tf_s6 = 0, tf_s7 = 0, tf_s8 = 0, tf_s9 = 0, tf_s10 = 0, tf_s11 = 0, tf_t3 = 0,
       tf_t4 = 0, tf_t5 = 0, tf_t6 = 0\<rparr>\<rparr>), reg := zero_hart\<lparr>sepc := 0x44\<rparr>\<rparr>"

definition demo_tramp :: tramp where
  "demo_tramp = \<lparr>trampoline = 0x80001000, uservec = 0x80001000, userret = 0x80001090, user_trap_addr = 0x80002000,
     ktraph = 0x80003000, kstack = (\<lambda>i. KSTACK (of_nat i))\<rparr>"

theorem user_trap_resumes_witness:
  "\<exists>t. user_trap demo_tramp trap_mach = Inr (TRAMPOLINE + 0x90, 0x8000000000000000, t)
    \<and> sepc (reg t) = 0x44 \<and> bit (sstatus (reg t)) 8"
proof -
  obtain f where f: "traps_in trap_mach 0 f" "pagetable (proc_at 0 trap_mach) = 0" "sepc (reg trap_mach) = 0x44"
    by (simp add: traps_in_def trap_mach_def proc_at_def zero_mach_def zero_hart_def zero_proc_def)
  from user_trap_resumes [OF f(1), of demo_tramp] f(2,3) show ?thesis
    by (auto simp: demo_tramp_def)
qed

end
