(* ===== verification/Boot.thy ===== *)
theory Boot
  imports Vm Trap
begin

text \<open>
  \<open>kernel/start.c\<close> and \<open>kernel/main.c\<close>: from reset in machine mode to the kernel in supervisor mode.

  The timer of the core-local interruptor is a device on a 64-bit bus. The addresses of \<open>main\<close>,
  of the timer handler and of \<open>timer_scratch\<close> are parameters. \<open>start\<close> ends in \<open>mret\<close>, which enters the
  privilege mode of the field \<open>MPP\<close> of \<open>mstatus\<close>. \<open>main\<close> calls \<open>spinlock_init()\<close> without an argument:
  the routine writes through whatever pointer is in the argument register, so the effect of
  that call is a parameter, \<open>stray\<close>. The end of the kernel image, which the linker knows, is the
  parameter \<open>kend\<close>. \<open>main\<close> does its work on the hart to which \<open>read_tp\<close> gives 0; by \<open>RiscV\<close> that need not
  be hart 0.

  \<open>start\<close> calls \<open>write_mscratch\<close>, whose instruction names the register \<open>mscartch\<close>; as said in \<open>RiscV\<close> it is
  read as \<open>mscratch\<close>. What the theorem below says of \<open>mscratch\<close> is about the file with that name
  repaired; as written it does not assemble.
\<close>

section \<open>start.c\<close>

record 'd boot =
  b_reg :: hart
  clint :: 'd
  timer_scratch :: "u64 list list"

record boot_addrs =
  main_addr :: u64
  ttraph :: u64
  timer_scratch_addr :: u64

definition timer_inter_init :: "(u64, 'd) bus \<Rightarrow> boot_addrs \<Rightarrow> 'd boot \<Rightarrow> 'd boot res" where
  "timer_inter_init B A s =
     (let delay = 1000000 :: i32;
          core_id = ucast (read_mhartid (b_reg s)) :: i32;
          (mtime_since_boot, d) = bus_read B CLINT_MTIME (clint s);
          d = bus_write B (CLINT_MTIMECMP (scast core_id)) (mtime_since_boot + scast delay) d;
          s = s\<lparr>clint := d\<rparr>
      in if unat core_id < length (timer_scratch s) then
           let row = (timer_scratch s ! unat core_id)[3 := CLINT_MTIMECMP (scast core_id)];
               row = row[4 := scast delay];
               s = s\<lparr>timer_scratch := (timer_scratch s)[unat core_id := row]\<rparr>;
               h = write_mscratch (timer_scratch_addr A + 40 * scast core_id) (b_reg s);
               h = write_mtvec (ttraph A) h;
               h = write_mstatus (read_mie h OR push_bit 3 1) h;
               h = write_mie (read_mie h OR MIE_MTIE) h
           in Inr (s\<lparr>b_reg := h\<rparr>)
         else Inl OutOfBounds)"

definition start :: "(u64, 'd) bus \<Rightarrow> boot_addrs \<Rightarrow> 'd boot \<Rightarrow> 'd boot res" where
  "start B A s =
     (let h = b_reg s;
          mst = read_mstatus h;
          mst = mst AND NOT (push_bit 11 3);
          mst = mst OR push_bit 11 1;
          h = write_mstatus mst h;
          h = write_mepc (main_addr A) h;
          h = write_satp 0 h
      in then_res (timer_inter_init B A (s\<lparr>b_reg := h\<rparr>)) (\<lambda>s.
         Inr (s\<lparr>b_reg := write_tp (read_mhartid (b_reg s)) (b_reg s)\<rparr>)))"

text \<open>The mode that \<open>mret\<close> enters: 0 user, 1 supervisor, 3 machine.\<close>

definition mret_mode :: "hart \<Rightarrow> u64" where
  "mret_mode h = take_bit 2 (drop_bit 11 (mstatus h))"

lemma core_id_small:
  fixes m :: u64
  assumes "unat m < 8"
  shows "scast (ucast m :: i32) = m" "unat (ucast m :: i32) = unat m"
proof -
  define k where "k = unat m"
  have m: "m = of_nat k" by (simp add: k_def)
  have "k < 8" using assms by (simp add: k_def)
  then have "k = 0 \<or> k = 1 \<or> k = 2 \<or> k = 3 \<or> k = 4 \<or> k = 5 \<or> k = 6 \<or> k = 7" by arith
  then show "scast (ucast m :: i32) = m" "unat (ucast m :: i32) = unat m" unfolding m by (elim disjE; simp)+
qed

lemma list5_drop3: "length row = 5 \<Longrightarrow> drop 3 (row[3 := a, 4 := b]) = [a, b]"
  by (auto simp: numeral_eq_Suc length_Suc_conv)

text \<open>
  C30: on each of the eight harts \<open>start\<close> sets the timer 1000000 ticks ahead, fills the hart's scratch
  row for the timer handler, and reaches \<open>mret\<close> with \<open>mepc\<close> at \<open>main\<close>, paging off, the timer
  interrupt enabled and the hart's number in \<open>tp\<close>. The mode \<open>mret\<close> enters is not the one line 60 asked
  for: it is read from the bits of \<open>mie\<close>, because the timer set-up writes \<open>mie | 8\<close> over \<open>mstatus\<close>;
  with \<open>mie\<close> 0, as after reset, it is user mode. The timer handler's scratch register points at the
  hart's row, once the misspelt register name of \<open>write_mscratch\<close> is repaired to \<open>mscratch\<close>.
\<close>

theorem start_reaches_main:
  assumes "unat (mhartid (b_reg s)) < 8" "length (timer_scratch s) = 8" "\<forall>row \<in> set (timer_scratch s). length row = 5"
  shows "\<exists>t. start B A s = Inr t \<and> mepc (b_reg t) = main_addr A \<and> satp (b_reg t) = 0 \<and> tp (b_reg t) = mhartid (b_reg s)
    \<and> mtvec (b_reg t) = ttraph A \<and> mscratch (b_reg t) = timer_scratch_addr A + 40 * mhartid (b_reg s)
    \<and> bit (mie (b_reg t)) 7 \<and> bit (mstatus (b_reg t)) 3
    \<and> drop 3 (timer_scratch t ! unat (mhartid (b_reg s))) = [CLINT_MTIMECMP (mhartid (b_reg s)), 1000000]
    \<and> clint t = (case bus_read B CLINT_MTIME (clint s) of (now, d) \<Rightarrow> bus_write B (CLINT_MTIMECMP (mhartid (b_reg s))) (now + 1000000) d)
    \<and> mret_mode (b_reg t) = take_bit 2 (drop_bit 11 (mie (b_reg s)))
    \<and> (mie (b_reg s) = 0 \<longrightarrow> mret_mode (b_reg t) = 0)"
proof -
  let ?m = "mhartid (b_reg s)"
  note core = core_id_small [OF assms(1)]
  obtain now d where now: "bus_read B CLINT_MTIME (clint s) = (now, d)" by fastforce
  have row: "length (timer_scratch s ! unat ?m) = 5" using assms by simp
  have mode: "drop_bit 11 (mie (b_reg s) OR 8) = drop_bit 11 (mie (b_reg s))" by (simp add: drop_bit_or)
  show ?thesis
    using assms row now mode core list5_drop3 [OF row]
    by (simp add: start_def timer_inter_init_def csr_defs mret_mode_def MIE_MTIE_def Let_def bit_simps)
qed

definition demo_clint :: "(u64, u64 \<times> u64) bus" where
  "demo_clint = \<lparr>bus_read = (\<lambda>a (now, cmp). (now, (now, cmp))), bus_write = (\<lambda>a v (now, cmp). (now, v))\<rparr>"

definition reset_hart :: "(u64 \<times> u64) boot" where
  "reset_hart = \<lparr>b_reg = zero_hart\<lparr>mhartid := 3\<rparr>, clint = (77, 0), timer_scratch = replicate 8 (replicate 5 0)\<rparr>"

theorem start_reaches_main_witness:
  "\<exists>t. start demo_clint \<lparr>main_addr = 0x80000100, ttraph = 0x80000200, timer_scratch_addr = 0x80009000\<rparr> reset_hart = Inr t
    \<and> mepc (b_reg t) = 0x80000100 \<and> clint t = (77, 1000077) \<and> mret_mode (b_reg t) = 0"
  using start_reaches_main [of reset_hart demo_clint "\<lparr>main_addr = 0x80000100, ttraph = 0x80000200, timer_scratch_addr = 0x80009000\<rparr>"]
  by (auto simp: reset_hart_def demo_clint_def zero_hart_def)

section \<open>main.c\<close>

definition kmain ::
  "u64 \<Rightarrow> ('a kvm_scheme \<Rightarrow> 'a kvm_scheme) \<Rightarrow> u64 \<Rightarrow> tramp \<Rightarrow> 'a kvm_scheme \<Rightarrow> 'a kvm_scheme res" where
  "kmain kend stray etext A s =
     (let (t, h) = read_tp (reg s);
          s = s\<lparr>reg := h\<rparr>
      in if t = 0 then
           let s = stray s
           in then_res (kalloc_init kend s) (\<lambda>s.
              then_res (kvm_init etext (trampoline A) s) (\<lambda>s.
              let s = kvm_page_start s
              in Inr (trap_init A s)))
         else Inr s)"

text \<open>
  No hart gets through \<open>main\<close>. The one to which \<open>read_tp\<close> gives 0 overruns the memory in \<open>kalloc_init\<close>;
  the others return at once, without a page table and without a trap vector. Even with the pages
  in place the first one would stop at the lock of the allocator, which nothing initialises.
\<close>

lemma kmain_outcome:
  "kmain kend stray etext A s = (if outreg (reg s) 0 = 0 then Inl OutOfBounds else Inr (s\<lparr>reg := snd (read_tp (reg s))\<rparr>))"
  by (simp add: kmain_def read_tp_def kalloc_init_faults Let_def)

lemma kvm_init_hangs:
  "id_ok s \<Longrightarrow> available (k_lock (page_list_keeper s)) = 0 \<Longrightarrow> kvm_init etext tramp s = Inl Diverges"
  by (simp add: kvm_init_def kalloc_eq)

end
