(* ===== verification/Buf.thy ===== *)
theory Buf
  imports Kalloc Sleeplock
begin

text \<open>
  \<open>struct buf\<close> of \<open>kernel/bio.c\<close> and the globals of that file: the 30 buffers, and the structure
  \<open>cache\<close> with the head of the list and its lock. The disk driver and the buffer cache work on them.

  A pointer to a buffer is a reference: the list head, or an index into \<open>buffers\<close>; a null pointer
  is \<open>None\<close>. The array is a function of the index; \<open>valid_ref\<close> says that an index is one of the 30.
  The sleep lock of a buffer is declared \<open>splk\<close> and used as \<open>sllk\<close>; the lock of the cache is
  declared \<open>lock\<close> and used as \<open>splk\<close>: they are one field each. \<open>virtio_disk.c\<close> calls the fields
  \<open>block_no\<close> and \<open>handled2disk\<close> \<open>blockno\<close> and \<open>disk\<close>.
\<close>

datatype bufref = Head | Buf nat

record buf =
  valid :: i32
  handled2disk :: i32
  block_no :: u32
  sllk :: sleeplock
  buf_dev :: u32
  buf_data :: "u8 list"
  link_no :: u32
  b_prior :: "bufref option"
  b_next :: "bufref option"

record buf_mach = kmem +
  buffers :: "nat \<Rightarrow> buf"
  cache_head :: buf
  cache_lock :: spinlock

section \<open>Reading and writing a buffer\<close>

fun valid_ref :: "bufref \<Rightarrow> bool" where
  "valid_ref Head = True"
| "valid_ref (Buf i) = (i < 30)"

fun get_buf :: "bufref \<Rightarrow> 'a buf_mach_scheme \<Rightarrow> buf" where
  "get_buf Head s = cache_head s"
| "get_buf (Buf i) s = buffers s i"

fun set_buf :: "bufref \<Rightarrow> (buf \<Rightarrow> buf) \<Rightarrow> 'a buf_mach_scheme \<Rightarrow> 'a buf_mach_scheme" where
  "set_buf Head f s = s\<lparr>cache_head := f (cache_head s)\<rparr>"
| "set_buf (Buf i) f s = s\<lparr>buffers := (buffers s)(i := f (buffers s i))\<rparr>"

lemma get_set_buf [simp]: "get_buf c (set_buf b f s) = (if c = b then f (get_buf b s) else get_buf c s)"
  by (cases b; cases c) auto

lemma set_buf_frame [simp]:
  "mach.truncate (set_buf b f s) = mach.truncate s" "reg (set_buf b f s) = reg s" "gpr (set_buf b f s) = gpr s"
  "cpus (set_buf b f s) = cpus s" "procs (set_buf b f s) = procs s" "mem (set_buf b f s) = mem s"
  "page_list_keeper (set_buf b f s) = page_list_keeper s" "cache_lock (set_buf b f s) = cache_lock s"
  "buf_mach.more (set_buf b f s) = buf_mach.more s"
  by (cases b; simp add: mach.truncate_def)+

lemma set_buf_cpu [simp]: "id_ok (set_buf b f s) = id_ok s" "this_cpu (set_buf b f s) = this_cpu s" "hart_ok (set_buf b f s) = hart_ok s"
  "proc_at i (set_buf b f s) = proc_at i s"
  by (simp_all add: id_ok_def this_cpu_def cpu_id_def hart_ok_def proc_at_def)

text \<open>Everything a component keeps beside the machine part is a function of \<open>mach.more\<close>.\<close>

lemma buf_more:
  assumes "mach.more s = mach.more t"
  shows "mem s = mem t" "page_list_keeper s = page_list_keeper t" "buffers s = buffers t" "cache_head s = cache_head t"
    "cache_lock s = cache_lock t" "get_buf b s = get_buf b t"
    "buf_mach.more s = buf_mach.more t"
  using assms by (cases s; cases t; cases b; simp)+

end
