(* ===== verification/Virtio_Disk.thy ===== *)
theory Virtio_Disk
  imports Buf
begin

text \<open>
  \<open>kernel/virtio_disk.c\<close>: the driver of the virtio block device.

  The headers it includes are not in the repository, so the constants of \<open>virtio.h\<close>, the block size
  and the addresses of the driver's own objects, which it hands to the device, are a parameter,
  \<open>virtio\<close>; so are the registers of the device (a 32-bit \<open>bus\<close>) and \<open>initlock\<close>. The pages of the queue
  are seen as the arrays of structures the driver uses them as. \<open>kalloc\<close> follows the null pointer when it has no page left, so the panic
  for a missing page of the queue, which comes after it, is never reached. \<open>__sync_synchronize\<close> orders the
  accesses of other observers and has no effect here. \<open>resume\<close> is what the rest of the system, the
  device included, does while the caller sleeps.
\<close>

section \<open>Structures\<close>

record virtq_desc =
  d_addr :: u64
  d_len :: u32
  d_flags :: u16
  d_nxt :: u16

record virtq_avail =
  a_idx :: u16
  a_ring :: "u16 list"

record virtq_used =
  u_idx :: u16
  u_ring :: "u32 list"

record info =
  i_b :: "bufref option"
  i_status :: u8

record virtio_blk_req =
  r_type :: u32
  r_reserved :: u32
  r_sector :: u64

record disk =
  desc_page :: u64
  avail_page :: u64
  used_page :: u64
  desc :: "virtq_desc list"
  avail :: virtq_avail
  used :: virtq_used
  free :: "u8 list"
  used_idx :: u16
  infos :: "info list"
  ops :: "virtio_blk_req list"
  vdisk_lock :: spinlock

record 'd disk_mach = buf_mach +
  disk :: disk
  vdev :: 'd

datatype vreg = MMIO_MAGIC_VALUE | MMIO_VERSION | MMIO_DEVICE_ID | MMIO_VENDOR_ID | MMIO_DEVICE_FEATURES
  | MMIO_DRIVER_FEATURES | MMIO_QUEUE_SEL | MMIO_QUEUE_NUM_MAX | MMIO_QUEUE_NUM | MMIO_QUEUE_READY
  | MMIO_QUEUE_NOTIFY | MMIO_INTERRUPT_STATUS | MMIO_INTERRUPT_ACK | MMIO_STATUS | MMIO_QUEUE_DESC_LOW
  | MMIO_QUEUE_DESC_HIGH | MMIO_DRIVER_DESC_LOW | MMIO_DRIVER_DESC_HIGH | MMIO_DEVICE_DESC_LOW | MMIO_DEVICE_DESC_HIGH

datatype vstatus = S_ACKNOWLEDGE | S_DRIVER | S_DRIVER_OK | S_FEATURES_OK

datatype vfeature = BLK_F_RO | BLK_F_SCSI | BLK_F_CONFIG_WCE | BLK_F_MQ | F_ANY_LAYOUT | RING_F_EVENT_IDX | RING_F_INDIRECT_DESC

record virtio =
  NUM :: nat
  reg_offset :: "vreg \<Rightarrow> u64"
  status_bit :: "vstatus \<Rightarrow> u32"
  feature_bit :: "vfeature \<Rightarrow> nat"
  VRING_DESC_F_NEXT :: u16
  VRING_DESC_F_WRITE :: u16
  VIRTIO_BLK_T_IN :: u32
  VIRTIO_BLK_T_OUT :: u32
  sizeof_blk_req :: u32
  block_bytes :: u32
  ops_addr :: "nat \<Rightarrow> u64"
  status_addr :: "nat \<Rightarrow> u64"
  data_addr :: "bufref \<Rightarrow> u64"
  buf_addr :: "bufref \<Rightarrow> u64"
  free_addr :: u64
  initlock :: "spinlock \<Rightarrow> string \<Rightarrow> spinlock"

section \<open>Device registers\<close>

definition R :: "virtio \<Rightarrow> vreg \<Rightarrow> u64" where
  "R P r = VIRTIO0 + reg_offset P r"

definition rd :: "virtio \<Rightarrow> (u32, 'd) bus \<Rightarrow> vreg \<Rightarrow> ('d, 'a) disk_mach_scheme \<Rightarrow> u32 \<times> ('d, 'a) disk_mach_scheme" where
  "rd P B r s = (let (v, d) = bus_read B (R P r) (vdev s) in (v, s\<lparr>vdev := d\<rparr>))"

definition wr :: "virtio \<Rightarrow> (u32, 'd) bus \<Rightarrow> vreg \<Rightarrow> u32 \<Rightarrow> ('d, 'a) disk_mach_scheme \<Rightarrow> ('d, 'a) disk_mach_scheme" where
  "wr P B r v s = s\<lparr>vdev := bus_write B (R P r) v (vdev s)\<rparr>"

section \<open>Initialisation\<close>

text \<open>Lines 68 to 73; the operands of \<open>||\<close> are read one after the other.\<close>

definition virtio_probe :: "virtio \<Rightarrow> (u32, 'd) bus \<Rightarrow> ('d, 'a) disk_mach_scheme \<Rightarrow> ('d, 'a) disk_mach_scheme res" where
  "virtio_probe P B s =
     (let (v, s) = rd P B MMIO_MAGIC_VALUE s
      in if v \<noteq> 0x74726976 then Inl (Panic ''could not find virtio disk'') else
      let (v, s) = rd P B MMIO_VERSION s
      in if v \<noteq> 2 then Inl (Panic ''could not find virtio disk'') else
      let (v, s) = rd P B MMIO_DEVICE_ID s
      in if v \<noteq> 2 then Inl (Panic ''could not find virtio disk'') else
      let (v, s) = rd P B MMIO_VENDOR_ID s
      in if v \<noteq> 0x554d4551 then Inl (Panic ''could not find virtio disk'') else Inr s)"

text \<open>\<open>features &= ~(1 << f)\<close>, with the complement taken on \<open>int\<close> and widened.\<close>

definition drop_feature :: "virtio \<Rightarrow> u64 \<Rightarrow> vfeature \<Rightarrow> u64" where
  "drop_feature P features f = features AND scast (NOT (push_bit (feature_bit P f) 1 :: i32))"

text \<open>Lines 75 to 104; the first component is \<open>status\<close>.\<close>

definition virtio_negotiate :: "virtio \<Rightarrow> (u32, 'd) bus \<Rightarrow> ('d, 'a) disk_mach_scheme \<Rightarrow> (u32 \<times> ('d, 'a) disk_mach_scheme) res" where
  "virtio_negotiate P B s =
     (let status = 0;
          s = wr P B MMIO_STATUS status s;
          status = status OR status_bit P S_ACKNOWLEDGE;
          s = wr P B MMIO_STATUS status s;
          status = status OR status_bit P S_DRIVER;
          s = wr P B MMIO_STATUS status s;
          (v, s) = rd P B MMIO_DEVICE_FEATURES s;
          features = foldl (drop_feature P) (ucast v)
            [BLK_F_RO, BLK_F_SCSI, BLK_F_CONFIG_WCE, BLK_F_MQ, F_ANY_LAYOUT, RING_F_EVENT_IDX, RING_F_INDIRECT_DESC];
          s = wr P B MMIO_DRIVER_FEATURES (ucast features) s;
          status = status OR status_bit P S_FEATURES_OK;
          s = wr P B MMIO_STATUS status s;
          (status, s) = rd P B MMIO_STATUS s
      in if status AND status_bit P S_FEATURES_OK = 0 then Inl (Panic ''virtio disk FEATURES_OK unset'')
         else Inr (status, s))"

text \<open>Lines 106 to 118.\<close>

definition virtio_check_queue :: "virtio \<Rightarrow> (u32, 'd) bus \<Rightarrow> ('d, 'a) disk_mach_scheme \<Rightarrow> ('d, 'a) disk_mach_scheme res" where
  "virtio_check_queue P B s =
     (let s = wr P B MMIO_QUEUE_SEL 0 s;
          (v, s) = rd P B MMIO_QUEUE_READY s
      in if v \<noteq> 0 then Inl (Panic ''virtio disk should not be ready'') else
      let (mx, s) = rd P B MMIO_QUEUE_NUM_MAX s
      in if mx = 0 then Inl (Panic ''virtio disk has no queue 0'')
         else if unat mx < NUM P then Inl (Panic ''virtio disk max queue too short'')
         else Inr s)"

text \<open>Lines 120 to 128: the three pages, and what the driver sees in them once they are zeroed.\<close>

definition virtio_queue_pages :: "virtio \<Rightarrow> ('d, 'a) disk_mach_scheme \<Rightarrow> ('d, 'a) disk_mach_scheme res" where
  "virtio_queue_pages P s =
     then_res (kalloc s) (\<lambda>(p, s).
     then_res (kalloc s) (\<lambda>(q, s).
     then_res (kalloc s) (\<lambda>(r, s).
     let s = s\<lparr>disk := (disk s)\<lparr>desc_page := p, avail_page := q, used_page := r\<rparr>\<rparr>
     in if p = 0 \<or> q = 0 \<or> r = 0 then Inl (Panic ''virtio disk kalloc'')
        else Inr (s\<lparr>mem := fill (fill (fill (mem s) p 4096 0) q 4096 0) r 4096 0,
               disk := (disk s)\<lparr>desc := replicate (NUM P) \<lparr>d_addr = 0, d_len = 0, d_flags = 0, d_nxt = 0\<rparr>,
                 avail := \<lparr>a_idx = 0, a_ring = replicate (NUM P) 0\<rparr>,
                 used := \<lparr>u_idx = 0, u_ring = replicate (NUM P) 0\<rparr>\<rparr>\<rparr>))))"

text \<open>Lines 130 to 150.\<close>

definition virtio_start_queue :: "virtio \<Rightarrow> (u32, 'd) bus \<Rightarrow> u32 \<Rightarrow> ('d, 'a) disk_mach_scheme \<Rightarrow> ('d, 'a) disk_mach_scheme" where
  "virtio_start_queue P B status s =
     (let s = wr P B MMIO_QUEUE_NUM (of_nat (NUM P)) s;
          s = wr P B MMIO_QUEUE_DESC_LOW (ucast (desc_page (disk s))) s;
          s = wr P B MMIO_QUEUE_DESC_HIGH (ucast (drop_bit 32 (desc_page (disk s)))) s;
          s = wr P B MMIO_DRIVER_DESC_LOW (ucast (avail_page (disk s))) s;
          s = wr P B MMIO_DRIVER_DESC_HIGH (ucast (drop_bit 32 (avail_page (disk s)))) s;
          s = wr P B MMIO_DEVICE_DESC_LOW (ucast (used_page (disk s))) s;
          s = wr P B MMIO_DEVICE_DESC_HIGH (ucast (drop_bit 32 (used_page (disk s)))) s;
          s = wr P B MMIO_QUEUE_READY 0x1 s;
          s = s\<lparr>disk := (disk s)\<lparr>free := fold (\<lambda>i f. f[i := 1]) [0..<NUM P] (free (disk s))\<rparr>\<rparr>;
          status = status OR status_bit P S_DRIVER_OK
      in wr P B MMIO_STATUS status s)"

definition virtio_disk_init :: "virtio \<Rightarrow> (u32, 'd) bus \<Rightarrow> ('d, 'a) disk_mach_scheme \<Rightarrow> ('d, 'a) disk_mach_scheme res" where
  "virtio_disk_init P B s =
     (let s = s\<lparr>disk := (disk s)\<lparr>vdisk_lock := initlock P (vdisk_lock (disk s)) ''virtio_disk''\<rparr>\<rparr>
      in then_res (virtio_probe P B s) (\<lambda>s.
         then_res (virtio_negotiate P B s) (\<lambda>(status, s).
         then_res (virtio_check_queue P B s) (\<lambda>s.
         then_res (virtio_queue_pages P s) (\<lambda>s.
         Inr (virtio_start_queue P B status s))))))"

section \<open>Descriptors\<close>

text \<open>The loop of \<open>alloc_desc\<close> from \<open>i\<close> on, with \<open>n\<close> turns left.\<close>

fun alloc_desc_loop :: "nat \<Rightarrow> nat \<Rightarrow> disk \<Rightarrow> int \<times> disk" where
  "alloc_desc_loop 0 i d = (- 1, d)"
| "alloc_desc_loop (Suc n) i d =
     (if free d ! i \<noteq> 0 then (int i, d\<lparr>free := (free d)[i := 0]\<rparr>) else alloc_desc_loop n (Suc i) d)"

definition alloc_desc :: "virtio \<Rightarrow> disk \<Rightarrow> int \<times> disk" where
  "alloc_desc P d = alloc_desc_loop (NUM P) 0 d"

definition free_desc :: "virtio \<Rightarrow> int \<Rightarrow> ('d, 'a) disk_mach_scheme \<Rightarrow> ('d, 'a) disk_mach_scheme res" where
  "free_desc P i s =
     (if i \<ge> int (NUM P) then Inl (Panic ''free_desc 1'')
      else if i < 0 then Inl OutOfBounds
      else if free (disk s) ! nat i \<noteq> 0 then Inl (Panic ''free_desc 2'')
      else
        let d = disk s;
            d = d\<lparr>desc := (desc d)[nat i := \<lparr>d_addr = 0, d_len = 0, d_flags = 0, d_nxt = 0\<rparr>]\<rparr>;
            d = d\<lparr>free := (free d)[nat i := 1]\<rparr>
        in wakeup (free_addr P) (s\<lparr>disk := d\<rparr>))"

text \<open>
  One turn of \<open>while(1)\<close>; the flag is \<open>False\<close> after the \<open>break\<close>. The page of descriptors is longer than
  \<open>NUM\<close>: for an index past the array the code reads what the memory holds there, and \<open>free_desc\<close>
  panics before it uses what it read, so those values do not matter.
\<close>

definition free_chain_step ::
  "virtio \<Rightarrow> bool \<times> int \<times> ('d, 'a) disk_mach_scheme \<Rightarrow> (bool \<times> int \<times> ('d, 'a) disk_mach_scheme) res" where
  "free_chain_step P = (\<lambda>(go, i, s).
     if i < 0 then Inl OutOfBounds
     else
       let d = (if nat i < length (desc (disk s)) then desc (disk s) ! nat i
                else \<lparr>d_addr = 0, d_len = 0, d_flags = 0, d_nxt = 0\<rparr>);
           flag = d_flags d;
           nxt = int (unat (d_nxt d))
       in then_res (free_desc P i s) (\<lambda>s.
          if flag AND VRING_DESC_F_NEXT P \<noteq> 0 then Inr (True, nxt, s) else Inr (False, i, s)))"

definition free_chain :: "virtio \<Rightarrow> int \<Rightarrow> ('d, 'a) disk_mach_scheme \<Rightarrow> ('d, 'a) disk_mach_scheme res" where
  "free_chain P i s = then_res (loop_res fst (free_chain_step P) (True, i, s)) (\<lambda>(go, i, s). Inr s)"

fun free_descs :: "virtio \<Rightarrow> int list \<Rightarrow> ('d, 'a) disk_mach_scheme \<Rightarrow> ('d, 'a) disk_mach_scheme res" where
  "free_descs P [] s = Inr s"
| "free_descs P (j # js) s = then_res (free_desc P j s) (free_descs P js)"

text \<open>The loop of \<open>alloc3_desc\<close>: \<open>idx\<close> is the part of the array already filled.\<close>

fun alloc3_loop :: "virtio \<Rightarrow> nat \<Rightarrow> int list \<Rightarrow> ('d, 'a) disk_mach_scheme \<Rightarrow> (int \<times> int list \<times> ('d, 'a) disk_mach_scheme) res" where
  "alloc3_loop P 0 idx s = Inr (0, idx, s)"
| "alloc3_loop P (Suc n) idx s =
     (let (k, d) = alloc_desc P (disk s);
          s = s\<lparr>disk := d\<rparr>
      in if k < 0 then then_res (free_descs P idx s) (\<lambda>s. Inr (- 1, idx @ [k], s))
         else alloc3_loop P n (idx @ [k]) s)"

definition alloc3_desc :: "virtio \<Rightarrow> ('d, 'a) disk_mach_scheme \<Rightarrow> (int \<times> int list \<times> ('d, 'a) disk_mach_scheme) res" where
  "alloc3_desc P s = alloc3_loop P 3 [] s"

section \<open>A request\<close>

definition get_vdisk_lock :: "('d, 'a) disk_mach_scheme \<Rightarrow> spinlock" where
  "get_vdisk_lock s = vdisk_lock (disk s)"

definition put_vdisk_lock :: "spinlock \<Rightarrow> ('d, 'a) disk_mach_scheme \<Rightarrow> ('d, 'a) disk_mach_scheme" where
  "put_vdisk_lock l s = s\<lparr>disk := (disk s)\<lparr>vdisk_lock := l\<rparr>\<rparr>"

text \<open>Lines 228 to 233: allocate, or sleep and try again.\<close>

definition rw_alloc_step ::
  "virtio \<Rightarrow> (('d, 'a) disk_mach_scheme \<Rightarrow> ('d, 'a) disk_mach_scheme res) \<Rightarrow>
   int list option \<times> ('d, 'a) disk_mach_scheme \<Rightarrow> (int list option \<times> ('d, 'a) disk_mach_scheme) res" where
  "rw_alloc_step P resume = (\<lambda>(got, s).
     then_res (alloc3_desc P s) (\<lambda>(ret, idx, s).
     if ret = 0 then Inr (Some idx, s)
     else then_res (sleep get_vdisk_lock put_vdisk_lock (free_addr P) resume s) (\<lambda>s. Inr (None, s))))"

text \<open>Lines 238 to 265: the request header and the three descriptors.\<close>

definition format_descs :: "virtio \<Rightarrow> bufref \<Rightarrow> bool \<Rightarrow> u64 \<Rightarrow> nat \<Rightarrow> nat \<Rightarrow> nat \<Rightarrow> disk \<Rightarrow> disk" where
  "format_descs P b write sector i j k d =
     (let buf0 = \<lparr>r_type = if write then VIRTIO_BLK_T_OUT P else VIRTIO_BLK_T_IN P, r_reserved = 0, r_sector = sector\<rparr>;
          d = d\<lparr>ops := (ops d)[i := buf0]\<rparr>;
          d = d\<lparr>desc := (desc d)[i := \<lparr>d_addr = ops_addr P i, d_len = sizeof_blk_req P,
                 d_flags = VRING_DESC_F_NEXT P, d_nxt = of_nat j\<rparr>]\<rparr>;
          d = d\<lparr>desc := (desc d)[j := \<lparr>d_addr = data_addr P b, d_len = block_bytes P,
                 d_flags = (if write then 0 else VRING_DESC_F_WRITE P) OR VRING_DESC_F_NEXT P, d_nxt = of_nat k\<rparr>]\<rparr>;
          d = d\<lparr>infos := (infos d)[i := (infos d ! i)\<lparr>i_status := 0xff\<rparr>]\<rparr>
      in d\<lparr>desc := (desc d)[k := \<lparr>d_addr = status_addr P i, d_len = 1, d_flags = VRING_DESC_F_WRITE P, d_nxt = 0\<rparr>]\<rparr>)"

text \<open>Lines 267 to 281: hand the chain to the device.\<close>

definition post_request :: "virtio \<Rightarrow> (u32, 'd) bus \<Rightarrow> bufref \<Rightarrow> nat \<Rightarrow> ('d, 'a) disk_mach_scheme \<Rightarrow> ('d, 'a) disk_mach_scheme" where
  "post_request P B b i s =
     (let s = set_buf b (handled2disk_update (\<lambda>_. 1)) s;
          d = disk s;
          d = d\<lparr>infos := (infos d)[i := (infos d ! i)\<lparr>i_b := Some b\<rparr>]\<rparr>;
          d = d\<lparr>avail := (avail d)\<lparr>a_ring := (a_ring (avail d))[unat (a_idx (avail d)) mod NUM P := of_nat i]\<rparr>\<rparr>;
          d = d\<lparr>avail := (avail d)\<lparr>a_idx := a_idx (avail d) + 1\<rparr>\<rparr>
      in wr P B MMIO_QUEUE_NOTIFY 0 (s\<lparr>disk := d\<rparr>))"

definition virtio_disk_rw ::
  "virtio \<Rightarrow> (u32, 'd) bus \<Rightarrow> (('d, 'a) disk_mach_scheme \<Rightarrow> ('d, 'a) disk_mach_scheme res) \<Rightarrow>
   bufref \<Rightarrow> bool \<Rightarrow> ('d, 'a) disk_mach_scheme \<Rightarrow> ('d, 'a) disk_mach_scheme res" where
  "virtio_disk_rw P B resume b write s =
     (if \<not> valid_ref b then Inl OutOfBounds else
      let sector = ucast (block_no (get_buf b s) * (block_bytes P div 512))
      in then_res (acquire (get_vdisk_lock s) s) (\<lambda>(l, s).
         then_res (loop_res (\<lambda>(got, s). got = None) (rw_alloc_step P resume) (None, put_vdisk_lock l s)) (\<lambda>(got, s).
         let idx = the got;
             i = nat (idx ! 0);
             s = s\<lparr>disk := format_descs P b write sector i (nat (idx ! 1)) (nat (idx ! 2)) (disk s)\<rparr>;
             s = post_request P B b i s
         in then_res (loop_res (\<lambda>s. handled2disk (get_buf b s) = 1)
                        (sleep get_vdisk_lock put_vdisk_lock (buf_addr P b) resume) s) (\<lambda>s.
            let s = s\<lparr>disk := (disk s)\<lparr>infos := (infos (disk s))[i := (infos (disk s) ! i)\<lparr>i_b := None\<rparr>]\<rparr>\<rparr>
            in then_res (free_chain P (idx ! 0) s) (\<lambda>s.
               then_res (release (get_vdisk_lock s) s) (\<lambda>(l, s). Inr (put_vdisk_lock l s)))))))"

section \<open>The interrupt\<close>

definition intr_step :: "virtio \<Rightarrow> ('d, 'a) disk_mach_scheme \<Rightarrow> ('d, 'a) disk_mach_scheme res" where
  "intr_step P s =
     (let ident = unat (u_ring (used (disk s)) ! (unat (used_idx (disk s)) mod NUM P))
      in if ident < length (infos (disk s)) then
           if i_status (infos (disk s) ! ident) \<noteq> 0 then Inl (Panic ''virtio_disk_intr status'')
           else case i_b (infos (disk s) ! ident) of
               None \<Rightarrow> Inl NullDeref
             | Some b \<Rightarrow>
                 if valid_ref b then
                   then_res (wakeup (buf_addr P b) (set_buf b (handled2disk_update (\<lambda>_. 0)) s)) (\<lambda>s.
                   Inr (s\<lparr>disk := (disk s)\<lparr>used_idx := used_idx (disk s) + 1\<rparr>\<rparr>))
                 else Inl OutOfBounds
         else Inl OutOfBounds)"

definition virtio_disk_intr :: "virtio \<Rightarrow> (u32, 'd) bus \<Rightarrow> ('d, 'a) disk_mach_scheme \<Rightarrow> ('d, 'a) disk_mach_scheme res" where
  "virtio_disk_intr P B s =
     then_res (acquire (get_vdisk_lock s) s) (\<lambda>(l, s).
     let s = put_vdisk_lock l s;
         (v, s) = rd P B MMIO_INTERRUPT_STATUS s;
         s = wr P B MMIO_INTERRUPT_ACK (v AND 0x3) s
     in then_res (loop_res (\<lambda>s. used_idx (disk s) \<noteq> u_idx (used (disk s))) (intr_step P) s) (\<lambda>s.
        then_res (release (get_vdisk_lock s) s) (\<lambda>(l, s). Inr (put_vdisk_lock l s))))"

end
