(* ===== verification/Virtio_Queue.thy ===== *)
theory Virtio_Queue
  imports Virtio_Disk
begin

text \<open>
  What the routines of the disk driver guarantee. Descriptors are conserved: \<open>alloc3_desc\<close> takes three or none,
  \<open>free_chain\<close> always ends and gives a chain back. The interrupt handler completes every finished
  request. A concrete driver state, used to apply the theorems, is defined on the way.
\<close>

section \<open>The driver's state\<close>

definition vd_ok :: "virtio \<Rightarrow> disk \<Rightarrow> bool" where
  "vd_ok P d \<longleftrightarrow> 0 < NUM P \<and> NUM P < 2 ^ 16 \<and> length (desc d) = NUM P \<and> length (free d) = NUM P
     \<and> length (infos d) = NUM P \<and> length (ops d) = NUM P \<and> length (a_ring (avail d)) = NUM P \<and> length (u_ring (used d)) = NUM P"

definition marked :: "u8 list \<Rightarrow> nat set" where
  "marked f = {k. k < length f \<and> f ! k \<noteq> 0}"

abbreviation free_set :: "disk \<Rightarrow> nat set" where
  "free_set d \<equiv> marked (free d)"

lemma finite_marked [simp]: "finite (marked f)"
  by (simp add: marked_def)

lemma marked_clear [simp]: "marked (f[k := 0]) = marked f - {k}"
  by (cases "k < length f") (auto simp: marked_def nth_list_update split: if_splits)

lemma marked_set [simp]: "k < length f \<Longrightarrow> marked (f[k := 1]) = insert k (marked f)"
  by (auto simp: marked_def nth_list_update split: if_splits)

text \<open>Clearing several marks.\<close>

definition clear :: "nat list \<Rightarrow> u8 list \<Rightarrow> u8 list" where
  "clear js f = fold (\<lambda>j f. f[j := 0]) js f"

lemma clear_simps [simp]: "clear [] f = f" "clear (j # js) f = clear js (f[j := 0])"
  by (simp_all add: clear_def)

lemma clear_props [simp]: "length (clear js f) = length f" "marked (clear js f) = marked f - set js"
  by (induction js arbitrary: f) auto

lemma disk_more: "mach.more s = mach.more t \<Longrightarrow> disk s = disk t" "mach.more s = mach.more t \<Longrightarrow> vdev s = vdev t"
  by (cases s; cases t; simp)+

lemma disk_simps [simp]: "disk (pushed s) = disk s" "disk (popped s) = disk s" "disk (cycled s) = disk s" "disk (set_proc i f s) = disk s"
  "vdev (pushed s) = vdev s" "vdev (popped s) = vdev s" "vdev (cycled s) = vdev s" "vdev (set_proc i f s) = vdev s"
  by (rule disk_more, simp)+

lemma buf_simps [simp]:
  "get_buf b (pushed s) = get_buf b s" "get_buf b (popped s) = get_buf b s" "get_buf b (cycled s) = get_buf b s"
  "get_buf b (set_proc i f s) = get_buf b s" "get_buf b (s\<lparr>gpr := g\<rparr>) = get_buf b s"
  by (rule buf_more, simp)+

lemma disk_update [simp]:
  "get_buf b (s\<lparr>disk := d\<rparr>) = get_buf b s"
  "get_buf b (s\<lparr>vdev := v\<rparr>) = get_buf b s"
  "mach.truncate (s\<lparr>disk := d\<rparr>) = mach.truncate s" "mach.truncate (s\<lparr>vdev := v\<rparr>) = mach.truncate s"
  "id_ok (s\<lparr>disk := d\<rparr>) = id_ok s" "this_cpu (s\<lparr>disk := d\<rparr>) = this_cpu s" "hart_ok (s\<lparr>disk := d\<rparr>) = hart_ok s"
  "id_ok (s\<lparr>vdev := v\<rparr>) = id_ok s" "this_cpu (s\<lparr>vdev := v\<rparr>) = this_cpu s" "hart_ok (s\<lparr>vdev := v\<rparr>) = hart_ok s"
  "wake_ready (s\<lparr>disk := d\<rparr>) = wake_ready s" "wake_ready (s\<lparr>vdev := v\<rparr>) = wake_ready s"
  by (cases b; simp add: id_ok_def this_cpu_def cpu_id_def hart_ok_def mach.truncate_def wake_ready_def)+

lemma disk_set_buf [simp]: "disk (set_buf b f s) = disk s" "vdev (set_buf b f s) = vdev s"
  by (cases b; simp)+

lemma calm_disk [simp]: "calm s (s\<lparr>disk := d\<rparr>)" "calm s (s\<lparr>vdev := v\<rparr>)" "calm s (set_buf b f s)"
  by (rule calm_truncate, simp)+

section \<open>One descriptor\<close>

lemma alloc_desc_loop_spec:
  assumes "i + n = length (free d)"
  shows "(case alloc_desc_loop n i d of (k, d') \<Rightarrow>
      k = - 1 \<and> d' = d \<and> (\<forall>j. i \<le> j \<longrightarrow> j < length (free d) \<longrightarrow> free d ! j = 0)
    \<or> (\<exists>j. i \<le> j \<and> j < length (free d) \<and> free d ! j \<noteq> 0 \<and> k = int j \<and> d' = d\<lparr>free := (free d)[j := 0]\<rparr>))"
  using assms
proof (induction n i d rule: alloc_desc_loop.induct)
  case (2 n i d)
  show ?case
  proof (cases "free d ! i \<noteq> 0")
    case False
    have "j = i \<or> Suc i \<le> j" if "i \<le> j" for j using that by linarith
    with 2(1) [OF False] 2(2) False show ?thesis by (fastforce split: prod.splits)
  qed (use 2(2) in auto)
qed simp

lemma alloc_desc_spec:
  assumes "vd_ok P d"
  shows "if free_set d = {} then alloc_desc P d = (- 1, d)
    else \<exists>k \<in> free_set d. alloc_desc P d = (int k, d\<lparr>free := (free d)[k := 0]\<rparr>)"
  using alloc_desc_loop_spec [of 0 "NUM P" d] assms
  by (auto simp: vd_ok_def alloc_desc_def marked_def split: prod.splits)

text \<open>What a step that only frees descriptors changes: the descriptors and the map of free ones.\<close>

definition only_descs :: "('d, 'a) disk_mach_scheme \<Rightarrow> ('d, 'a) disk_mach_scheme \<Rightarrow> bool" where
  "only_descs s t \<longleftrightarrow> calm s t
     \<and> mach.more t = mach.more (s\<lparr>disk := (disk s)\<lparr>desc := desc (disk t), free := free (disk t)\<rparr>\<rparr>)"

lemma only_descs_trans:
  assumes "only_descs s t" "only_descs t u"
  shows "only_descs s u"
proof -
  let ?f = "\<lambda>s t. s\<lparr>disk := (disk s)\<lparr>desc := desc (disk t), free := free (disk t)\<rparr>\<rparr>"
  have 1: "mach.more t = mach.more (?f s t)" "mach.more u = mach.more (?f t u)" using assms by (simp_all add: only_descs_def)
  have "mach.more (?f t u) = mach.more (?f (?f s t) u)"
    using 1(1) by (cases s; cases t; cases u) simp
  with 1 show ?thesis using assms calm_trans [of s t u] by (simp add: only_descs_def)
qed

lemma only_descs_disk:
  assumes "only_descs s t"
  shows "disk t = (disk s)\<lparr>desc := desc (disk t), free := free (disk t)\<rparr>" "get_buf b t = get_buf b s" "vdev t = vdev s"
proof -
  let ?f = "s\<lparr>disk := (disk s)\<lparr>desc := desc (disk t), free := free (disk t)\<rparr>\<rparr>"
  have m: "mach.more t = mach.more ?f" using assms by (simp add: only_descs_def)
  show "disk t = (disk s)\<lparr>desc := desc (disk t), free := free (disk t)\<rparr>" using disk_more(1) [OF m] by simp
  show "get_buf b t = get_buf b s" "vdev t = vdev s"
    using buf_more(6) [OF m] disk_more(2) [OF m] by simp_all
qed

lemma free_desc_ok:
  assumes "vd_ok P (disk s)" "wake_ready s" "k < NUM P" "k \<notin> free_set (disk s)"
  shows "\<exists>t. free_desc P (int k) s = Inr t \<and> only_descs s t \<and> wake_ready t \<and> vd_ok P (disk t)
    \<and> desc (disk t) = (desc (disk s))[k := \<lparr>d_addr = 0, d_len = 0, d_flags = 0, d_nxt = 0\<rparr>]
    \<and> free (disk t) = (free (disk s))[k := 1] \<and> free_set (disk t) = insert k (free_set (disk s))"
proof -
  let ?d = "(disk s)\<lparr>desc := (desc (disk s))[k := \<lparr>d_addr = 0, d_len = 0, d_flags = 0, d_nxt = 0\<rparr>], free := (free (disk s))[k := 1]\<rparr>"
  have "free (disk s) ! k = 0" using assms by (simp add: marked_def vd_ok_def)
  then have "free_desc P (int k) s = wakeup (free_addr P) (s\<lparr>disk := ?d\<rparr>)" using assms(3) by (simp add: free_desc_def Let_def)
  moreover from wakeup_calm [of "s\<lparr>disk := ?d\<rparr>" "free_addr P"] assms(2) obtain t where
    t: "wakeup (free_addr P) (s\<lparr>disk := ?d\<rparr>) = Inr t" "calm (s\<lparr>disk := ?d\<rparr>) t" "mach.more t = mach.more (s\<lparr>disk := ?d\<rparr>)" by auto
  moreover have "disk t = ?d" using disk_more(1) [OF t(3)] by simp
  moreover have c: "calm s t" using t(2) calm_trans [of s "s\<lparr>disk := ?d\<rparr>" t] by simp
  moreover have "only_descs s t" using c t(3) \<open>disk t = ?d\<close> by (simp add: only_descs_def)
  ultimately show ?thesis using assms calm_ready [OF c]
    by (simp add: vd_ok_def)
qed

section \<open>A concrete driver\<close>

definition demo_virtio :: virtio where
  "demo_virtio = \<lparr>NUM = 8, reg_offset = (\<lambda>r. case r of MMIO_MAGIC_VALUE \<Rightarrow> 0x00 | MMIO_VERSION \<Rightarrow> 0x04 | MMIO_DEVICE_ID \<Rightarrow> 0x08 | MMIO_VENDOR_ID \<Rightarrow> 0x0c
       | MMIO_DEVICE_FEATURES \<Rightarrow> 0x10 | MMIO_DRIVER_FEATURES \<Rightarrow> 0x20 | MMIO_QUEUE_SEL \<Rightarrow> 0x30 | MMIO_QUEUE_NUM_MAX \<Rightarrow> 0x34
       | MMIO_QUEUE_NUM \<Rightarrow> 0x38 | MMIO_QUEUE_READY \<Rightarrow> 0x44 | MMIO_QUEUE_NOTIFY \<Rightarrow> 0x50 | MMIO_INTERRUPT_STATUS \<Rightarrow> 0x60
       | MMIO_INTERRUPT_ACK \<Rightarrow> 0x64 | MMIO_STATUS \<Rightarrow> 0x70 | MMIO_QUEUE_DESC_LOW \<Rightarrow> 0x80 | MMIO_QUEUE_DESC_HIGH \<Rightarrow> 0x84
       | MMIO_DRIVER_DESC_LOW \<Rightarrow> 0x90 | MMIO_DRIVER_DESC_HIGH \<Rightarrow> 0x94 | MMIO_DEVICE_DESC_LOW \<Rightarrow> 0xa0 | MMIO_DEVICE_DESC_HIGH \<Rightarrow> 0xa4),
     status_bit = (\<lambda>b. case b of S_ACKNOWLEDGE \<Rightarrow> 1 | S_DRIVER \<Rightarrow> 2 | S_DRIVER_OK \<Rightarrow> 4 | S_FEATURES_OK \<Rightarrow> 8),
     feature_bit = (\<lambda>f. case f of BLK_F_RO \<Rightarrow> 5 | BLK_F_SCSI \<Rightarrow> 7 | BLK_F_CONFIG_WCE \<Rightarrow> 11 | BLK_F_MQ \<Rightarrow> 12
       | F_ANY_LAYOUT \<Rightarrow> 27 | RING_F_EVENT_IDX \<Rightarrow> 29 | RING_F_INDIRECT_DESC \<Rightarrow> 28),
     VRING_DESC_F_NEXT = 1, VRING_DESC_F_WRITE = 2, VIRTIO_BLK_T_IN = 0, VIRTIO_BLK_T_OUT = 1, sizeof_blk_req = 16,
     block_bytes = 1024, ops_addr = (\<lambda>i. 0x80100000 + 16 * of_nat i), status_addr = (\<lambda>i. 0x80101000 + 16 * of_nat i),
     data_addr = (\<lambda>_. 0x80102000), buf_addr = (\<lambda>_. 0x80103000), free_addr = 0x80104000, initlock = (\<lambda>l name. \<lparr>available = 1\<rparr>)\<rparr>"

definition demo_buf :: buf where
  "demo_buf = \<lparr>valid = 0, handled2disk = 0, block_no = 3, sllk = \<lparr>splk = \<lparr>available = 1\<rparr>, holding = 0\<rparr>, buf_dev = 0,
     buf_data = replicate 1024 0, link_no = 0, b_prior = None, b_next = None\<rparr>"

definition demo_disk :: disk where
  "demo_disk = \<lparr>desc_page = 0x80200000, avail_page = 0x80201000, used_page = 0x80202000,
     desc = replicate 8 \<lparr>d_addr = 0, d_len = 0, d_flags = 0, d_nxt = 0\<rparr>, avail = \<lparr>a_idx = 0, a_ring = replicate 8 0\<rparr>,
     used = \<lparr>u_idx = 0, u_ring = replicate 8 0\<rparr>, free = replicate 8 1, used_idx = 0, infos = replicate 8 \<lparr>i_b = None, i_status = 0\<rparr>,
     ops = replicate 8 \<lparr>r_type = 0, r_reserved = 0, r_sector = 0\<rparr>, vdisk_lock = \<lparr>available = 1\<rparr>\<rparr>"

definition demo_machine :: "i32 \<Rightarrow> mach" where
  "demo_machine layer = zero_mach\<lparr>cpus := replicate 8 (zero_cpu\<lparr>cpu_proc := Some 0, lock_layer := layer\<rparr>),
     procs := replicate 64 (zero_proc\<lparr>p_lock := \<lparr>available = 1\<rparr>\<rparr>)\<rparr>"

definition demo_system :: "unit disk_mach" where
  "demo_system = mach.extend (demo_machine 0) \<lparr>mem = (\<lambda>_. 0), page_list_keeper = \<lparr>k_lock = \<lparr>available = 1\<rparr>, page_link = 0\<rparr>,
     buffers = (\<lambda>_. demo_buf), cache_head = demo_buf, cache_lock = \<lparr>available = 1\<rparr>, disk = demo_disk, vdev = ()\<rparr>"

definition demo_ports :: "(u32, unit) bus" where
  "demo_ports = \<lparr>bus_read = (\<lambda>a d. (0, d)), bus_write = (\<lambda>a v d. d)\<rparr>"

lemma demo_machine_simps [simp]:
  "id_ok (demo_machine n)" "hart_ok (demo_machine n)" "this_cpu (demo_machine n) = zero_cpu\<lparr>cpu_proc := Some 0, lock_layer := n\<rparr>"
  "procs (demo_machine n) = replicate 64 (zero_proc\<lparr>p_lock := \<lparr>available = 1\<rparr>\<rparr>)"
  by (simp_all add: demo_machine_def zero_mach_def zero_hart_def id_ok_def hart_ok_def cpu_id_def this_cpu_def)

lemma demo_system_mach:
  "reg demo_system = reg (demo_machine 0)" "cpus demo_system = cpus (demo_machine 0)" "procs demo_system = procs (demo_machine 0)"
  by (simp_all add: demo_system_def mach.defs)

lemma demo_system_ok:
  "disk demo_system = demo_disk" "vd_ok demo_virtio demo_disk" "free_set demo_disk = {..<8}" "wake_ready demo_system"
proof -
  show "disk demo_system = demo_disk" by (simp add: demo_system_def mach.defs)
  show "vd_ok demo_virtio demo_disk" "free_set demo_disk = {..<8}"
    by (auto simp: vd_ok_def demo_virtio_def demo_disk_def marked_def)
  show "wake_ready demo_system" by (simp add: wake_ready_def id_ok_def cpu_id_def demo_system_mach) (simp add: demo_machine_def zero_mach_def zero_hart_def)
qed

section \<open>Three descriptors or none\<close>

lemma free_descs_ok:
  assumes "vd_ok P (disk s)" "wake_ready s" "distinct ks" "set ks \<subseteq> {..<NUM P}" "set ks \<inter> free_set (disk s) = {}"
  shows "\<exists>t. free_descs P (map int ks) s = Inr t \<and> only_descs s t \<and> wake_ready t \<and> vd_ok P (disk t)
    \<and> free_set (disk t) = free_set (disk s) \<union> set ks
    \<and> (\<forall>k. k \<notin> set ks \<longrightarrow> desc (disk t) ! k = desc (disk s) ! k)"
  using assms
proof (induction ks arbitrary: s)
  case Nil
  then show ?case by (simp add: only_descs_def)
next
  case (Cons k ks)
  from free_desc_ok [OF Cons.prems(1,2), of k] Cons.prems(4,5) obtain t where t: "free_desc P (int k) s = Inr t" "only_descs s t"
    "wake_ready t" "vd_ok P (disk t)" "desc (disk t) = (desc (disk s))[k := \<lparr>d_addr = 0, d_len = 0, d_flags = 0, d_nxt = 0\<rparr>]"
    "free_set (disk t) = insert k (free_set (disk s))" by auto
  have "set ks \<inter> free_set (disk t) = {}" using t(6) Cons.prems(3,5) by auto
  with Cons.IH [OF t(4,3)] Cons.prems(3,4) obtain u where u: "free_descs P (map int ks) t = Inr u" "only_descs t u" "wake_ready u"
    "vd_ok P (disk u)" "free_set (disk u) = free_set (disk t) \<union> set ks" "\<forall>k. k \<notin> set ks \<longrightarrow> desc (disk u) ! k = desc (disk t) ! k"
    by auto
  then show ?case using t only_descs_trans [OF t(2) u(2)] by auto
qed

lemma alloc3_loop_spec:
  assumes "vd_ok P (disk s)" "wake_ready s" "distinct ks" "set ks \<subseteq> {..<NUM P}" "set ks \<inter> free_set (disk s) = {}"
  shows "if n \<le> card (free_set (disk s))
    then \<exists>js. length js = n \<and> distinct js \<and> set js \<subseteq> free_set (disk s)
      \<and> alloc3_loop P n (map int ks) s = Inr (0, map int (ks @ js), s\<lparr>disk := (disk s)\<lparr>free := clear js (free (disk s))\<rparr>\<rparr>)
    else \<exists>idx t. alloc3_loop P n (map int ks) s = Inr (- 1, idx, t) \<and> only_descs s t \<and> wake_ready t \<and> vd_ok P (disk t)
      \<and> free_set (disk t) = free_set (disk s) \<union> set ks
      \<and> (\<forall>k. k \<notin> set ks \<union> free_set (disk s) \<longrightarrow> desc (disk t) ! k = desc (disk s) ! k)"
  using assms
proof (induction n arbitrary: ks s)
  case 0
  then show ?case by auto
next
  case (Suc n)
  show ?case
  proof (cases "free_set (disk s) = {}")
    case True
    have "alloc_desc P (disk s) = (- 1, disk s)" using alloc_desc_spec [OF Suc.prems(1)] True by simp
    then have "alloc3_loop P (Suc n) (map int ks) s = then_res (free_descs P (map int ks) s) (\<lambda>s. Inr (- 1, map int ks @ [- 1], s))"
      by simp
    with free_descs_ok [OF Suc.prems] True show ?thesis by auto
  next
    case False
    then obtain k where k: "k \<in> free_set (disk s)" "alloc_desc P (disk s) = (int k, (disk s)\<lparr>free := (free (disk s))[k := 0]\<rparr>)"
      using alloc_desc_spec [OF Suc.prems(1)] by auto
    let ?s = "s\<lparr>disk := (disk s)\<lparr>free := (free (disk s))[k := 0]\<rparr>\<rparr>"
    have ok: "vd_ok P (disk ?s)" "wake_ready ?s" using Suc.prems(1,2) by (simp_all add: vd_ok_def)
    have step: "alloc3_loop P (Suc n) (map int ks) s = alloc3_loop P n (map int (ks @ [k])) ?s" using k(2) by simp
    have kN: "k < NUM P" using k(1) Suc.prems(1) by (simp add: marked_def vd_ok_def)
    have card: "card (free_set (disk ?s)) = card (free_set (disk s)) - 1" "0 < card (free_set (disk s))"
      using k(1) by (auto simp: card_gt_0_iff)
    have "distinct (ks @ [k])" "set (ks @ [k]) \<subseteq> {..<NUM P}" "set (ks @ [k]) \<inter> free_set (disk ?s) = {}"
      using Suc.prems(3-5) k(1) kN by auto
    note IH = Suc.IH [of ?s "ks @ [k]", OF ok this]
    show ?thesis
    proof (cases "Suc n \<le> card (free_set (disk s))")
      case True
      then have "n \<le> card (free_set (disk ?s))" using card by linarith
      from IH [unfolded if_P [OF this]] obtain js where js: "length js = n" "distinct js" "set js \<subseteq> free_set (disk ?s)"
        "alloc3_loop P n (map int (ks @ [k])) ?s = Inr (0, map int (ks @ [k] @ js), ?s\<lparr>disk := (disk ?s)\<lparr>free := clear js (free (disk ?s))\<rparr>\<rparr>)"
        by (auto simp del: alloc3_loop.simps)
      then have "length (k # js) = Suc n \<and> distinct (k # js) \<and> set (k # js) \<subseteq> free_set (disk s)
          \<and> alloc3_loop P (Suc n) (map int ks) s = Inr (0, map int (ks @ k # js), s\<lparr>disk := (disk s)\<lparr>free := clear (k # js) (free (disk s))\<rparr>\<rparr>)"
        using step k(1) by auto
      then show ?thesis unfolding if_P [OF True] by (rule exI)
    next
      case False
      then have "\<not> n \<le> card (free_set (disk ?s))" using card by linarith
      from IH [unfolded if_not_P [OF this]] obtain idx t where t: "alloc3_loop P n (map int (ks @ [k])) ?s = Inr (- 1, idx, t)"
        "only_descs ?s t" "wake_ready t" "vd_ok P (disk t)" "free_set (disk t) = free_set (disk ?s) \<union> set (ks @ [k])"
        "\<forall>k'. k' \<notin> set (ks @ [k]) \<union> free_set (disk ?s) \<longrightarrow> desc (disk t) ! k' = desc (disk ?s) ! k'"
        by (auto simp del: alloc3_loop.simps)
      have "only_descs s ?s" by (simp add: only_descs_def)
      from only_descs_trans [OF this t(2)] t False step k(1) show ?thesis by auto
    qed
  qed
qed

text \<open>
  C8: \<open>alloc3_desc\<close> takes three descriptors or none. With at least three free it returns 0 and the
  indices of three different ones, which are then the only ones no longer free, and changes
  nothing else. With fewer it returns -1 and the same descriptors are free as before; what it
  had taken is given back, and no descriptor in use is touched.
\<close>

theorem alloc3_all_or_nothing:
  assumes "vd_ok P (disk s)" "wake_ready s"
  shows "if 3 \<le> card (free_set (disk s))
    then \<exists>i j k t. alloc3_desc P s = Inr (0, [int i, int j, int k], t) \<and> distinct [i, j, k]
      \<and> {i, j, k} \<subseteq> free_set (disk s) \<and> free_set (disk t) = free_set (disk s) - {i, j, k}
      \<and> t = s\<lparr>disk := (disk s)\<lparr>free := free (disk t)\<rparr>\<rparr>
    else \<exists>idx t. alloc3_desc P s = Inr (- 1, idx, t) \<and> free_set (disk t) = free_set (disk s) \<and> calm s t
      \<and> (\<forall>k. k \<notin> free_set (disk s) \<longrightarrow> desc (disk t) ! k = desc (disk s) ! k)"
  using alloc3_loop_spec [OF assms, of "[]" 3]
  by (auto simp: alloc3_desc_def length_Suc_conv numeral_3_eq_3 only_descs_def)

theorem alloc3_all_or_nothing_witness:
  "\<exists>i j k t. alloc3_desc demo_virtio demo_system = Inr (0, [int i, int j, int k], t) \<and> distinct [i, j, k]
    \<and> free_set (disk t) = {..<8} - {i, j, k}"
proof -
  have "vd_ok demo_virtio (disk demo_system)" "card (free_set (disk demo_system)) = 8" by (simp_all add: demo_system_ok)
  with alloc3_all_or_nothing [of demo_virtio demo_system] show ?thesis
    by (simp add: demo_system_ok) blast
qed

section \<open>Freeing a chain\<close>

text \<open>Descriptors in use, linked in the order of the list.\<close>

fun chain :: "virtio \<Rightarrow> disk \<Rightarrow> nat list \<Rightarrow> bool" where
  "chain P d [] \<longleftrightarrow> False"
| "chain P d [k] \<longleftrightarrow> k < NUM P \<and> k \<notin> free_set d \<and> d_flags (desc d ! k) AND VRING_DESC_F_NEXT P = 0"
| "chain P d (k # j # ks) \<longleftrightarrow> k < NUM P \<and> k \<notin> free_set d \<and> d_flags (desc d ! k) AND VRING_DESC_F_NEXT P \<noteq> 0
     \<and> unat (d_nxt (desc d ! k)) = j \<and> chain P d (j # ks)"

lemma chain_cong:
  assumes "\<And>k. k \<in> set ks \<Longrightarrow> desc d' ! k = desc d ! k" "\<And>k. k \<in> set ks \<Longrightarrow> k \<in> free_set d' \<longleftrightarrow> k \<in> free_set d"
  shows "chain P d' ks = chain P d ks"
  using assms by (induction P d ks rule: chain.induct) auto

lemma chain_hd: "chain P d (k # ks) \<Longrightarrow> k < NUM P \<and> k \<notin> free_set d"
  by (cases ks) auto

lemma free_chain_ok:
  assumes "vd_ok P (disk s)" "wake_ready s" "chain P (disk s) (k # ks)" "distinct (k # ks)"
  shows "\<exists>t. free_chain P (int k) s = Inr t \<and> only_descs s t \<and> wake_ready t \<and> vd_ok P (disk t)
    \<and> free_set (disk t) = free_set (disk s) \<union> set (k # ks)
    \<and> (\<forall>j. j \<notin> set (k # ks) \<longrightarrow> desc (disk t) ! j = desc (disk s) ! j)"
  using assms
proof (induction ks arbitrary: s k)
  case Nil
  from free_desc_ok [OF Nil.prems(1,2), of k] chain_hd [OF Nil.prems(3)] obtain t where t: "free_desc P (int k) s = Inr t"
    "only_descs s t" "wake_ready t" "vd_ok P (disk t)" "free_set (disk t) = insert k (free_set (disk s))"
    "desc (disk t) = (desc (disk s))[k := \<lparr>d_addr = 0, d_len = 0, d_flags = 0, d_nxt = 0\<rparr>]" by blast
  then have "free_chain P (int k) s = Inr t" using Nil.prems(1,3)
    by (simp add: free_chain_def loop_res_unfold [of fst] free_chain_step_def vd_ok_def)
  then show ?case using t by simp
next
  case (Cons j ks)
  from free_desc_ok [OF Cons.prems(1,2), of k] chain_hd [OF Cons.prems(3)] obtain t where t: "free_desc P (int k) s = Inr t"
    "only_descs s t" "wake_ready t" "vd_ok P (disk t)" "free_set (disk t) = insert k (free_set (disk s))"
    "desc (disk t) = (desc (disk s))[k := \<lparr>d_addr = 0, d_len = 0, d_flags = 0, d_nxt = 0\<rparr>]" by blast
  have "loop_res fst (free_chain_step P) (True, int k, s) = loop_res fst (free_chain_step P) (True, int j, t)"
  proof -
    have j: "j = unat (d_nxt (desc (disk s) ! k))" using Cons.prems(3) by simp
    have "free_chain_step P (True, int k, s) = Inr (True, int j, t)"
      using t(1) Cons.prems(1,3) unfolding j by (simp add: free_chain_step_def vd_ok_def Let_def)
    then show ?thesis by (subst loop_res_unfold) simp
  qed
  then have step: "free_chain P (int k) s = free_chain P (int j) t" by (simp add: free_chain_def)
  have "chain P (disk t) (j # ks) = chain P (disk s) (j # ks)"
  proof (rule chain_cong)
    fix i assume "i \<in> set (j # ks)"
    then have "i \<noteq> k" using Cons.prems(4) by auto
    then show "desc (disk t) ! i = desc (disk s) ! i" "i \<in> free_set (disk t) \<longleftrightarrow> i \<in> free_set (disk s)"
      using t(5,6) by simp_all
  qed
  then have ct: "chain P (disk t) (j # ks)" "distinct (j # ks)" using Cons.prems(3,4) by simp_all
  from Cons.IH [OF t(4,3) ct] obtain u where u: "free_chain P (int j) t = Inr u" "only_descs t u" "wake_ready u"
    "vd_ok P (disk u)" "free_set (disk u) = free_set (disk t) \<union> set (j # ks)" "\<forall>i. i \<notin> set (j # ks) \<longrightarrow> desc (disk u) ! i = desc (disk t) ! i"
    by blast
  show ?case using u step t(5,6) only_descs_trans [OF t(2) u(2)] by (intro exI [of _ u]) (simp add: insert_commute)
qed

definition stray_panic :: "fault \<Rightarrow> bool" where
  "stray_panic e \<longleftrightarrow> e = Panic ''free_desc 1'' \<or> e = Panic ''free_desc 2''"

lemma free_chain_step_cases:
  assumes "vd_ok P (disk s)" "wake_ready s" "0 \<le> i"
  shows "case free_chain_step P (go, i, s) of
      Inr (go', j, t) \<Rightarrow> vd_ok P (disk t) \<and> wake_ready t \<and> 0 \<le> j \<and> free_set (disk s) \<subset> free_set (disk t)
    | Inl e \<Rightarrow> stray_panic e"
proof (cases "i < int (NUM P)")
  case True
  then obtain k where k: "i = int k" using assms(3) by (auto elim: nonneg_int_cases)
  with True have kN: "k < NUM P" by simp
  show ?thesis
  proof (cases "k \<in> free_set (disk s)")
    case True
    then show ?thesis using k kN assms(1) by (simp add: free_chain_step_def free_desc_def vd_ok_def marked_def stray_panic_def Let_def)
  next
    case False
    from free_desc_ok [OF assms(1,2) kN False] obtain t where "free_desc P (int k) s = Inr t" "wake_ready t" "vd_ok P (disk t)"
      "free_set (disk t) = insert k (free_set (disk s))" by blast
    then show ?thesis using k kN False assms(1) by (auto simp: free_chain_step_def vd_ok_def Let_def)
  qed
qed (use assms(3) in \<open>simp add: free_chain_step_def free_desc_def stray_panic_def Let_def\<close>)

lemma free_chain_outcome:
  assumes "vd_ok P (disk s)" "wake_ready s" "0 \<le> i"
  shows "case free_chain P i s of Inr t \<Rightarrow> free_set (disk s) \<subset> free_set (disk t) | Inl e \<Rightarrow> stray_panic e"
proof -
  let ?I = "\<lambda>(go :: bool, i :: int, t). vd_ok P (disk t) \<and> wake_ready t \<and> 0 \<le> i \<and> free_set (disk s) \<subseteq> free_set (disk t)
    \<and> (go \<or> free_set (disk s) \<subset> free_set (disk t))"
  let ?m = "\<lambda>(go :: bool, i :: int, t). NUM P - card (free_set (disk t))"
  have "case free_chain_step P p of Inr q \<Rightarrow> ?I q \<and> ?m q < ?m p | Inl e \<Rightarrow> stray_panic e" if I: "?I p" for p
  proof -
    obtain go j u where p: "p = (go, j, u)" by (cases p)
    have lim: "card (free_set (disk v)) \<le> NUM P" if "vd_ok P (disk v)" for v
      using card_mono [of "{..<NUM P}" "free_set (disk v)"] that by (auto simp: vd_ok_def marked_def)
    have "card (free_set (disk u)) < card (free_set (disk v))" if "free_set (disk u) \<subset> free_set (disk v)" for v
      using that by (intro psubset_card_mono) simp_all
    then have less: "NUM P - card (free_set (disk v)) < NUM P - card (free_set (disk u))"
      if "vd_ok P (disk v)" "free_set (disk u) \<subset> free_set (disk v)" for v
      using lim [OF that(1)] that(2) by (meson diff_less_mono2 less_le_trans)
    have u: "vd_ok P (disk u)" "wake_ready u" "0 \<le> j" "free_set (disk s) \<subseteq> free_set (disk u)" using I by (simp_all add: p)
    show ?thesis
    proof (cases "free_chain_step P p")
      case (Inl e)
      then show ?thesis using free_chain_step_cases [OF u(1-3), of go] by (simp add: p)
    next
      case (Inr q)
      obtain go' j' v where q: "q = (go', j', v)" by (cases q)
      have "vd_ok P (disk v)" "wake_ready v" "0 \<le> j'" "free_set (disk u) \<subset> free_set (disk v)"
        using free_chain_step_cases [OF u(1-3), of go] Inr by (simp_all add: p q)
      then show ?thesis using Inr u(4) less [of v] by (auto simp: p q)
    qed
  qed
  moreover have "?I (True, i, s)" using assms by simp
  ultimately have "case loop_res fst (free_chain_step P) (True, i, s) of Inr q \<Rightarrow> ?I q \<and> \<not> fst q | Inl e \<Rightarrow> stray_panic e"
    by (intro loop_res_bounded [where m = ?m]) blast+
  then show ?thesis by (cases "loop_res fst (free_chain_step P) (True, i, s)") (auto simp: free_chain_def)
qed

text \<open>
  C14: \<open>free_chain\<close> always ends, whatever the descriptors hold: it follows \<open>next\<close> only from a
  descriptor it has just freed. When it returns, more descriptors are free than before; a link
  that leaves the table ends in the first panic of \<open>free_desc\<close>, a cycle or a link to a free
  descriptor in the second, and only a negative first index goes outside the array.
\<close>

theorem free_chain_terminates:
  assumes "vd_ok P (disk s)" "wake_ready s"
  shows "case free_chain P i s of Inr t \<Rightarrow> 0 \<le> i \<and> free_set (disk s) \<subset> free_set (disk t)
    | Inl e \<Rightarrow> if i < 0 then e = OutOfBounds else e = Panic ''free_desc 1'' \<or> e = Panic ''free_desc 2''"
proof (cases "i < 0")
  case True
  then have "free_chain P i s = Inl OutOfBounds"
    by (simp add: free_chain_def loop_res_unfold [of fst] free_chain_step_def)
  with True show ?thesis by simp
next
  case False
  then show ?thesis using free_chain_outcome [OF assms, of i] by (auto simp: stray_panic_def split: sum.splits)
qed

text \<open>An index past the table.\<close>

theorem free_chain_terminates_witness:
  "\<exists>e. free_chain demo_virtio 9 demo_system = Inl e \<and> (e = Panic ''free_desc 1'' \<or> e = Panic ''free_desc 2'')"
proof -
  have "free_chain demo_virtio 9 demo_system = Inl (Panic ''free_desc 1'')"
    by (simp add: free_chain_def loop_res_unfold [of fst] free_chain_step_def free_desc_def demo_virtio_def Let_def)
  moreover have "vd_ok demo_virtio (disk demo_system)" by (simp add: demo_system_ok)
  ultimately show ?thesis using free_chain_terminates [of demo_virtio demo_system 9] by (simp add: demo_system_ok(4))
qed

section \<open>The interrupt handler\<close>

text \<open>The requests the device has finished and the driver has not looked at, and their buffers.\<close>

definition finished :: "virtio \<Rightarrow> disk \<Rightarrow> nat list" where
  "finished P d = map (\<lambda>k. unat (u_ring (used d) ! (unat (used_idx d + of_nat k) mod NUM P))) [0..<unat (u_idx (used d) - used_idx d)]"

definition done_bufs :: "virtio \<Rightarrow> disk \<Rightarrow> bufref set" where
  "done_bufs P d = {b. \<exists>k \<in> set (finished P d). i_b (infos d ! k) = Some b}"

definition finished_ok :: "virtio \<Rightarrow> ('d, 'a) disk_mach_scheme \<Rightarrow> bool" where
  "finished_ok P s \<longleftrightarrow> (\<forall>k \<in> set (finished P (disk s)). k < NUM P \<and> i_status (infos (disk s) ! k) = 0
     \<and> (\<exists>b. i_b (infos (disk s) ! k) = Some b \<and> valid_ref b))"

lemma finished_Cons:
  assumes "used_idx d \<noteq> u_idx (used d)"
  shows "finished P d = unat (u_ring (used d) ! (unat (used_idx d) mod NUM P)) # finished P (d\<lparr>used_idx := used_idx d + 1\<rparr>)"
proof -
  let ?n = "unat (u_idx (used d) - (used_idx d + 1))"
  have "unat (u_idx (used d) - used_idx d) = Suc ?n" using unat_diff_Suc [of "u_idx (used d)" "used_idx d"] assms by simp
  moreover have "[0..<Suc ?n] = 0 # map Suc [0..<?n]" by (metis map_Suc_upt upt_conv_Cons zero_less_Suc)
  ultimately show ?thesis by (simp add: finished_def comp_def add.assoc del: upt_Suc)
qed

lemma intr_step_ok:
  assumes "vd_ok P (disk s)" "wake_ready s" "finished_ok P s" "used_idx (disk s) \<noteq> u_idx (used (disk s))"
  shows "\<exists>b t. i_b (infos (disk s) ! hd (finished P (disk s))) = Some b \<and> intr_step P s = Inr t \<and> calm s t \<and> wake_ready t
    \<and> disk t = (disk s)\<lparr>used_idx := used_idx (disk s) + 1\<rparr> \<and> vdev t = vdev s
    \<and> (\<forall>c. get_buf c t = (if c = b then (get_buf b s)\<lparr>handled2disk := 0\<rparr> else get_buf c s))"
proof -
  let ?k = "unat (u_ring (used (disk s)) ! (unat (used_idx (disk s)) mod NUM P))"
  note F = finished_Cons [OF assms(4), of P]
  from assms(3) obtain b where b: "?k < NUM P" "i_status (infos (disk s) ! ?k) = 0" "i_b (infos (disk s) ! ?k) = Some b" "valid_ref b"
    unfolding finished_ok_def F by auto
  let ?s = "set_buf b (handled2disk_update (\<lambda>_. 0)) s"
  have "wake_ready ?s" using assms(2) by (simp add: wake_ready_def)
  from wakeup_calm [OF this, of "buf_addr P b"] obtain w where w: "wakeup (buf_addr P b) ?s = Inr w" "calm ?s w" "mach.more w = mach.more ?s"
    by blast
  have d: "disk w = disk s" "vdev w = vdev s" using disk_more [OF w(3)] by simp_all
  let ?t = "w\<lparr>disk := (disk w)\<lparr>used_idx := used_idx (disk w) + 1\<rparr>\<rparr>"
  have "intr_step P s = Inr ?t" using b w(1) assms(1) by (simp add: intr_step_def vd_ok_def)
  moreover have "calm s w" using calm_trans [OF _ w(2)] by simp
  then have "calm s ?t" using calm_trans [of s w ?t] by simp
  moreover have "get_buf c ?t = (if c = b then (get_buf b s)\<lparr>handled2disk := 0\<rparr> else get_buf c s)" for c
    using buf_more(6) [OF w(3)] b(4) by simp_all
  ultimately show ?thesis using b(3) d assms(2) calm_ready [of s ?t] unfolding F by (intro exI [of _ b] exI [of _ ?t]) simp
qed

lemma done_bufs_Cons:
  assumes "used_idx d \<noteq> u_idx (used d)" "i_b (infos d ! hd (finished P d)) = Some b"
  shows "done_bufs P d = insert b (done_bufs P (d\<lparr>used_idx := used_idx d + 1\<rparr>))"
  using assms(2) by (auto simp: done_bufs_def finished_Cons [OF assms(1)])

lemma intr_loop_ok:
  assumes "vd_ok P (disk s)" "wake_ready s" "finished_ok P s"
  shows "\<exists>t. loop_res (\<lambda>s. used_idx (disk s) \<noteq> u_idx (used (disk s))) (intr_step P) s = Inr t \<and> calm s t \<and> wake_ready t
    \<and> disk t = (disk s)\<lparr>used_idx := u_idx (used (disk s))\<rparr> \<and> vdev t = vdev s
    \<and> (\<forall>c. get_buf c t = (if c \<in> done_bufs P (disk s) then (get_buf c s)\<lparr>handled2disk := 0\<rparr> else get_buf c s))"
  using assms
proof (induction "unat (u_idx (used (disk s)) - used_idx (disk s))" arbitrary: s)
  case 0
  then have "used_idx (disk s) = u_idx (used (disk s))" by (simp add: unat_eq_0)
  moreover have "done_bufs P (disk s) = {}" using 0(1) by (simp add: done_bufs_def finished_def)
  ultimately show ?case using 0 by (intro exI [of _ s]) simp
next
  case (Suc n)
  let ?b = "\<lambda>s. used_idx (disk s) \<noteq> u_idx (used (disk s))"
  have ne: "?b s" using Suc.hyps(2) by auto
  from intr_step_ok [OF Suc.prems ne] obtain b t where
    b: "i_b (infos (disk s) ! hd (finished P (disk s))) = Some b" and
    t: "intr_step P s = Inr t" "calm s t" "wake_ready t" "disk t = (disk s)\<lparr>used_idx := used_idx (disk s) + 1\<rparr>" "vdev t = vdev s"
      "\<forall>c. get_buf c t = (if c = b then (get_buf b s)\<lparr>handled2disk := 0\<rparr> else get_buf c s)"
    by blast
  have n: "n = unat (u_idx (used (disk t)) - used_idx (disk t))"
    using unat_diff_Suc [of "u_idx (used (disk s))" "used_idx (disk s)"] ne Suc.hyps(2) t(4) by simp
  have ok: "vd_ok P (disk t)" "finished_ok P t"
    using Suc.prems(1,3) t(4) finished_Cons [OF ne, of P] by (auto simp: vd_ok_def finished_ok_def)
  have D: "done_bufs P (disk s) = insert b (done_bufs P (disk t))" using done_bufs_Cons [OF ne b] t(4) by simp
  from Suc.hyps(1) [OF n ok(1) t(3) ok(2)] obtain u where
    u: "loop_res ?b (intr_step P) t = Inr u" "calm t u" "wake_ready u" "disk u = (disk t)\<lparr>used_idx := u_idx (used (disk t))\<rparr>"
      "vdev u = vdev t"
      "\<forall>c. get_buf c u = (if c \<in> done_bufs P (disk t) then (get_buf c t)\<lparr>handled2disk := 0\<rparr> else get_buf c t)"
    by blast
  have "loop_res ?b (intr_step P) s = Inr u" using ne t(1) u(1) by (subst loop_res_unfold) simp
  then show ?case using u t D calm_trans [OF t(2) u(2)] by (intro exI [of _ u]) auto
qed

lemma intr_ok:
  assumes "vd_ok P (disk s)" "wake_ready s" "finished_ok P s" "available (vdisk_lock (disk s)) \<noteq> 0"
  shows "\<exists>t. virtio_disk_intr P B s = Inr t
    \<and> disk t = (disk s)\<lparr>used_idx := u_idx (used (disk s)), vdisk_lock := \<lparr>available = 1\<rparr>\<rparr>
    \<and> (\<forall>c. get_buf c t = (if c \<in> done_bufs P (disk s) then (get_buf c s)\<lparr>handled2disk := 0\<rparr> else get_buf c s))
    \<and> vdev t = (case bus_read B (R P MMIO_INTERRUPT_STATUS) (vdev s) of (v, d) \<Rightarrow> bus_write B (R P MMIO_INTERRUPT_ACK) (v AND 3) d)
    \<and> calm s t"
proof -
  obtain v d where vd: "bus_read B (R P MMIO_INTERRUPT_STATUS) (vdev s) = (v, d)" by fastforce
  let ?d = "(disk s)\<lparr>vdisk_lock := \<lparr>available = 0\<rparr>\<rparr>"
  let ?s = "(pushed s)\<lparr>disk := ?d, vdev := bus_write B (R P MMIO_INTERRUPT_ACK) (v AND 3) d\<rparr>"
  have id: "id_ok s" using assms(2) by (simp add: wake_ready_def)
  have F: "finished P ?d = finished P (disk s)" "done_bufs P ?d = done_bufs P (disk s)" by (simp_all add: finished_def done_bufs_def)
  have ok: "vd_ok P (disk ?s)" "wake_ready ?s" "finished_ok P ?s"
    using assms by (simp_all add: vd_ok_def wake_ready_def finished_ok_def F)
  from intr_loop_ok [OF this] obtain t where
    t: "loop_res (\<lambda>s. used_idx (disk s) \<noteq> u_idx (used (disk s))) (intr_step P) ?s = Inr t" "calm ?s t"
      "disk t = ?d\<lparr>used_idx := u_idx (used (disk s))\<rparr>" "vdev t = vdev ?s"
      "\<forall>c. get_buf c t = (if c \<in> done_bufs P (disk s) then (get_buf c s)\<lparr>handled2disk := 0\<rparr> else get_buf c s)"
    by (auto simp: F)
  have p: "procs t = procs s" "id_ok t" "lock_layer (this_cpu t) = lock_layer (this_cpu s) + 1" using t(2) id by (simp_all add: calm_def)
  have "virtio_disk_intr P B s = Inr ((popped t)\<lparr>disk := (disk t)\<lparr>vdisk_lock := \<lparr>available = 1\<rparr>\<rparr>\<rparr>)"
    using assms(4) id t(1,3) vd p(2)
    by (simp add: virtio_disk_intr_def acquire_eq release_eq get_vdisk_lock_def put_vdisk_lock_def rd_def wr_def spinlock_set)
  moreover have "calm s ((popped t)\<lparr>disk := (disk t)\<lparr>vdisk_lock := \<lparr>available = 1\<rparr>\<rparr>\<rparr>)" using t(2) id by (simp add: calm_def)
  ultimately show ?thesis using t(3,4,5) p vd by (simp add: F)
qed

text \<open>
  C10: \<open>virtio_disk_intr\<close> completes every request the device has put on the used ring since the last
  look, and returns: each such buffer is marked as no longer with the device, no other buffer
  changes, the driver has caught up with the ring, its lock is free and the interrupt is
  acknowledged with the two low bits of the status the device reported.
\<close>

theorem virtio_disk_intr_completes:
  assumes "vd_ok P (disk s)" "wake_ready s" "finished_ok P s" "available (vdisk_lock (disk s)) \<noteq> 0"
  shows "\<exists>t. virtio_disk_intr P B s = Inr t
    \<and> disk t = (disk s)\<lparr>used_idx := u_idx (used (disk s)), vdisk_lock := \<lparr>available = 1\<rparr>\<rparr>
    \<and> (\<forall>c. get_buf c t = (if c \<in> done_bufs P (disk s) then (get_buf c s)\<lparr>handled2disk := 0\<rparr> else get_buf c s))
    \<and> vdev t = (case bus_read B (R P MMIO_INTERRUPT_STATUS) (vdev s) of (v, d) \<Rightarrow> bus_write B (R P MMIO_INTERRUPT_ACK) (v AND 3) d)
    \<and> procs t = procs s \<and> lock_layer (this_cpu t) = lock_layer (this_cpu s)"
  using intr_ok [OF assms, of B] unfolding calm_def by blast

text \<open>The device has finished the request of chain 2, which was for the first buffer.\<close>

definition demo_finished :: "unit disk_mach" where
  "demo_finished = demo_system\<lparr>disk := demo_disk\<lparr>used := \<lparr>u_idx = 1, u_ring = (replicate 8 0)[0 := 2]\<rparr>,
     infos := (replicate 8 \<lparr>i_b = None, i_status = 0\<rparr>)[2 := \<lparr>i_b = Some (Buf 0), i_status = 0\<rparr>]\<rparr>\<rparr>"

lemma demo_finished_ok:
  "vd_ok demo_virtio (disk demo_finished)" "wake_ready demo_finished" "finished_ok demo_virtio demo_finished"
  "done_bufs demo_virtio (disk demo_finished) = {Buf 0}" "available (vdisk_lock (disk demo_finished)) = 1"
proof -
  have "finished demo_virtio (disk demo_finished) = [2]" "NUM demo_virtio = 8"
    by (simp_all add: demo_finished_def finished_def demo_disk_def demo_virtio_def)
  then show "finished_ok demo_virtio demo_finished" "done_bufs demo_virtio (disk demo_finished) = {Buf 0}"
    by (simp_all add: finished_ok_def done_bufs_def) (simp_all add: demo_finished_def)
  show "vd_ok demo_virtio (disk demo_finished)" "available (vdisk_lock (disk demo_finished)) = 1"
    using demo_system_ok(2) by (simp_all add: demo_finished_def vd_ok_def) (simp_all add: demo_disk_def demo_virtio_def)
  show "wake_ready demo_finished" using demo_system_ok(4) by (simp add: demo_finished_def)
qed

theorem virtio_disk_intr_completes_witness:
  "\<exists>t. virtio_disk_intr demo_virtio demo_ports demo_finished = Inr t \<and> used_idx (disk t) = 1
    \<and> handled2disk (get_buf (Buf 0) t) = 0 \<and> procs t = procs demo_finished"
proof -
  have "available (vdisk_lock (disk demo_finished)) \<noteq> 0" by (simp add: demo_finished_ok)
  moreover have "u_idx (used (disk demo_finished)) = 1" by (simp add: demo_finished_def)
  ultimately show ?thesis
    using virtio_disk_intr_completes [OF demo_finished_ok(1-3), of demo_ports] demo_finished_ok(4)
    by (auto simp del: get_buf.simps)
qed

end
