(* ===== verification/Virtio_Rw.thy ===== *)
theory Virtio_Rw
  imports Virtio_Queue
begin

text \<open>
  A whole request: \<open>virtio_disk_rw\<close> takes three descriptors, posts a chain of them, and goes to sleep
  until the interrupt handler has seen the request served. The theorem follows the call up to the
  switch away from the caller. What happens from there on is in \<open>Virtio_Sys\<close> (the device, the
  interrupt handler, the freeing of the chain). Nothing is assumed of the rest of the system: the
  parameter \<open>resume\<close> is arbitrary. That a process is recorded on this cpu is a case of the theorem,
  not a hypothesis, because \<open>scheduler\<close> never records one (\<open>Proc\<close>).
\<close>

section \<open>What the device is handed\<close>

text \<open>
  The newest entry of the available ring heads a chain of three descriptors in use: the request
  header, the data of the buffer, and the status byte.
\<close>

definition posted :: "virtio \<Rightarrow> bufref \<Rightarrow> bool \<Rightarrow> u64 \<Rightarrow> nat \<Rightarrow> nat \<Rightarrow> nat \<Rightarrow> ('d, 'a) disk_mach_scheme \<Rightarrow> bool" where
  "posted P b w sector i j k u \<longleftrightarrow> distinct [i, j, k] \<and> {i, j, k} \<subseteq> {..<NUM P} - free_set (disk u)
     \<and> handled2disk (get_buf b u) = 1
     \<and> a_ring (avail (disk u)) ! (unat (a_idx (avail (disk u)) - 1) mod NUM P) = of_nat i
     \<and> ops (disk u) ! i = \<lparr>r_type = if w then VIRTIO_BLK_T_OUT P else VIRTIO_BLK_T_IN P, r_reserved = 0, r_sector = sector\<rparr>
     \<and> desc (disk u) ! i = \<lparr>d_addr = ops_addr P i, d_len = sizeof_blk_req P, d_flags = VRING_DESC_F_NEXT P, d_nxt = of_nat j\<rparr>
     \<and> desc (disk u) ! j = \<lparr>d_addr = data_addr P b, d_len = block_bytes P,
         d_flags = (if w then 0 else VRING_DESC_F_WRITE P) OR VRING_DESC_F_NEXT P, d_nxt = of_nat k\<rparr>
     \<and> desc (disk u) ! k = \<lparr>d_addr = status_addr P i, d_len = 1, d_flags = VRING_DESC_F_WRITE P, d_nxt = 0\<rparr>
     \<and> infos (disk u) ! i = \<lparr>i_b = Some b, i_status = 0xff\<rparr>"

text \<open>The flags of \<open>virtio.h\<close>: two different bits.\<close>

definition flags_ok :: "virtio \<Rightarrow> bool" where
  "flags_ok P \<longleftrightarrow> VRING_DESC_F_NEXT P \<noteq> 0 \<and> VRING_DESC_F_WRITE P AND VRING_DESC_F_NEXT P = 0"

lemma posted_chain:
  assumes "posted P b w sector i j k u" "flags_ok P" "NUM P < 2 ^ 16"
  shows "chain P (disk u) [i, j, k]"
proof -
  have "(x OR VRING_DESC_F_NEXT P) AND VRING_DESC_F_NEXT P = VRING_DESC_F_NEXT P" for x
    by (simp add: and.commute)
  moreover have "unat (of_nat m :: u16) = m" if "m < NUM P" for m using that assms(3) by (simp add: unat_of_nat)
  ultimately show ?thesis using assms(1,2) by (simp add: posted_def flags_ok_def)
qed

section \<open>Posting\<close>

interpretation vdisk: lock_place get_vdisk_lock put_vdisk_lock
  by unfold_locales (simp_all add: get_vdisk_lock_def put_vdisk_lock_def cong: disk_more(1))

definition request :: "virtio \<Rightarrow> (u32, 'd) bus \<Rightarrow> bufref \<Rightarrow> bool \<Rightarrow> u64 \<Rightarrow> nat \<Rightarrow> nat \<Rightarrow> nat \<Rightarrow> ('d, 'a) disk_mach_scheme \<Rightarrow> ('d, 'a) disk_mach_scheme" where
  "request P B b w sector i j k s = post_request P B b i (s\<lparr>disk := format_descs P b w sector i j k (disk s)\<rparr>)"

lemma request_disk:
  "disk (request P B b w sector i j k s) = (let d = format_descs P b w sector i j k (disk s) in
     d\<lparr>infos := (infos d)[i := (infos d ! i)\<lparr>i_b := Some b\<rparr>],
       avail := \<lparr>a_idx = a_idx (avail d) + 1, a_ring = (a_ring (avail d))[unat (a_idx (avail d)) mod NUM P := of_nat i]\<rparr>\<rparr>)"
  by (simp add: request_def post_request_def wr_def Let_def)

lemma request_frame:
  shows "mach.truncate (request P B b w sector i j k s) = mach.truncate s"
    "get_buf c (request P B b w sector i j k s) = (if c = b then (get_buf b s)\<lparr>handled2disk := 1\<rparr> else get_buf c s)"
  by (simp_all add: request_def post_request_def wr_def Let_def)

lemma request_posted:
  assumes "vd_ok P (disk s)" "distinct [i, j, k]" "{i, j, k} \<subseteq> {..<NUM P} - free_set (disk s)"
  shows "posted P b w sector i j k (request P B b w sector i j k s)" "vd_ok P (disk (request P B b w sector i j k s))"
    "free (disk (request P B b w sector i j k s)) = free (disk s)"
    "vdisk_lock (disk (request P B b w sector i j k s)) = vdisk_lock (disk s)"
proof -
  have len: "length (desc (disk s)) = NUM P" "length (infos (disk s)) = NUM P" "length (ops (disk s)) = NUM P"
    "length (a_ring (avail (disk s))) = NUM P" "unat (a_idx (avail (disk s))) mod NUM P < NUM P"
    using assms(1) by (simp_all add: vd_ok_def)
  show "vd_ok P (disk (request P B b w sector i j k s))" "free (disk (request P B b w sector i j k s)) = free (disk s)"
    "vdisk_lock (disk (request P B b w sector i j k s)) = vdisk_lock (disk s)"
    using assms(1) by (simp_all add: request_disk format_descs_def vd_ok_def Let_def)
  then show "posted P b w sector i j k (request P B b w sector i j k s)"
    using assms(2,3) len by (simp add: posted_def request_frame request_disk format_descs_def Let_def)
qed

section \<open>The call up to the switch\<close>

text \<open>
  A hart that may call the driver: it holds no lock, and nobody holds a process lock or the lock of
  the driver.
\<close>

definition may_call :: "('d, 'a) disk_mach_scheme \<Rightarrow> bool" where
  "may_call s \<longleftrightarrow> hart_ok s \<and> wake_ready s \<and> lock_layer (this_cpu s) = 0 \<and> available (vdisk_lock (disk s)) \<noteq> 0"

lemma rw_alloc:
  assumes "vd_ok P (disk s)" "wake_ready s" "3 \<le> card (free_set (disk s))"
  shows "\<exists>i j k. loop_res (\<lambda>(got, s). got = None) (rw_alloc_step P resume) (None, s)
      = Inr (Some [int i, int j, int k], s\<lparr>disk := (disk s)\<lparr>free := clear [i, j, k] (free (disk s))\<rparr>\<rparr>)
    \<and> distinct [i, j, k] \<and> {i, j, k} \<subseteq> free_set (disk s)"
proof -
  from alloc3_loop_spec [OF assms(1,2), of "[]" 3] assms(3) obtain js where
    js: "length js = 3" "distinct js" "set js \<subseteq> free_set (disk s)"
      "alloc3_desc P s = Inr (0, map int js, s\<lparr>disk := (disk s)\<lparr>free := clear js (free (disk s))\<rparr>\<rparr>)"
    by (auto simp: alloc3_desc_def)
  then obtain i j k where "js = [i, j, k]" by (auto simp: numeral_3_eq_3 length_Suc_conv)
  with js(4) have "loop_res (\<lambda>(got, s). got = None) (rw_alloc_step P resume) (None, s)
      = Inr (Some [int i, int j, int k], s\<lparr>disk := (disk s)\<lparr>free := clear [i, j, k] (free (disk s))\<rparr>\<rparr>)"
    by (subst loop_res_unfold) (simp add: rw_alloc_step_def)
  with js(2,3) \<open>js = [i, j, k]\<close> show ?thesis by (intro exI [of _ i] exI [of _ j] exI [of _ k]) simp
qed

text \<open>Lines 288 to 291: the descriptors and the lock are given back.\<close>

definition rw_finish :: "virtio \<Rightarrow> nat \<Rightarrow> ('d, 'a) disk_mach_scheme \<Rightarrow> ('d, 'a) disk_mach_scheme res" where
  "rw_finish P i s =
     then_res (free_chain P (int i) (s\<lparr>disk := (disk s)\<lparr>infos := (infos (disk s))[i := (infos (disk s) ! i)\<lparr>i_b := None\<rparr>]\<rparr>\<rparr>)) (\<lambda>s.
     then_res (release (get_vdisk_lock s) s) (\<lambda>(l, s). Inr (put_vdisk_lock l s)))"

lemma rw_finish_ok:
  assumes "vd_ok P (disk s)" "wake_ready s" "chain P (disk s) [i, j, k]" "distinct [i, j, k]"
  shows "\<exists>t. rw_finish P i s = Inr t \<and> vd_ok P (disk t) \<and> free_set (disk t) = free_set (disk s) \<union> {i, j, k}
    \<and> (\<forall>c. get_buf c t = get_buf c s) \<and> avail (disk t) = avail (disk s)
    \<and> vdisk_lock (disk t) = \<lparr>available = 1\<rparr> \<and> lock_layer (this_cpu t) = lock_layer (this_cpu s) - 1"
proof -
  let ?s = "s\<lparr>disk := (disk s)\<lparr>infos := (infos (disk s))[i := (infos (disk s) ! i)\<lparr>i_b := None\<rparr>]\<rparr>\<rparr>"
  have ok: "vd_ok P (disk ?s)" "wake_ready ?s" using assms(1,2) by (simp_all add: vd_ok_def)
  have "chain P (disk ?s) [i, j, k]" using assms(3) by simp
  from free_chain_ok [OF ok this assms(4)] obtain t where
    t: "free_chain P (int i) ?s = Inr t" "only_descs ?s t" "wake_ready t" "vd_ok P (disk t)" "free_set (disk t) = free_set (disk s) \<union> {i, j, k}"
    by auto
  note d = only_descs_disk [OF t(2)]
  have "avail (disk t) = avail (disk s)" by (subst d(1)) simp
  moreover have "lock_layer (this_cpu t) = lock_layer (this_cpu s)" "id_ok t" using t(2,3) by (simp_all add: only_descs_def calm_def wake_ready_def)
  moreover have "rw_finish P i s = Inr ((popped t)\<lparr>disk := (disk t)\<lparr>vdisk_lock := \<lparr>available = 1\<rparr>\<rparr>\<rparr>)"
    using t(1) \<open>id_ok t\<close> by (simp add: rw_finish_def release_eq get_vdisk_lock_def put_vdisk_lock_def spinlock_set)
  ultimately show ?thesis using t(4,5) d(2) by (simp add: vd_ok_def)
qed

text \<open>Up to the sleep: the driver's lock is held and the request is posted.\<close>

definition sector_of :: "virtio \<Rightarrow> buf \<Rightarrow> u64" where
  "sector_of P x = ucast (block_no x * (block_bytes P div 512))"

lemma rw_posts:
  assumes "vd_ok P (disk s)" "valid_ref b" "may_call s" "3 \<le> card (free_set (disk s))"
  shows "\<exists>i j k u. virtio_disk_rw P B resume b w s = then_res (loop_res (\<lambda>s. handled2disk (get_buf b s) = 1)
        (sleep get_vdisk_lock put_vdisk_lock (buf_addr P b) resume) u) (rw_finish P i)
    \<and> posted P b w (sector_of P (get_buf b s)) i j k u \<and> vd_ok P (disk u) \<and> distinct [i, j, k]
    \<and> {i, j, k} \<subseteq> free_set (disk s) \<and> free_set (disk u) = free_set (disk s) - {i, j, k}
    \<and> a_idx (avail (disk u)) = a_idx (avail (disk s)) + 1 \<and> (\<forall>c. c \<noteq> b \<longrightarrow> get_buf c u = get_buf c s)
    \<and> get_buf b u = (get_buf b s)\<lparr>handled2disk := 1\<rparr> \<and> hart_ok u \<and> cpu_proc (this_cpu u) = cpu_proc (this_cpu s) \<and> wake_ready u \<and> lock_layer (this_cpu u) = 1
    \<and> procs u = procs s \<and> gpr u = gpr s"
proof -
  let ?sec = "sector_of P (get_buf b s)"
  let ?s1 = "put_vdisk_lock \<lparr>available = 0\<rparr> (pushed s)"
  have c: "hart_ok s" "wake_ready s" "lock_layer (this_cpu s) = 0" "id_ok s"
    using assms(3) by (simp_all add: may_call_def wake_ready_def)
  have 1: "vd_ok P (disk ?s1)" "wake_ready ?s1" "free (disk ?s1) = free (disk s)"
    using assms(1) c(2) by (simp_all add: put_vdisk_lock_def vd_ok_def wake_ready_def)
  from rw_alloc [OF 1(1,2), of resume] assms(4) 1(3) obtain i j k where
    al: "loop_res (\<lambda>(got, s). got = None) (rw_alloc_step P resume) (None, ?s1)
      = Inr (Some [int i, int j, int k], ?s1\<lparr>disk := (disk ?s1)\<lparr>free := clear [i, j, k] (free (disk s))\<rparr>\<rparr>)"
    and ijk: "distinct [i, j, k]" "{i, j, k} \<subseteq> free_set (disk s)" by auto
  let ?s2 = "?s1\<lparr>disk := (disk ?s1)\<lparr>free := clear [i, j, k] (free (disk s))\<rparr>\<rparr>"
  let ?u = "request P B b w ?sec i j k ?s2"
  have lt: "{i, j, k} \<subseteq> {..<NUM P}" using ijk(2) assms(1) by (auto simp: marked_def vd_ok_def)
  have 2: "vd_ok P (disk ?s2)" "{i, j, k} \<subseteq> {..<NUM P} - free_set (disk ?s2)"
    using 1 lt by (auto simp: vd_ok_def)
  note post = request_posted [OF 2(1) ijk(1) 2(2), where w = w and sector = ?sec and B = B]
  note fr = request_frame [where s = ?s2 and b = b and P = P and B = B and w = w and sector = ?sec and i = i and j = j and k = k]
  have "mach.truncate ?u = mach.truncate (pushed s)" using fr(1) by (simp add: put_vdisk_lock_def)
  then have cm: "calm (pushed s) ?u" by (rule calm_truncate)
  have "virtio_disk_rw P B resume b w s = then_res (loop_res (\<lambda>s. handled2disk (get_buf b s) = 1)
        (sleep get_vdisk_lock put_vdisk_lock (buf_addr P b) resume) ?u) (rw_finish P i)"
    using assms(2,3) c(4) al
    by (simp add: virtio_disk_rw_def acquire_eq get_vdisk_lock_def may_call_def request_def rw_finish_def [abs_def] sector_of_def
        spinlock_set Let_def)
  moreover have "hart_ok ?u" "cpu_proc (this_cpu ?u) = cpu_proc (this_cpu s)" "wake_ready ?u" "lock_layer (this_cpu ?u) = 1" "procs ?u = procs s" "gpr ?u = gpr s"
    using cm c calm_ready [OF cm] by (simp_all add: calm_def wake_ready_def)
  moreover have "a_idx (avail (disk ?u)) = a_idx (avail (disk s)) + 1"
    by (simp add: request_disk format_descs_def put_vdisk_lock_def Let_def)
  moreover have "get_buf d ?u = get_buf d s" if "d \<noteq> b" for d using that fr(2) by (simp add: put_vdisk_lock_def)
  moreover have "get_buf b ?u = (get_buf b s)\<lparr>handled2disk := 1\<rparr>" using fr(2) by (simp add: put_vdisk_lock_def)
  moreover have "free_set (disk ?u) = free_set (disk s) - {i, j, k}" using post(3) by auto
  ultimately show ?thesis using post(1,2) ijk
    by (intro exI [of _ i] exI [of _ j] exI [of _ k] exI [of _ ?u] conjI allI impI)
qed

text \<open>
  The rest of the call from the return of \<open>resume\<close> on, for process \<open>p\<close>, and the state at the switch.
\<close>

definition rw_rest ::
  "virtio \<Rightarrow> (('d, 'a) disk_mach_scheme \<Rightarrow> ('d, 'a) disk_mach_scheme res) \<Rightarrow> bufref \<Rightarrow> nat \<Rightarrow> nat \<Rightarrow>
   ('d, 'a) disk_mach_scheme \<Rightarrow> ('d, 'a) disk_mach_scheme res" where
  "rw_rest P resume b p i v =
     then_res (vdisk.wake p (v\<lparr>gpr := p_context (proc_at p v)\<rparr>)) (\<lambda>x.
     then_res (loop_res (\<lambda>s. handled2disk (get_buf b s) = 1) (sleep get_vdisk_lock put_vdisk_lock (buf_addr P b) resume) x)
       (rw_finish P i))"

definition rw_switched :: "virtio \<Rightarrow> bufref \<Rightarrow> nat \<Rightarrow> ('d, 'a) disk_mach_scheme \<Rightarrow> ('d, 'a) disk_mach_scheme \<Rightarrow> bool" where
  "rw_switched P b p s t \<longleftrightarrow> state (proc_at p t) = SLEEPING \<and> channel (proc_at p t) = buf_addr P b
     \<and> p_context (proc_at p t) = gpr s \<and> available (p_lock (proc_at p t)) = 0 \<and> available (vdisk_lock (disk t)) = 1
     \<and> (\<forall>q. q \<noteq> p \<longrightarrow> proc_at q t = proc_at q s) \<and> (\<forall>c. c \<noteq> b \<longrightarrow> get_buf c t = get_buf c s)"

lemma rw_switch:
  assumes "vd_ok P (disk s)" "flags_ok P" "valid_ref b" "may_call s" "3 \<le> card (free_set (disk s))"
    and p: "cpu_proc (this_cpu s) = Some p" "p < 64"
  shows "\<exists>i j k t. virtio_disk_rw P B resume b w s = then_res (resume t) (rw_rest P resume b p i)
    \<and> posted P b w (sector_of P (get_buf b s)) i j k t \<and> chain P (disk t) [i, j, k]
    \<and> {i, j, k} \<subseteq> free_set (disk s) \<and> free_set (disk t) = free_set (disk s) - {i, j, k}
    \<and> a_idx (avail (disk t)) = a_idx (avail (disk s)) + 1
    \<and> get_buf b t = (get_buf b s)\<lparr>handled2disk := 1\<rparr> \<and> rw_switched P b p s t"
proof -
  from rw_posts [OF assms(1,3-5), of B resume w] obtain i j k u where
    run: "virtio_disk_rw P B resume b w s = then_res (loop_res (\<lambda>s. handled2disk (get_buf b s) = 1)
        (sleep get_vdisk_lock put_vdisk_lock (buf_addr P b) resume) u) (rw_finish P i)"
    and u: "posted P b w (sector_of P (get_buf b s)) i j k u" "vd_ok P (disk u)" "{i, j, k} \<subseteq> free_set (disk s)"
      "free_set (disk u) = free_set (disk s) - {i, j, k}" "a_idx (avail (disk u)) = a_idx (avail (disk s)) + 1"
      "\<forall>c. c \<noteq> b \<longrightarrow> get_buf c u = get_buf c s" "get_buf b u = (get_buf b s)\<lparr>handled2disk := 1\<rparr>"
    and h: "hart_ok u" "cpu_proc (this_cpu u) = Some p" "wake_ready u" "lock_layer (this_cpu u) = 1" "procs u = procs s"
    and g: "gpr u = gpr s"
    unfolding p(1) by (elim exE conjE) (rule that)
  let ?a = "vdisk.asleep (buf_addr P b) p u"
  let ?t = "(set_proc p (p_context_update (\<lambda>_. gpr u)) (cycled ?a))\<lparr>gpr := cpu_context (this_cpu u)\<rparr>"
  have len: "p < length (procs u)" "available (p_lock (proc_at p u)) \<noteq> 0"
    using h(3) p(2) by (simp_all add: wake_ready_def proc_at_def)
  have a: "disk ?a = (disk u)\<lparr>vdisk_lock := (vdisk_lock (disk u))\<lparr>available := 1\<rparr>\<rparr>" "get_buf c ?a = get_buf c u" for c
    by (simp_all add: vdisk.asleep_def put_vdisk_lock_def get_vdisk_lock_def)
  have t: "disk ?t = (disk u)\<lparr>vdisk_lock := (vdisk_lock (disk u))\<lparr>available := 1\<rparr>\<rparr>" "get_buf c ?t = get_buf c u" for c
    by (simp_all add: a)
  have post: "posted P b w (sector_of P (get_buf b s)) i j k ?t" using u(1) unfolding posted_def t by simp
  have "NUM P < 2 ^ 16" using assms(1) by (simp add: vd_ok_def)
  note ch = posted_chain [OF post assms(2) this]
  have pr: "proc_at q u = proc_at q s" for q using h(5) by (simp add: proc_at_def)
  have id: "id_ok u" using h(1) by (rule hart_ok_id_ok)
  have sw: "rw_switched P b p s ?t"
    using vdisk.asleep_props [OF id len(1), where chan = "buf_addr P b"] u(6) len(1) pr g
    by (simp add: rw_switched_def a)
  have "loop_res (\<lambda>s. handled2disk (get_buf b s) = 1) (sleep get_vdisk_lock put_vdisk_lock (buf_addr P b) resume) u
      = then_res (sleep get_vdisk_lock put_vdisk_lock (buf_addr P b) resume u)
          (loop_res (\<lambda>s. handled2disk (get_buf b s) = 1) (sleep get_vdisk_lock put_vdisk_lock (buf_addr P b) resume))"
    using u(1) by (subst loop_res_unfold) (simp add: posted_def)
  then have "virtio_disk_rw P B resume b w s = then_res (resume ?t) (rw_rest P resume b p i)"
    unfolding run vdisk.sleep_at [OF h(1,2) len h(4), of "buf_addr P b" resume]
    by (simp add: then_res_assoc rw_rest_def [abs_def])
  then show ?thesis using post ch sw u(3,4,5,7) t by (intro exI [of _ i] exI [of _ j] exI [of _ k] exI [of _ ?t]) simp
qed

lemma rw_no_proc:
  assumes "vd_ok P (disk s)" "valid_ref b" "may_call s" "3 \<le> card (free_set (disk s))" "cpu_proc (this_cpu s) = None"
  shows "virtio_disk_rw P B resume b w s = Inl NullDeref"
proof -
  from rw_posts [OF assms(1-4), of B resume w] obtain i j k u where
    run: "virtio_disk_rw P B resume b w s = then_res (loop_res (\<lambda>s. handled2disk (get_buf b s) = 1)
        (sleep get_vdisk_lock put_vdisk_lock (buf_addr P b) resume) u) (rw_finish P i)"
    and u: "posted P b w (sector_of P (get_buf b s)) i j k u" "hart_ok u" "cpu_proc (this_cpu u) = None"
    unfolding assms(5) by (elim exE conjE) (rule that)
  have "sleep get_vdisk_lock put_vdisk_lock (buf_addr P b) resume u = Inl NullDeref"
    using vdisk.sleep_no_proc [OF hart_ok_id_ok [OF u(2)] u(3)] .
  then have "loop_res (\<lambda>s. handled2disk (get_buf b s) = 1) (sleep get_vdisk_lock put_vdisk_lock (buf_addr P b) resume) u = Inl NullDeref"
    using u(1) by (subst loop_res_unfold) (simp add: posted_def)
  then show ?thesis by (simp add: run)
qed

text \<open>
  C4: a disk request is posted, and its caller goes to sleep. On a hart that holds no lock, with the
  driver's lock free and three descriptors free, \<open>virtio_disk_rw\<close> takes three descriptors that were
  free and no other, and links them into a chain of the request header for the buffer's sector, in
  the right direction, the data and the status byte; the chain's head is the newest entry of the
  available ring. Then it switches away: the process is SLEEPING on the channel of the buffer with
  its registers saved, its lock is held and the driver's is free again; the buffer is marked as with
  the device, and no other process and no other buffer has changed. On a cpu that records no process, and the scheduler never records
  one, the call follows a null pointer instead.
\<close>

theorem virtio_disk_rw_posts:
  assumes "vd_ok P (disk s)" "flags_ok P" "valid_ref b" "may_call s" "3 \<le> card (free_set (disk s))"
  shows "case cpu_proc (this_cpu s) of
      None \<Rightarrow> virtio_disk_rw P B resume b w s = Inl NullDeref
    | Some p \<Rightarrow> p < 64 \<longrightarrow> (\<exists>i j k t. virtio_disk_rw P B resume b w s = then_res (resume t) (rw_rest P resume b p i)
        \<and> posted P b w (sector_of P (get_buf b s)) i j k t \<and> chain P (disk t) [i, j, k]
        \<and> {i, j, k} \<subseteq> free_set (disk s) \<and> free_set (disk t) = free_set (disk s) - {i, j, k}
        \<and> a_idx (avail (disk t)) = a_idx (avail (disk s)) + 1
        \<and> get_buf b t = (get_buf b s)\<lparr>handled2disk := 1\<rparr>
        \<and> state (proc_at p t) = SLEEPING \<and> channel (proc_at p t) = buf_addr P b \<and> p_context (proc_at p t) = gpr s
        \<and> available (p_lock (proc_at p t)) = 0 \<and> available (vdisk_lock (disk t)) = 1 \<and> (\<forall>q. q \<noteq> p \<longrightarrow> proc_at q t = proc_at q s)
        \<and> (\<forall>c. c \<noteq> b \<longrightarrow> get_buf c t = get_buf c s))"
proof (cases "cpu_proc (this_cpu s)")
  case None
  with rw_no_proc [OF assms(1,3-5)] show ?thesis by simp
next
  case (Some p)
  show ?thesis unfolding Some option.case
    by (rule impI) (rule rw_switch [OF assms Some, unfolded rw_switched_def])
qed

section \<open>A concrete request\<close>

lemma demo_call_ok: "may_call demo_system" "flags_ok demo_virtio" "cpu_proc (this_cpu demo_system) = Some 0"
  using demo_system_ok(4)
  by (simp_all add: may_call_def hart_ok_def id_ok_def cpu_id_def this_cpu_def demo_system_mach demo_system_ok)
    (simp_all add: demo_machine_def zero_mach_def zero_hart_def demo_disk_def flags_ok_def demo_virtio_def)

theorem virtio_disk_rw_posts_witness:
  "\<exists>i t. virtio_disk_rw demo_virtio demo_ports Inr Head False demo_system = then_res (Inr t) (rw_rest demo_virtio Inr Head 0 i)
    \<and> state (proc_at 0 t) = SLEEPING \<and> channel (proc_at 0 t) = 0x80103000 \<and> a_idx (avail (disk t)) = 1"
proof -
  have "vd_ok demo_virtio (disk demo_system)" "3 \<le> card (free_set (disk demo_system))" "a_idx (avail (disk demo_system)) = 0"
    by (simp_all add: demo_system_ok) (simp add: demo_disk_def)
  moreover have "buf_addr demo_virtio Head = 0x80103000" by (simp add: demo_virtio_def)
  ultimately show ?thesis
    using virtio_disk_rw_posts [where resume = Inr and b = Head and w = False and s = demo_system and P = demo_virtio
        and B = demo_ports] demo_call_ok
    by (simp del: chain.simps get_buf.simps) blast
qed

end
