(* ===== verification/Bio.thy ===== *)
theory Bio
  imports Virtio_Rw
begin

text \<open>
  The routines of \<open>kernel/bio.c\<close>, the buffer cache: a doubly linked list of the 30 buffers under one
  spin lock, each buffer with a sleep lock of its own.

  Where the file does not compile it is read as follows: \<open>cursor.next\<close> is \<open>cursor->next\<close>; the
  comparison of \<open>cursor\<close> with \<open>cache.head\<close> is one with its address, which is also what \<open>cursor->prior = cache\<close>
  stores (\<open>head\<close> is the first member); \<open>b\<close> in \<open>bread\<close> and \<open>brelease\<close>, which is not declared, is \<open>buffer\<close>. A
  call of \<open>bget\<close> that runs off the end of the function returns \<open>None\<close>. \<open>chan\<close> gives the address of the
  sleep lock of a buffer.
\<close>

section \<open>The sleep lock of a buffer\<close>

definition get_sllk :: "bufref \<Rightarrow> 'a buf_mach_scheme \<Rightarrow> sleeplock" where
  "get_sllk b s = sllk (get_buf b s)"

definition put_sllk :: "bufref \<Rightarrow> sleeplock \<Rightarrow> 'a buf_mach_scheme \<Rightarrow> 'a buf_mach_scheme" where
  "put_sllk b l s = set_buf b (sllk_update (\<lambda>_. l)) s"

interpretation buf_lock: sleeplock_place "get_sllk b" "put_sllk b" for b
  by unfold_locales (simp_all add: get_sllk_def put_sllk_def cong: buf_more(6))

text \<open>
  C32: the test of \<open>acquire_sleep\<close> is the wrong way round, on the lock of any buffer. A lock that somebody
  holds is granted at once, so that two processes hold it; a lock that is free is never granted,
  as long as nobody else sets \<open>holding\<close>.
\<close>

theorem acquire_sleep_inverted:
  assumes "id_ok s" "available (splk (get_sllk b s)) \<noteq> 0"
    and keep: "\<And>u v. holding (get_sllk b u) = 0 \<Longrightarrow> resume u = Inr v \<Longrightarrow> holding (get_sllk b v) = 0"
  shows "if holding (get_sllk b s) = 0 then \<forall>t. acquire_sleep (get_sllk b) (put_sllk b) chan resume s \<noteq> Inr t
    else \<exists>t. acquire_sleep (get_sllk b) (put_sllk b) chan resume s = Inr t \<and> calm s t
      \<and> get_sllk b t = \<lparr>splk = \<lparr>available = 1\<rparr>, holding = 1\<rparr>"
proof (cases "holding (get_sllk b s) = 0")
  case True
  have "acquire_sleep (get_sllk b) (put_sllk b) chan resume s \<noteq> Inr t" for t
    using True by (rule buf_lock.acquire_sleep_free) (rule keep)
  then show ?thesis using True by simp
next
  case False
  then show ?thesis
    using buf_lock.acquire_sleep_held [OF assms(1,2)] buf_lock.granted_props [where b = b and s = s] assms(1) by auto
qed

theorem acquire_sleep_inverted_witness:
  "\<forall>t. acquire_sleep (get_sllk Head) (put_sllk Head) 0x80105000 Inr demo_system \<noteq> Inr t"
proof -
  have "id_ok demo_system" using demo_system_ok(4) by (simp add: wake_ready_def)
  moreover have "get_sllk Head demo_system = \<lparr>splk = \<lparr>available = 1\<rparr>, holding = 0\<rparr>"
    by (simp add: get_sllk_def demo_system_def mach.defs demo_buf_def)
  ultimately show ?thesis using acquire_sleep_inverted [where s = demo_system and b = Head and resume = Inr and chan = "0x80105000"] by auto
qed

section \<open>Operations\<close>

text \<open>One turn of the first loop of \<open>bget\<close>; the flag is set when the buffer is found.\<close>

definition bget_find_step :: "u32 \<Rightarrow> u32 \<Rightarrow> 'a buf_mach_scheme \<Rightarrow> bufref option \<times> bool \<Rightarrow> (bufref option \<times> bool) res" where
  "bget_find_step dev n s = (\<lambda>(cursor, found).
     case cursor of
       None \<Rightarrow> Inl NullDeref
     | Some c \<Rightarrow>
         if buf_dev (get_buf c s) = dev \<and> block_no (get_buf c s) = n then Inr (Some c, True)
         else Inr (b_next (get_buf c s), False))"

text \<open>One turn of the second loop, which never moves the cursor.\<close>

definition bget_recycle_step :: "'a buf_mach_scheme \<Rightarrow> bufref option \<times> bool \<Rightarrow> (bufref option \<times> bool) res" where
  "bget_recycle_step s = (\<lambda>(cursor, found).
     case cursor of
       None \<Rightarrow> Inl NullDeref
     | Some c \<Rightarrow> if link_no (get_buf c s) = 0 then Inr (Some c, True) else Inr (Some c, False))"

text \<open>The end of both branches: count the reference, take the sleep lock, give up the cache's lock.\<close>

definition bget_take ::
  "(bufref \<Rightarrow> u64) \<Rightarrow> ('a buf_mach_scheme \<Rightarrow> 'a buf_mach_scheme res) \<Rightarrow> bufref \<Rightarrow> 'a buf_mach_scheme
   \<Rightarrow> (bufref option \<times> 'a buf_mach_scheme) res" where
  "bget_take chan resume c s =
     (let s = set_buf c (\<lambda>x. x\<lparr>link_no := link_no x + 1\<rparr>) s
      in then_res (acquire_sleep (get_sllk c) (put_sllk c) (chan c) resume s) (\<lambda>s.
         then_res (release (cache_lock s) s) (\<lambda>(l, s). Inr (Some c, s\<lparr>cache_lock := l\<rparr>))))"

definition bget ::
  "(bufref \<Rightarrow> u64) \<Rightarrow> ('a buf_mach_scheme \<Rightarrow> 'a buf_mach_scheme res) \<Rightarrow> u32 \<Rightarrow> u32 \<Rightarrow> 'a buf_mach_scheme
   \<Rightarrow> (bufref option \<times> 'a buf_mach_scheme) res" where
  "bget chan resume dev n s =
     then_res (acquire (cache_lock s) s) (\<lambda>(l, s).
     let s = s\<lparr>cache_lock := l\<rparr>
     in then_res (loop_res (\<lambda>(cursor, found). \<not> found \<and> cursor \<noteq> Some Head) (bget_find_step dev n s)
                    (b_next (cache_head s), False)) (\<lambda>(cursor, found).
        if found then bget_take chan resume (the cursor) s
        else
          then_res (loop_res (\<lambda>(cursor, found). \<not> found \<and> cursor \<noteq> Some Head) (bget_recycle_step s)
                      (b_prior (cache_head s), False)) (\<lambda>(cursor, found).
          if found then
            bget_take chan resume (the cursor)
              (set_buf (the cursor) (\<lambda>x. x\<lparr>buf_dev := dev, block_no := n, valid := 0\<rparr>) s)
          else Inr (None, s))))"

definition bread ::
  "virtio \<Rightarrow> (u32, 'd) bus \<Rightarrow> (bufref \<Rightarrow> u64) \<Rightarrow> (('d, 'a) disk_mach_scheme \<Rightarrow> ('d, 'a) disk_mach_scheme res) \<Rightarrow>
   u32 \<Rightarrow> u32 \<Rightarrow> ('d, 'a) disk_mach_scheme \<Rightarrow> (bufref \<times> ('d, 'a) disk_mach_scheme) res" where
  "bread P B chan resume dev n s =
     then_res (bget chan resume dev n s) (\<lambda>(buffer, s).
     case buffer of
       None \<Rightarrow> Inl NullDeref
     | Some b \<Rightarrow>
         if valid (get_buf b s) = 0 then
           then_res (virtio_disk_rw P B resume b False s) (\<lambda>s. Inr (b, set_buf b (valid_update (\<lambda>_. 1)) s))
         else Inr (b, s))"

definition bwrite ::
  "virtio \<Rightarrow> (u32, 'd) bus \<Rightarrow> (('d, 'a) disk_mach_scheme \<Rightarrow> ('d, 'a) disk_mach_scheme res) \<Rightarrow>
   bufref \<Rightarrow> ('d, 'a) disk_mach_scheme \<Rightarrow> ('d, 'a) disk_mach_scheme res" where
  "bwrite P B resume buffer s = virtio_disk_rw P B resume buffer True s"

text \<open>Lines 95 to 103: the buffer is unlinked and put behind the head.\<close>

definition move_front :: "bufref \<Rightarrow> 'a buf_mach_scheme \<Rightarrow> 'a buf_mach_scheme res" where
  "move_front b s =
     (case b_prior (get_buf b s) of
        None \<Rightarrow> Inl NullDeref
      | Some p \<Rightarrow>
          let s = set_buf p (b_next_update (\<lambda>_. b_next (get_buf b s))) s
          in case b_next (get_buf b s) of
               None \<Rightarrow> Inl NullDeref
             | Some n \<Rightarrow>
                 let s = set_buf n (b_prior_update (\<lambda>_. b_prior (get_buf b s))) s;
                     s = set_buf b (b_next_update (\<lambda>_. b_next (get_buf Head s))) s;
                     s = set_buf b (b_prior_update (\<lambda>_. Some Head)) s
                 in Inr (set_buf Head (b_next_update (\<lambda>_. Some b)) s))"

definition brelease :: "(bufref \<Rightarrow> u64) \<Rightarrow> bufref \<Rightarrow> 'a buf_mach_scheme \<Rightarrow> 'a buf_mach_scheme res" where
  "brelease chan buffer s =
     then_res (release_sleep (get_sllk buffer) (put_sllk buffer) (chan buffer) s) (\<lambda>s.
     then_res (acquire (cache_lock s) s) (\<lambda>(l, s).
     let s = s\<lparr>cache_lock := l\<rparr>;
         s = set_buf buffer (\<lambda>x. x\<lparr>link_no := link_no x - 1\<rparr>) s
     in then_res (if link_no (get_buf buffer s) = 0 then move_front buffer s else Inr s) (\<lambda>s.
        then_res (release (cache_lock s) s) (\<lambda>(l, s). Inr (s\<lparr>cache_lock := l\<rparr>)))))"

definition init_sllk :: "bufref \<Rightarrow> 'a buf_mach_scheme \<Rightarrow> 'a buf_mach_scheme" where
  "init_sllk b s = put_sllk b (sleeplock_init (get_sllk b s)) s"

text \<open>The body of the \<open>for\<close> loop of \<open>binit\<close>.\<close>

definition binit_step :: "nat \<Rightarrow> bufref \<times> 'a buf_mach_scheme \<Rightarrow> bufref \<times> 'a buf_mach_scheme" where
  "binit_step i = (\<lambda>(cursor, s).
     let s = set_buf cursor (b_next_update (\<lambda>_. Some (Buf i))) s;
         s = set_buf (Buf i) (b_prior_update (\<lambda>_. Some cursor)) s;
         s = init_sllk cursor s
     in (Buf i, s))"

definition binit :: "'a buf_mach_scheme \<Rightarrow> 'a buf_mach_scheme" where
  "binit s =
     (let s = s\<lparr>cache_lock := spinlock_init (cache_lock s)\<rparr>;
          cursor = Buf 0;
          s = set_buf Head (b_next_update (\<lambda>_. Some cursor)) s;
          s = set_buf cursor (b_prior_update (\<lambda>_. Some Head)) s;
          s = init_sllk cursor s;
          (cursor, s) = fold binit_step [1..<30] (cursor, s);
          s = set_buf cursor (b_next_update (\<lambda>_. Some Head)) s
      in set_buf Head (b_prior_update (\<lambda>_. Some cursor)) s)"

section \<open>The list of buffers\<close>

text \<open>A path along one of the two links, from one buffer over a list of buffers to another.\<close>

fun path :: "(bufref \<Rightarrow> bufref option) \<Rightarrow> bufref \<Rightarrow> bufref list \<Rightarrow> bufref \<Rightarrow> bool" where
  "path f a [] b \<longleftrightarrow> f a = Some b"
| "path f a (x # xs) b \<longleftrightarrow> f a = Some x \<and> path f x xs b"

definition nexts :: "'a buf_mach_scheme \<Rightarrow> bufref \<Rightarrow> bufref option" where
  "nexts s r = b_next (get_buf r s)"

definition priors :: "'a buf_mach_scheme \<Rightarrow> bufref \<Rightarrow> bufref option" where
  "priors s r = b_prior (get_buf r s)"

text \<open>The cache holds the buffers \<open>xs\<close>, most recently used first, linked both ways.\<close>

definition ring :: "'a buf_mach_scheme \<Rightarrow> bufref list \<Rightarrow> bool" where
  "ring s xs \<longleftrightarrow> distinct xs \<and> Head \<notin> set xs \<and> (\<forall>x \<in> set xs. valid_ref x)
     \<and> path (nexts s) Head xs Head \<and> path (priors s) Head (rev xs) Head"

lemma path_append: "path f a (xs @ x # ys) b \<longleftrightarrow> path f a xs x \<and> path f x ys b"
  by (induction xs arbitrary: a) auto

lemma path_cong: "(\<And>x. x \<in> insert a (set xs) \<Longrightarrow> f x = g x) \<Longrightarrow> path f a xs b = path g a xs b"
  by (induction xs arbitrary: a) auto

lemma cache_lock_update [simp]:
  "get_buf b (s\<lparr>cache_lock := l\<rparr>) = get_buf b s" "mach.truncate (s\<lparr>cache_lock := l\<rparr>) = mach.truncate s"
  "buf_mach.more (s\<lparr>cache_lock := l\<rparr>) = buf_mach.more s"
  "id_ok (s\<lparr>cache_lock := l\<rparr>) = id_ok s" "this_cpu (s\<lparr>cache_lock := l\<rparr>) = this_cpu s" "hart_ok (s\<lparr>cache_lock := l\<rparr>) = hart_ok s"
  "proc_at i (s\<lparr>cache_lock := l\<rparr>) = proc_at i s"
  by (cases b; simp add: id_ok_def this_cpu_def cpu_id_def hart_ok_def mach.truncate_def proc_at_def)+

lemma cache_lock_set_buf [simp]: "(set_buf b f s)\<lparr>cache_lock := l\<rparr> = set_buf b f (s\<lparr>cache_lock := l\<rparr>)"
  by (cases b) simp_all

lemma cache_simps [simp]: "cache_head (pushed s) = cache_head s" "cache_head (popped s) = cache_head s"
  "cache_lock (pushed s) = cache_lock s" "cache_lock (popped s) = cache_lock s"
  "buf_mach.more (pushed s) = buf_mach.more s" "buf_mach.more (popped s) = buf_mach.more s"
  by (rule buf_more, simp)+

lemma put_sllk_simps [simp]:
  "get_buf c (put_sllk b l s) = (if c = b then (get_buf b s)\<lparr>sllk := l\<rparr> else get_buf c s)"
  "cache_lock (put_sllk b l s) = cache_lock s" "buf_mach.more (put_sllk b l s) = buf_mach.more s"
  "mach.truncate (put_sllk b l s) = mach.truncate s"
  by (simp_all add: put_sllk_def)

lemma disk_buf_more: "buf_mach.more s = buf_mach.more t \<Longrightarrow> disk s = disk t"
  by (cases s; cases t) simp

section \<open>Initialisation\<close>

lemma binit_loop:
  "\<exists>t. fold binit_step [1..<Suc n] (Buf 0, s) = (Buf n, t) \<and> cache_lock t = cache_lock s \<and> buf_mach.more t = buf_mach.more s
    \<and> mach.truncate t = mach.truncate s \<and> get_buf Head t = get_buf Head s
    \<and> (\<forall>j. get_buf (Buf j) t = (let x = get_buf (Buf j) s in
         x\<lparr>sllk := if j < n then sleeplock_init (sllk x) else sllk x, b_prior := if 0 < j \<and> j \<le> n then Some (Buf (j - 1)) else b_prior x,
           b_next := if j < n then Some (Buf (Suc j)) else b_next x\<rparr>))"
proof (induction n)
  case (Suc n)
  then obtain t where t: "fold binit_step [1..<Suc n] (Buf 0, s) = (Buf n, t)" "cache_lock t = cache_lock s"
    "buf_mach.more t = buf_mach.more s" "mach.truncate t = mach.truncate s" "get_buf Head t = get_buf Head s"
    "\<forall>j. get_buf (Buf j) t = (let x = get_buf (Buf j) s in
         x\<lparr>sllk := if j < n then sleeplock_init (sllk x) else sllk x, b_prior := if 0 < j \<and> j \<le> n then Some (Buf (j - 1)) else b_prior x,
           b_next := if j < n then Some (Buf (Suc j)) else b_next x\<rparr>)" by blast
  let ?u = "init_sllk (Buf n) (set_buf (Buf (Suc n)) (b_prior_update (\<lambda>_. Some (Buf n))) (set_buf (Buf n) (b_next_update (\<lambda>_. Some (Buf (Suc n)))) t))"
  have "fold binit_step [1..<Suc (Suc n)] (Buf 0, s) = (Buf (Suc n), ?u)"
    using t(1) by (simp add: binit_step_def Let_def del: set_buf.simps)
  then show ?case using t(2-6)
    by (intro exI [of _ ?u]) (auto simp: init_sllk_def get_sllk_def Let_def le_Suc_eq less_Suc_eq simp del: set_buf.simps get_buf.simps)
qed (auto simp: Let_def)

lemma binit_state:
  "cache_lock (binit s) = spinlock_init (cache_lock s)" "mach.truncate (binit s) = mach.truncate s" "buf_mach.more (binit s) = buf_mach.more s"
  "get_buf Head (binit s) = (get_buf Head s)\<lparr>b_next := Some (Buf 0), b_prior := Some (Buf 29)\<rparr>"
  "j < 30 \<Longrightarrow> get_buf (Buf j) (binit s) = (get_buf (Buf j) s)
     \<lparr>sllk := if j < 29 then \<lparr>splk = \<lparr>available = 1\<rparr>, holding = 0\<rparr> else sllk (get_buf (Buf j) s),
      b_prior := Some (if j = 0 then Head else Buf (j - 1)), b_next := Some (if j = 29 then Head else Buf (Suc j))\<rparr>"
proof -
  let ?s0 = "init_sllk (Buf 0) (set_buf (Buf 0) (b_prior_update (\<lambda>_. Some Head))
    (set_buf Head (b_next_update (\<lambda>_. Some (Buf 0))) (s\<lparr>cache_lock := spinlock_init (cache_lock s)\<rparr>)))"
  from binit_loop [of 29 ?s0] obtain t where t: "fold binit_step [1..<30] (Buf 0, ?s0) = (Buf 29, t)" "cache_lock t = cache_lock ?s0"
    "buf_mach.more t = buf_mach.more ?s0" "mach.truncate t = mach.truncate ?s0" "get_buf Head t = get_buf Head ?s0"
    "\<And>j. get_buf (Buf j) t = (let x = get_buf (Buf j) ?s0 in
         x\<lparr>sllk := if j < 29 then sleeplock_init (sllk x) else sllk x, b_prior := if 0 < j \<and> j \<le> 29 then Some (Buf (j - 1)) else b_prior x,
           b_next := if j < 29 then Some (Buf (Suc j)) else b_next x\<rparr>)"
    by (auto simp del: upt_Suc get_buf.simps set_buf.simps)
  have B: "binit s = set_buf Head (b_prior_update (\<lambda>_. Some (Buf 29))) (set_buf (Buf 29) (b_next_update (\<lambda>_. Some Head)) t)"
    unfolding binit_def Let_def t(1) by simp
  note simps = init_sllk_def get_sllk_def sleeplock_init_def spinlock_init_def sleeplock_set spinlock_set
  show "cache_lock (binit s) = spinlock_init (cache_lock s)" "mach.truncate (binit s) = mach.truncate s" "buf_mach.more (binit s) = buf_mach.more s"
    unfolding B using t(2-4) by (simp_all add: simps del: set_buf.simps)
  show "get_buf Head (binit s) = (get_buf Head s)\<lparr>b_next := Some (Buf 0), b_prior := Some (Buf 29)\<rparr>"
    unfolding B using t(5) by (simp add: simps del: set_buf.simps get_buf.simps)
  show "get_buf (Buf j) (binit s) = (get_buf (Buf j) s)
     \<lparr>sllk := if j < 29 then \<lparr>splk = \<lparr>available = 1\<rparr>, holding = 0\<rparr> else sllk (get_buf (Buf j) s),
      b_prior := Some (if j = 0 then Head else Buf (j - 1)), b_next := Some (if j = 29 then Head else Buf (Suc j))\<rparr>" if "j < 30"
    unfolding B using t(6) [of j] that by (auto simp: simps Let_def simp del: set_buf.simps get_buf.simps)
qed

lemma path_nth: "path f a xs b \<longleftrightarrow> (\<forall>i \<le> length xs. f ((a # xs) ! i) = Some ((xs @ [b]) ! i))"
proof (induction xs arbitrary: a)
  case (Cons x xs)
  have "(\<forall>i \<le> length (x # xs). P i) \<longleftrightarrow> P 0 \<and> (\<forall>i \<le> length xs. P (Suc i))" for P :: "nat \<Rightarrow> bool"
    by (metis (no_types) Suc_le_mono length_Cons old.nat.exhaust zero_le)
  then show ?case using Cons by simp
qed simp

lemma binit_builds: "ring (binit s) (map Buf [0..<30])"
proof -
  let ?xs = "map Buf [0..<30]"
  have "nexts (binit s) ((Head # ?xs) ! i) = Some ((?xs @ [Head]) ! i)" if "i \<le> length ?xs" for i
  proof (cases i)
    case (Suc j)
    with that have "j < 30" by simp
    with Suc show ?thesis by (simp add: nexts_def binit_state nth_append del: get_buf.simps upt_Suc)
  qed (simp add: nexts_def binit_state nth_append del: get_buf.simps upt_Suc)
  moreover have "priors (binit s) ((Head # rev ?xs) ! i) = Some ((rev ?xs @ [Head]) ! i)" if "i \<le> length (rev ?xs)" for i
  proof (cases i)
    case (Suc j)
    with that have "j < 30" by simp
    with Suc show ?thesis by (auto simp: priors_def binit_state nth_append rev_nth simp del: get_buf.simps upt_Suc rev_map)
  qed (simp add: priors_def binit_state nth_append rev_nth del: get_buf.simps upt_Suc)
  ultimately show ?thesis unfolding ring_def path_nth by (auto simp: distinct_map inj_on_def)
qed

text \<open>
  C12: \<open>binit\<close> links all 30 buffers into one ring: from the head, \<open>next\<close> visits buffers 0 to 29 in order
  and comes back, \<open>prior\<close> visits them in the opposite order; the lock of the cache is free. The sleep
  locks of buffers 0 to 28 are set up as free; that of buffer 29 is left as it was.
\<close>

theorem binit_links_ring:
  "ring (binit s) (map Buf [0..<30]) \<and> cache_lock (binit s) = \<lparr>available = 1\<rparr>
    \<and> (\<forall>j < 29. get_sllk (Buf j) (binit s) = \<lparr>splk = \<lparr>available = 1\<rparr>, holding = 0\<rparr>)
    \<and> get_sllk (Buf 29) (binit s) = get_sllk (Buf 29) s \<and> mach.truncate (binit s) = mach.truncate s"
  using binit_builds [of s]
  by (simp add: binit_state spinlock_init_def spinlock_set get_sllk_def del: get_buf.simps upt_Suc)

theorem binit_links_ring_witness:
  "ring (binit demo_system) (map Buf [0..<30]) \<and> get_sllk (Buf 7) (binit demo_system) = \<lparr>splk = \<lparr>available = 1\<rparr>, holding = 0\<rparr>"
proof -
  have "(7 :: nat) < 29" by simp
  with binit_links_ring [of demo_system] show ?thesis by blast
qed

section \<open>Looking a block up\<close>

definition holds_block :: "u32 \<Rightarrow> u32 \<Rightarrow> 'a buf_mach_scheme \<Rightarrow> bufref \<Rightarrow> bool" where
  "holds_block dev n s b \<longleftrightarrow> buf_dev (get_buf b s) = dev \<and> block_no (get_buf b s) = n"

text \<open>The buffer the cache picks: the one that holds the block, else the last one, if nobody uses it.\<close>

definition pick :: "u32 \<Rightarrow> u32 \<Rightarrow> 'a buf_mach_scheme \<Rightarrow> bufref list \<Rightarrow> bufref option" where
  "pick dev n s xs =
     (case List.find (holds_block dev n s) xs of
        Some b \<Rightarrow> Some b
      | None \<Rightarrow> if link_no (get_buf (last xs) s) = 0 then Some (last xs) else None)"

lemma find_loop:
  assumes "path (nexts s) a xs Head" "Head \<notin> set xs"
  shows "loop_res (\<lambda>(cursor, found). \<not> found \<and> cursor \<noteq> Some Head) (bget_find_step dev n s) (b_next (get_buf a s), False) =
    (case List.find (holds_block dev n s) xs of None \<Rightarrow> Inr (Some Head, False) | Some b \<Rightarrow> Inr (Some b, True))"
  using assms
proof (induction xs arbitrary: a)
  case Nil
  then show ?case by (simp add: nexts_def)
next
  case (Cons x xs)
  then have IH: "loop_res (\<lambda>(cursor, found). \<not> found \<and> cursor \<noteq> Some Head) (bget_find_step dev n s) (b_next (get_buf x s), False) =
    (case List.find (holds_block dev n s) xs of None \<Rightarrow> Inr (Some Head, False) | Some b \<Rightarrow> Inr (Some b, True))" by simp
  have "b_next (get_buf a s) = Some x" "x \<noteq> Head" using Cons.prems by (auto simp: nexts_def)
  then show ?case using IH by (subst loop_res_unfold) (simp add: bget_find_step_def holds_block_def)
qed

lemma recycle_loop:
  assumes "b \<noteq> Head"
  shows "loop_res (\<lambda>(cursor, found). \<not> found \<and> cursor \<noteq> Some Head) (bget_recycle_step s) (Some b, False) =
    (if link_no (get_buf b s) = 0 then Inr (Some b, True) else Inl Diverges)"
proof (cases "link_no (get_buf b s) = 0")
  case True
  then show ?thesis using assms by (subst loop_res_unfold) (simp add: bget_recycle_step_def)
next
  case False
  then have "loop_res (\<lambda>(cursor, found). \<not> found \<and> cursor \<noteq> Some Head) (bget_recycle_step s) (Some b, False) = Inl Diverges"
    by (intro loop_res_diverges [where I = "\<lambda>x. x = (Some b, False)"]) (simp_all add: assms bget_recycle_step_def)
  then show ?thesis using False by simp
qed

lemma find_cong: "(\<And>x. x \<in> set xs \<Longrightarrow> P x = Q x) \<Longrightarrow> List.find P xs = List.find Q xs"
  by (induction xs) auto

text \<open>What \<open>bget\<close> changes in the buffer it recycles.\<close>

definition relabel :: "u32 \<Rightarrow> u32 \<Rightarrow> buf \<Rightarrow> buf" where
  "relabel dev n x = x\<lparr>buf_dev := dev, block_no := n, valid := 0\<rparr>"

lemma bget_eq:
  assumes "ring s xs" "xs \<noteq> []" "id_ok s" "available (cache_lock s) \<noteq> 0"
  shows "bget chan resume dev n s = (let u = (pushed s)\<lparr>cache_lock := \<lparr>available = 0\<rparr>\<rparr> in
    case List.find (holds_block dev n s) xs of
      Some b \<Rightarrow> bget_take chan resume b u
    | None \<Rightarrow> if link_no (get_buf (last xs) s) = 0 then bget_take chan resume (last xs) (set_buf (last xs) (relabel dev n) u) else Inl Diverges)"
proof -
  let ?u = "(pushed s)\<lparr>cache_lock := \<lparr>available = 0\<rparr>\<rparr>"
  have g: "get_buf c ?u = get_buf c s" for c by simp
  have h: "Head \<notin> set xs" "path (nexts ?u) Head xs Head" using assms(1) g by (simp_all add: ring_def nexts_def [abs_def])
  have P: "holds_block dev n ?u = holds_block dev n s" using g by (simp add: holds_block_def fun_eq_iff)
  have "xs = butlast xs @ [last xs]" using assms(2) by simp
  then have "rev xs = last xs # rev (butlast xs)" by (metis rev_eq_Cons_iff rev_rev_ident)
  then have "priors s Head = Some (last xs)" using assms(1) unfolding ring_def by (metis path.simps(2))
  then have "b_prior (cache_head ?u) = Some (last xs)" by (simp add: priors_def)
  moreover have "last xs \<noteq> Head" using h(1) assms(2) last_in_set by metis
  ultimately show ?thesis
    using find_loop [OF h(2,1), of dev n] recycle_loop [of "last xs" ?u] assms(3,4) g P
    by (auto simp: bget_def acquire_eq spinlock_set Let_def relabel_def [abs_def] split: option.splits simp del: set_buf.simps)
qed


section \<open>Taking a buffer\<close>

lemma bget_take_spins:
  assumes "hart_ok s" "cpu_proc (this_cpu s) = Some i" "i < length (procs s)" "available (p_lock (proc_at i s)) \<noteq> 0"
    and "lock_layer (this_cpu s) \<noteq> 0" "holding (get_sllk b s) = 0"
  shows "bget_take chan resume b s = Inl Diverges"
proof -
  let ?s = "set_buf b (\<lambda>x. x\<lparr>link_no := link_no x + 1\<rparr>) s"
  have "acquire_sleep (get_sllk b) (put_sllk b) (chan b) resume ?s = Inl Diverges"
    by (rule buf_lock.acquire_sleep_spins [of _ i]) (use assms in \<open>simp_all add: get_sllk_def\<close>)
  then show ?thesis by (simp add: bget_take_def)
qed

lemma bget_take_held:
  assumes "id_ok s" "available (splk (get_sllk b s)) \<noteq> 0" "holding (get_sllk b s) \<noteq> 0"
  shows "\<exists>t. bget_take chan resume b s = Inr (Some b, t) \<and> cache_lock t = (cache_lock s)\<lparr>available := 1\<rparr> \<and> calm (popped s) t
    \<and> buf_mach.more t = buf_mach.more s
    \<and> (\<forall>c. get_buf c t = (if c = b then (get_buf b s)\<lparr>link_no := link_no (get_buf b s) + 1, sllk := \<lparr>splk = \<lparr>available = 1\<rparr>, holding = 1\<rparr>\<rparr>
         else get_buf c s))"
proof -
  let ?s = "set_buf b (\<lambda>x. x\<lparr>link_no := link_no x + 1\<rparr>) s"
  let ?g = "buf_lock.granted b ?s"
  let ?t = "(popped ?g)\<lparr>cache_lock := (cache_lock s)\<lparr>available := 1\<rparr>\<rparr>"
  have g: "acquire_sleep (get_sllk b) (put_sllk b) (chan b) resume ?s = Inr ?g"
    by (rule buf_lock.acquire_sleep_held) (use assms in \<open>simp_all add: get_sllk_def\<close>)
  have c: "calm ?s ?g" using assms(1) by (intro buf_lock.granted_props) simp
  have G: "get_buf d ?g = (if d = b then (get_buf b s)\<lparr>link_no := link_no (get_buf b s) + 1, sllk := \<lparr>splk = \<lparr>available = 1\<rparr>, holding = 1\<rparr>\<rparr> else get_buf d s)"
    "cache_lock ?g = cache_lock s" "buf_mach.more ?g = buf_mach.more s" for d
    by (simp_all add: buf_lock.granted_def put_splk_def get_sllk_def)
  have "bget_take chan resume b s = Inr (Some b, ?t)"
    using g c assms(1) G(2) by (simp add: bget_take_def release_eq calm_def)
  moreover have "calm (popped s) ?t" using c assms(1) by (simp add: calm_def)
  ultimately show ?thesis using G by (intro exI [of _ ?t]) simp
qed

text \<open>
  A process that may use the cache: it runs on this hart and holds no lock, nobody holds a
  process lock or the lock of the cache. \<open>inner_free\<close>: nor the spin lock inside a sleep lock.
\<close>

definition cache_caller :: "nat \<Rightarrow> 'a buf_mach_scheme \<Rightarrow> bool" where
  "cache_caller i s \<longleftrightarrow> hart_ok s \<and> cpu_proc (this_cpu s) = Some i \<and> wake_ready s \<and> i < 64 \<and> lock_layer (this_cpu s) = 0
     \<and> available (cache_lock s) \<noteq> 0"

definition inner_free :: "bufref list \<Rightarrow> 'a buf_mach_scheme \<Rightarrow> bool" where
  "inner_free xs s \<longleftrightarrow> (\<forall>b \<in> set xs. available (splk (get_sllk b s)) \<noteq> 0)"

lemma find_SomeD: "List.find P xs = Some x \<Longrightarrow> x \<in> set xs \<and> P x"
  by (induction xs) (auto split: if_splits)

lemma bget_pick:
  assumes "ring s xs" "xs \<noteq> []" "cache_caller i s"
  shows "case pick dev n s xs of None \<Rightarrow> bget chan resume dev n s = Inl Diverges
    | Some b \<Rightarrow> valid_ref b \<and> b \<in> set xs \<and> bget chan resume dev n s = bget_take chan resume b
        (set_buf b (if holds_block dev n s b then id else relabel dev n) ((pushed s)\<lparr>cache_lock := \<lparr>available = 0\<rparr>\<rparr>))"
proof -
  have i: "id_ok s" "available (cache_lock s) \<noteq> 0" using assms(3) by (simp_all add: cache_caller_def wake_ready_def)
  have v: "valid_ref b" if "b \<in> set xs" for b using assms(1) that by (simp add: ring_def)
  have l: "last xs \<in> set xs" using assms(2) by simp
  have id: "set_buf b id u = u" for b and u :: "'a buf_mach_scheme" by (cases b) simp_all
  show ?thesis
  proof (cases "List.find (holds_block dev n s) xs")
    case None
    then have "\<not> holds_block dev n s (last xs)" using l by (auto simp: find_None_iff)
    then show ?thesis using None bget_eq [OF assms(1,2) i] v [OF l] l by (simp add: pick_def Let_def)
  next
    case (Some b)
    then show ?thesis using find_SomeD [OF Some] bget_eq [OF assms(1,2) i] v [of b] by (simp add: pick_def Let_def id)
  qed
qed

lemma bget_returns:
  assumes "ring s xs" "xs \<noteq> []" "cache_caller i s" "inner_free xs s" "pick dev n s xs = Some b" "holding (get_sllk b s) \<noteq> 0"
  shows "\<exists>t. bget chan resume dev n s = Inr (Some b, t) \<and> cache_lock t = \<lparr>available = 1\<rparr> \<and> calm s t \<and> buf_mach.more t = buf_mach.more s
    \<and> (\<forall>c. get_buf c t = (if c = b then ((if holds_block dev n s b then id else relabel dev n) (get_buf b s))
         \<lparr>link_no := link_no (get_buf b s) + 1, sllk := \<lparr>splk = \<lparr>available = 1\<rparr>, holding = 1\<rparr>\<rparr> else get_buf c s))"
proof -
  let ?f = "if holds_block dev n s b then id else relabel dev n"
  let ?u = "set_buf b ?f ((pushed s)\<lparr>cache_lock := \<lparr>available = 0\<rparr>\<rparr>)"
  have b: "b \<in> set xs" "bget chan resume dev n s = bget_take chan resume b ?u"
    using bget_pick [OF assms(1-3), where dev = dev and n = n and chan = chan and resume = resume] assms(5) by simp_all
  have i: "id_ok s" using assms(3) by (simp add: cache_caller_def wake_ready_def)
  have f: "sllk (?f x) = sllk x" "link_no (?f x) = link_no x" for x by (simp_all add: relabel_def)
  have "available (splk (get_sllk b s)) \<noteq> 0" using assms(4) b(1) by (simp add: inner_free_def)
  then have l: "available (splk (get_sllk b ?u)) \<noteq> 0" "holding (get_sllk b ?u) \<noteq> 0"
    using assms(6) f [of "get_buf b s"] by (simp_all add: get_sllk_def)
  from bget_take_held [OF _ l, of chan resume] i obtain t where
    t: "bget_take chan resume b ?u = Inr (Some b, t)" "cache_lock t = \<lparr>available = 1\<rparr>" "calm (popped ?u) t" "buf_mach.more t = buf_mach.more s"
      "\<forall>c. get_buf c t = (if c = b then (get_buf b ?u)\<lparr>link_no := link_no (get_buf b ?u) + 1, sllk := \<lparr>splk = \<lparr>available = 1\<rparr>, holding = 1\<rparr>\<rparr>
         else get_buf c ?u)" by auto
  have "calm s t" using t(3) i by (simp add: calm_def)
  then show ?thesis using b(2) t f(2) by (intro exI [of _ t]) simp
qed

text \<open>Changes that do not touch the links keep the ring.\<close>

lemma ring_cong:
  assumes "\<And>c. b_next (get_buf c t) = b_next (get_buf c s)" "\<And>c. b_prior (get_buf c t) = b_prior (get_buf c s)"
  shows "ring t xs = ring s xs"
proof -
  have "nexts t = nexts s" "priors t = priors s" using assms by (simp_all add: nexts_def priors_def fun_eq_iff)
  then show ?thesis by (simp add: ring_def)
qed

lemma bget_spins:
  assumes "ring s xs" "xs \<noteq> []" "cache_caller i s"
    and "case pick dev n s xs of None \<Rightarrow> True | Some b \<Rightarrow> holding (get_sllk b s) = 0"
  shows "bget chan resume dev n s = Inl Diverges"
proof (cases "pick dev n s xs")
  case None
  then show ?thesis using bget_pick [OF assms(1-3), where dev = dev and n = n and chan = chan and resume = resume] by simp
next
  case (Some b)
  let ?f = "if holds_block dev n s b then id else relabel dev n"
  let ?u = "set_buf b ?f ((pushed s)\<lparr>cache_lock := \<lparr>available = 0\<rparr>\<rparr>)"
  have b: "bget chan resume dev n s = bget_take chan resume b ?u"
    using bget_pick [OF assms(1-3), where dev = dev and n = n and chan = chan and resume = resume] Some by simp
  have c: "hart_ok s" "cpu_proc (this_cpu s) = Some i" "i < length (procs s)" "available (p_lock (proc_at i s)) \<noteq> 0" "id_ok s"
    "lock_layer (this_cpu s) = 0"
    using assms(3) by (auto simp: cache_caller_def wake_ready_def proc_at_def)
  have "sllk (?f x) = sllk x" for x by (simp add: relabel_def)
  then have "holding (get_sllk b ?u) = 0" using assms(4) Some by (simp add: get_sllk_def)
  then have "bget_take chan resume b ?u = Inl Diverges"
    by (intro bget_take_spins [of _ i]) (use c in simp_all)
  then show ?thesis using b by simp
qed

text \<open>
  C9: what \<open>bget\<close> does on a well-formed cache. It picks the buffer that holds the block or, failing
  that, the last one of the ring if nobody uses it, which it relabels and marks as not valid.
  If there is none to pick, or if the sleep lock of the one it picks is free, it never returns.
  If that sleep lock is taken it returns the buffer at once, with one more reference, changes
  no other buffer and keeps the ring.
\<close>

theorem bget_outcome:
  assumes "ring s xs" "xs \<noteq> []" "cache_caller i s" "inner_free xs s"
  shows "case pick dev n s xs of
      None \<Rightarrow> bget chan resume dev n s = Inl Diverges
    | Some b \<Rightarrow> if holding (get_sllk b s) = 0 then bget chan resume dev n s = Inl Diverges
        else \<exists>t. bget chan resume dev n s = Inr (Some b, t) \<and> holds_block dev n t b \<and> link_no (get_buf b t) = link_no (get_buf b s) + 1
          \<and> valid (get_buf b t) = (if holds_block dev n s b then valid (get_buf b s) else 0)
          \<and> (\<forall>c. c \<noteq> b \<longrightarrow> get_buf c t = get_buf c s) \<and> ring t xs \<and> cache_caller i t \<and> inner_free xs t"
proof (cases "pick dev n s xs")
  case None
  then show ?thesis using bget_spins [OF assms(1-3), of dev n chan resume] by simp
next
  case (Some b)
  show ?thesis
  proof (cases "holding (get_sllk b s) = 0")
    case True
    then show ?thesis using bget_spins [OF assms(1-3), of dev n chan resume] Some by simp
  next
    case False
    from bget_returns [OF assms Some False, of chan resume] obtain t where
      t: "bget chan resume dev n s = Inr (Some b, t)" "cache_lock t = \<lparr>available = 1\<rparr>" "calm s t"
        "\<And>c. get_buf c t = (if c = b then ((if holds_block dev n s b then id else relabel dev n) (get_buf b s))
         \<lparr>link_no := link_no (get_buf b s) + 1, sllk := \<lparr>splk = \<lparr>available = 1\<rparr>, holding = 1\<rparr>\<rparr> else get_buf c s)" by auto
    have "ring t xs" using ring_cong [of t s xs] t(4) assms(1) by (simp add: relabel_def)
    moreover have "cache_caller i t"
      using assms(3) t(2,3,4) calm_ready [OF t(3)] by (simp add: cache_caller_def calm_def)
    moreover have "inner_free xs t" using assms(4) t(4) by (simp add: inner_free_def get_sllk_def)
    moreover have "holds_block dev n t b" using t(4) by (auto simp: holds_block_def relabel_def)
    ultimately show ?thesis using Some False t(1,4) by (auto simp: relabel_def intro!: exI [of _ t])
  qed
qed

section \<open>Reading a block\<close>

lemma binit_frame:
  "reg (binit s) = reg s" "gpr (binit s) = gpr s" "cpus (binit s) = cpus s" "procs (binit s) = procs s"
  using binit_state(2) [of s] by (simp_all add: mach.truncate_def)

lemma binit_caller:
  assumes "hart_ok s" "cpu_proc (this_cpu s) = Some i" "wake_ready s" "i < 64" "lock_layer (this_cpu s) = 0"
  shows "cache_caller i (binit s)"
proof -
  have "calm s (binit s)" by (rule calm_truncate) (rule binit_state)
  then show ?thesis
    using assms calm_ready [of s "binit s"] by (simp add: cache_caller_def calm_def binit_state spinlock_init_def)
qed

text \<open>
  C31: after \<open>binit\<close>, with the statically zeroed sleep lock of the last buffer, no block can be read:
  \<open>bread\<close> never returns, for any device and block, whatever the disk and the rest of the system do. The
  buffer that \<open>bget\<close> picks has a free sleep lock, and \<open>acquire_sleep\<close> waits for it to be taken, with
  the lock of the cache held.
\<close>

theorem bread_after_binit_hangs:
  assumes "hart_ok s" "cpu_proc (this_cpu s) = Some i" "wake_ready s" "i < 64" "lock_layer (this_cpu s) = 0"
    and "holding (get_sllk (Buf 29) s) = 0"
  shows "bread P B chan resume dev n (binit s) = Inl Diverges"
proof -
  let ?xs = "map Buf [0..<30]"
  have "holding (get_sllk b (binit s)) = 0" if "b \<in> set ?xs" for b
  proof -
    from that obtain j where j: "b = Buf j" "j < 30" by auto
    then have "j < 29 \<or> j = 29" by linarith
    with j show ?thesis using assms(6) by (auto simp: get_sllk_def binit_state simp del: get_buf.simps)
  qed
  moreover have "b \<in> set ?xs" if "pick dev n (binit s) ?xs = Some b" for b
    using bget_pick [OF binit_builds _ binit_caller [OF assms(1-5)], where dev = dev and n = n] that by (auto simp del: upt_Suc)
  ultimately have "case pick dev n (binit s) ?xs of None \<Rightarrow> True | Some b \<Rightarrow> holding (get_sllk b (binit s)) = 0"
    by (auto split: option.splits simp del: upt_Suc)
  then have "bget chan resume dev n (binit s) = Inl Diverges"
    by (intro bget_spins [OF binit_builds _ binit_caller [OF assms(1-5)]]) (simp_all del: upt_Suc)
  then show ?thesis by (simp add: bread_def)
qed

theorem bread_after_binit_hangs_witness:
  "bread demo_virtio demo_ports (\<lambda>_. 0x80105000) Inr 1 7 (binit demo_system) = Inl Diverges"
proof (rule bread_after_binit_hangs [where i = 0])
  show "hart_ok demo_system" "cpu_proc (this_cpu demo_system) = Some 0" "wake_ready demo_system" "lock_layer (this_cpu demo_system) = 0"
    using demo_call_ok(1,3) by (simp_all add: may_call_def)
  show "holding (get_sllk (Buf 29) demo_system) = 0" by (simp add: get_sllk_def demo_system_def mach.defs demo_buf_def)
qed simp

lemma bread_hit:
  assumes "ring s xs" "xs \<noteq> []" "cache_caller p s" "inner_free xs s" "pick dev n s xs = Some b" "holding (get_sllk b s) \<noteq> 0"
    and hit: "holds_block dev n s b" "valid (get_buf b s) \<noteq> 0"
  shows "\<exists>t. bread P B chan resume dev n s = Inr (b, t) \<and> disk t = disk s \<and> buf_data (get_buf b t) = buf_data (get_buf b s)
    \<and> link_no (get_buf b t) = link_no (get_buf b s) + 1 \<and> (\<forall>c. c \<noteq> b \<longrightarrow> get_buf c t = get_buf c s)"
proof -
  from bget_returns [OF assms(1-6), of chan resume] hit(1) obtain u where
    u: "bget chan resume dev n s = Inr (Some b, u)" "buf_mach.more u = buf_mach.more s"
      "\<forall>c. get_buf c u = (if c = b then (get_buf b s)
         \<lparr>link_no := link_no (get_buf b s) + 1, sllk := \<lparr>splk = \<lparr>available = 1\<rparr>, holding = 1\<rparr>\<rparr> else get_buf c s)" by auto
  have "bread P B chan resume dev n s = Inr (b, u)" using u(1,3) hit(2) by (simp add: bread_def)
  then show ?thesis using u(3) disk_buf_more [OF u(2)] by (intro exI [of _ u]) simp
qed

lemma bread_miss:
  assumes "ring s xs" "xs \<noteq> []" "cache_caller p s" "inner_free xs s" "pick dev n s xs = Some b" "holding (get_sllk b s) \<noteq> 0"
    and miss: "\<not> (holds_block dev n s b \<and> valid (get_buf b s) \<noteq> 0)"
    and disk: "vd_ok P (disk s)" "flags_ok P" "available (vdisk_lock (disk s)) \<noteq> 0" "3 \<le> card (free_set (disk s))"
  shows "\<exists>i j k t. bread P B chan resume dev n s
        = then_res (then_res (resume t) (rw_rest P resume b p i)) (\<lambda>s. Inr (b, set_buf b (valid_update (\<lambda>_. 1)) s))
      \<and> posted P b False (ucast (n * (block_bytes P div 512))) i j k t \<and> holds_block dev n t b \<and> valid (get_buf b t) = 0
      \<and> {i, j, k} \<subseteq> free_set (disk s) \<and> free_set (disk t) = free_set (disk s) - {i, j, k}
      \<and> state (proc_at p t) = SLEEPING \<and> channel (proc_at p t) = buf_addr P b \<and> (\<forall>c. c \<noteq> b \<longrightarrow> get_buf c t = get_buf c s)"
proof -
  have v: "valid_ref b"
    using bget_pick [OF assms(1-3), where dev = dev and n = n] assms(5) by simp
  from bget_returns [OF assms(1-6), of chan resume] obtain u where
    u: "bget chan resume dev n s = Inr (Some b, u)" "calm s u" "buf_mach.more u = buf_mach.more s"
      "\<And>c. get_buf c u = (if c = b then ((if holds_block dev n s b then id else relabel dev n) (get_buf b s))
         \<lparr>link_no := link_no (get_buf b s) + 1, sllk := \<lparr>splk = \<lparr>available = 1\<rparr>, holding = 1\<rparr>\<rparr> else get_buf c s)" by auto
  have d: "disk u = disk s" using u(3) by (rule disk_buf_more)
  have b: "block_no (get_buf b u) = n" "buf_dev (get_buf b u) = dev" "valid (get_buf b u) = 0"
    using u(4) miss by (auto simp: holds_block_def relabel_def)
  have c: "may_call u" "cpu_proc (this_cpu u) = Some p" "p < 64"
    using assms(3) disk(3) u(2) calm_ready [OF u(2)] by (simp_all add: may_call_def cache_caller_def calm_def d)
  have "vd_ok P (disk u)" "3 \<le> card (free_set (disk u))" using disk(1,4) by (simp_all add: d)
  from rw_switch [OF this(1) disk(2) v c(1) this(2) c(2,3), of B resume False] obtain i j k t where
    t: "virtio_disk_rw P B resume b False u = then_res (resume t) (rw_rest P resume b p i)"
      "posted P b False (sector_of P (get_buf b u)) i j k t" "{i, j, k} \<subseteq> free_set (disk s)"
      "free_set (disk t) = free_set (disk s) - {i, j, k}" "get_buf b t = (get_buf b u)\<lparr>handled2disk := 1\<rparr>" "rw_switched P b p u t"
    unfolding d by (elim exE conjE) (rule that)
  have "bread P B chan resume dev n s
      = then_res (then_res (resume t) (rw_rest P resume b p i)) (\<lambda>s. Inr (b, set_buf b (valid_update (\<lambda>_. 1)) s))"
    using u(1) b(3) t(1) by (simp add: bread_def)
  then show ?thesis using t(2-6) b u(4)
    by (intro exI [of _ i] exI [of _ j] exI [of _ k] exI [of _ t]) (simp add: holds_block_def sector_of_def rw_switched_def)
qed

text \<open>
  C7: what \<open>bread\<close> does on a well-formed cache, case by case. If \<open>bget\<close> finds no buffer to use, or
  picks one whose sleep lock is free, the call never returns. If the sleep lock of the buffer it
  picks is taken, and that is the only case in which the call gets any further: a buffer that holds
  the block and is valid is returned with one more reference, its data as they were and the disk
  left alone. A buffer that does not is labelled with the device and the block, a read request for
  the block's sector is posted on three free descriptors, and the caller sleeps on the buffer's channel
  with the buffer still marked as not valid; it is marked valid, and returned, only once
  \<open>virtio_disk_rw\<close> gets through the rest of the request after the process is switched back to.
\<close>

theorem bread_outcome:
  assumes "ring s xs" "xs \<noteq> []" "cache_caller p s" "inner_free xs s"
    and "vd_ok P (disk s)" "flags_ok P" "available (vdisk_lock (disk s)) \<noteq> 0" "3 \<le> card (free_set (disk s))"
  shows "case pick dev n s xs of
      None \<Rightarrow> bread P B chan resume dev n s = Inl Diverges
    | Some b \<Rightarrow>
        if holding (get_sllk b s) = 0 then bread P B chan resume dev n s = Inl Diverges
        else if holds_block dev n s b \<and> valid (get_buf b s) \<noteq> 0
        then \<exists>t. bread P B chan resume dev n s = Inr (b, t) \<and> disk t = disk s \<and> buf_data (get_buf b t) = buf_data (get_buf b s)
          \<and> link_no (get_buf b t) = link_no (get_buf b s) + 1 \<and> (\<forall>c. c \<noteq> b \<longrightarrow> get_buf c t = get_buf c s)
        else \<exists>i j k t. bread P B chan resume dev n s
            = then_res (then_res (resume t) (rw_rest P resume b p i)) (\<lambda>s. Inr (b, set_buf b (valid_update (\<lambda>_. 1)) s))
          \<and> posted P b False (ucast (n * (block_bytes P div 512))) i j k t \<and> holds_block dev n t b \<and> valid (get_buf b t) = 0
          \<and> {i, j, k} \<subseteq> free_set (disk s) \<and> free_set (disk t) = free_set (disk s) - {i, j, k}
          \<and> state (proc_at p t) = SLEEPING \<and> channel (proc_at p t) = buf_addr P b \<and> (\<forall>c. c \<noteq> b \<longrightarrow> get_buf c t = get_buf c s)"
proof (cases "pick dev n s xs")
  case None
  then show ?thesis using bget_spins [OF assms(1-3), of dev n chan resume] by (simp add: bread_def)
next
  case (Some b)
  show ?thesis
  proof (cases "holding (get_sllk b s) = 0")
    case True
    then show ?thesis using bget_spins [OF assms(1-3), of dev n chan resume] Some by (simp add: bread_def)
  next
    case False
    show ?thesis
    proof (cases "holds_block dev n s b \<and> valid (get_buf b s) \<noteq> 0")
      case True
      then show ?thesis unfolding Some option.case if_not_P [OF False] if_P [OF True]
        by (intro bread_hit [OF assms(1-4) Some False]) simp_all
    next
      case miss: False
      show ?thesis unfolding Some option.case if_not_P [OF False] if_not_P [OF miss]
        by (rule bread_miss [OF assms(1-4) Some False miss assms(5-8)])
    qed
  qed
qed

text \<open>A cache whose last buffer is in use by somebody.\<close>

definition demo_cache :: "unit disk_mach" where
  "demo_cache = put_sllk (Buf 29) \<lparr>splk = \<lparr>available = 1\<rparr>, holding = 1\<rparr> (binit demo_system)"

lemma demo_cache_ok:
  "ring demo_cache (map Buf [0..<30])" "cache_caller 0 demo_cache" "inner_free (map Buf [0..<30]) demo_cache"
  "pick 1 7 demo_cache (map Buf [0..<30]) = Some (Buf 29)" "disk demo_cache = demo_disk"
  "get_sllk (Buf 29) demo_cache = \<lparr>splk = \<lparr>available = 1\<rparr>, holding = 1\<rparr>" "\<not> holds_block 1 7 demo_cache (Buf 29)"
proof -
  have g: "get_buf (Buf j) demo_system = demo_buf" for j by (simp add: demo_system_def mach.defs)
  show "ring demo_cache (map Buf [0..<30])"
    using ring_cong [of demo_cache "binit demo_system"] binit_builds [of demo_system] by (simp add: demo_cache_def del: upt_Suc)
  have "cache_caller 0 (binit demo_system)"
    by (rule binit_caller) (use demo_call_ok(1,3) in \<open>simp_all add: may_call_def\<close>)
  moreover have "calm (binit demo_system) demo_cache" by (rule calm_truncate) (simp add: demo_cache_def)
  ultimately show "cache_caller 0 demo_cache"
    using calm_ready [of "binit demo_system" demo_cache] by (simp add: cache_caller_def calm_def) (simp add: demo_cache_def)
  show "inner_free (map Buf [0..<30]) demo_cache"
    by (auto simp: inner_free_def demo_cache_def get_sllk_def binit_state g demo_buf_def simp del: get_buf.simps)
  have h: "buf_dev (get_buf (Buf j) demo_cache) = 0" "link_no (get_buf (Buf j) demo_cache) = 0" if "j < 30" for j
    using that by (simp_all add: demo_cache_def binit_state g demo_buf_def del: get_buf.simps)
  then show "\<not> holds_block 1 7 demo_cache (Buf 29)" by (simp add: holds_block_def del: get_buf.simps)
  have "List.find (holds_block 1 7 demo_cache) (map Buf [0..<30]) = None"
    using h(1) by (auto simp: find_None_iff holds_block_def simp del: get_buf.simps)
  moreover have "last (map Buf [0..<30]) = Buf 29" by (simp add: last_map)
  ultimately show "pick 1 7 demo_cache (map Buf [0..<30]) = Some (Buf 29)"
    using h(2) [of 29] by (simp add: pick_def del: get_buf.simps upt_Suc)
  have "disk demo_cache = disk demo_system" by (rule disk_buf_more) (simp add: demo_cache_def binit_state)
  then show "disk demo_cache = demo_disk" using demo_system_ok(1) by simp
  show "get_sllk (Buf 29) demo_cache = \<lparr>splk = \<lparr>available = 1\<rparr>, holding = 1\<rparr>" by (simp add: demo_cache_def get_sllk_def del: get_buf.simps)
qed

theorem bread_outcome_witness:
  "\<exists>i j k t. bread demo_virtio demo_ports (\<lambda>_. 0x80105000) Inr 1 7 demo_cache
      = then_res (rw_rest demo_virtio Inr (Buf 29) 0 i t) (\<lambda>s. Inr (Buf 29, set_buf (Buf 29) (valid_update (\<lambda>_. 1)) s))
    \<and> posted demo_virtio (Buf 29) False 14 i j k t \<and> holds_block 1 7 t (Buf 29) \<and> state (proc_at 0 t) = SLEEPING"
proof -
  have d: "vd_ok demo_virtio (disk demo_cache)" "available (vdisk_lock (disk demo_cache)) \<noteq> 0" "3 \<le> card (free_set (disk demo_cache))"
    by (simp_all add: demo_cache_ok demo_system_ok) (simp add: demo_disk_def)
  have "(7 :: u32) * (block_bytes demo_virtio div 512) = 14" by (simp add: demo_virtio_def)
  then show ?thesis
    using bread_outcome [OF demo_cache_ok(1) _ demo_cache_ok(2,3) d(1) demo_call_ok(2) d(2,3), where dev = 1 and n = 7
        and chan = "\<lambda>_. 0x80105000" and resume = Inr and B = demo_ports] demo_cache_ok(4,6,7)
    by (simp del: get_buf.simps set_buf.simps upt_Suc) blast
qed

theorem bget_outcome_witness:
  "\<exists>t. bget (\<lambda>_. 0x80105000) Inr 1 7 demo_cache = Inr (Some (Buf 29), t) \<and> holds_block 1 7 t (Buf 29)
    \<and> valid (get_buf (Buf 29) t) = 0 \<and> ring t (map Buf [0..<30])"
  using bget_outcome [OF demo_cache_ok(1) _ demo_cache_ok(2,3), where dev = 1 and n = 7 and chan = "\<lambda>_. 0x80105000"
      and resume = Inr] demo_cache_ok(4,6,7)
  by (auto simp del: get_buf.simps upt_Suc)

section \<open>Giving a buffer back\<close>

lemma path_first: "path f a xs e \<Longrightarrow> f a = Some (hd (xs @ [e]))"
  by (cases xs) simp_all

text \<open>Taking an element out of a path, and putting one at its front.\<close>

lemma path_unlink:
  assumes "path f a (ys @ b # zs) e" "distinct (a # ys @ b # zs)"
  shows "path (f(last (a # ys) := Some (hd (zs @ [e])))) a (ys @ zs) e"
  using assms
proof (induction ys arbitrary: a)
  case Nil
  show ?case
  proof (cases zs)
    case (Cons z zs')
    then have "path f z zs' e" using Nil by simp
    then have "path (f(a := Some z)) z zs' e" using Nil(2) Cons by (subst path_cong [of _ _ _ f]) auto
    with Cons show ?thesis by (simp add: fun_upd_def)
  qed simp
next
  case (Cons y ys)
  have "path f y (ys @ b # zs) e" "distinct (y # ys @ b # zs)" "f a = Some y" using Cons.prems by simp_all
  from Cons.IH [OF this(1,2)] this(3)
  have "path (f(last (y # ys) := Some (hd (zs @ [e])))) y (ys @ zs) e" "f a = Some y" by blast+
  moreover have "last (y # ys) \<noteq> a" using Cons.prems(2) last_in_set [of "y # ys"] by auto
  ultimately show ?case by (simp del: last.simps add: last_ConsR fun_upd_def)
qed

lemma path_push:
  assumes "path f a xs e" "b \<notin> set xs" "a \<notin> set xs" "a \<noteq> b"
  shows "path (f(b := f a, a := Some b)) a (b # xs) e"
proof (cases xs)
  case (Cons x xs')
  then have "path (f(b := f a, a := Some b)) x xs' e = path f x xs' e" using assms by (intro path_cong) auto
  then show ?thesis using assms Cons by simp
qed (use assms in simp)

text \<open>A buffer without its links.\<close>

definition unlinked :: "buf \<Rightarrow> buf" where
  "unlinked x = x\<lparr>b_prior := None, b_next := None\<rparr>"

lemma unlinked_simps: "unlinked (b_next_update f x) = unlinked x" "unlinked (b_prior_update f x) = unlinked x"
  by (cases x; simp add: unlinked_def)+

lemma unlinked_eq: "unlinked x = unlinked y \<Longrightarrow> link_no x = link_no y \<and> sllk x = sllk y \<and> buf_dev x = buf_dev y \<and> block_no x = block_no y
    \<and> valid x = valid y \<and> buf_data x = buf_data y"
  by (cases x; cases y) (simp add: unlinked_def)

lemma unlinked_set_buf:
  assumes "\<And>x. unlinked (f x) = unlinked x"
  shows "unlinked (get_buf c (set_buf b f s)) = unlinked (get_buf c s)"
  by (simp add: assms)

lemma move_front_links:
  assumes "ring s xs" "b \<in> set xs"
  shows "\<exists>t. move_front b s = Inr t \<and> path (nexts t) Head (b # remove1 b xs) Head \<and> path (priors t) Head (rev (remove1 b xs)) Head
    \<and> mach.truncate t = mach.truncate s \<and> cache_lock t = cache_lock s \<and> buf_mach.more t = buf_mach.more s
    \<and> (\<forall>c. unlinked (get_buf c t) = unlinked (get_buf c s))"
proof -
  from assms(2) obtain ys zs where xs: "xs = ys @ b # zs" by (meson split_list)
  let ?p = "last (Head # ys)" let ?n = "hd (zs @ [Head])"
  have r: "distinct xs" "Head \<notin> set xs" "path (nexts s) Head xs Head" "path (priors s) Head (rev xs) Head" using assms(1) by (simp_all add: ring_def)
  have rem: "remove1 b xs = ys @ zs" using r(1) xs by (simp add: remove1_append)
  have rx: "rev xs = rev zs @ b # rev ys" using xs by simp
  have pn: "last (Head # rev zs) = ?n" "hd (rev ys @ [Head]) = ?p" by (cases zs, simp_all) (cases ys rule: rev_cases, simp_all)
  have d: "distinct (Head # rev zs @ b # rev ys)" using r(1,2) xs by auto
  have ne: "b \<noteq> Head" using assms(2) r(2) by blast
  have p: "b_prior (get_buf b s) = Some ?p"
    using path_first [of "priors s" b "rev ys" Head] r(4) rx pn(2) by (simp add: path_append priors_def)
  have n: "b_next (get_buf b s) = Some ?n"
    using path_first [of "nexts s" b zs Head] r(3) xs by (simp add: path_append nexts_def)
  have pb: "?p \<noteq> b" using r(1) ne xs last_in_set [of "Head # ys"] by auto
  have nb: "?n \<noteq> b" using r(1) ne xs by (cases zs) auto
  let ?f = "(nexts s)(?p := Some ?n)"
  define t where "t = set_buf Head (b_next_update (\<lambda>_. Some b)) (set_buf b (b_prior_update (\<lambda>_. Some Head)) (set_buf b
     (b_next_update (\<lambda>_. ?f Head)) (set_buf ?n (b_prior_update (\<lambda>_. Some ?p)) (set_buf ?p (b_next_update (\<lambda>_. Some ?n)) s))))"
  have run: "move_front b s = Inr t"
    using p n pb nb ne by (auto simp: move_front_def t_def Let_def nexts_def simp del: set_buf.simps get_buf.simps)
  have links: "nexts t = ?f(b := ?f Head, Head := Some b)" "priors t = (priors s)(?n := Some ?p, b := Some Head)"
    using pb nb ne by (auto simp: fun_eq_iff nexts_def priors_def t_def simp del: set_buf.simps get_buf.simps)
  have "path ?f Head (ys @ zs) Head" by (rule path_unlink) (use r xs in auto)
  then have 1: "path (nexts t) Head (b # remove1 b xs) Head" unfolding links rem by (rule path_push) (use r xs ne in auto)
  have "path ((priors s)(?n := Some ?p)) Head (rev zs @ rev ys) Head"
    using path_unlink [OF r(4) [unfolded rx] d] unfolding pn .
  moreover have "path (priors t) Head (rev zs @ rev ys) Head = path ((priors s)(?n := Some ?p)) Head (rev zs @ rev ys) Head"
    unfolding links by (rule path_cong) (use r(1) xs ne in auto)
  ultimately have 2: "path (priors t) Head (rev (remove1 b xs)) Head" by (simp add: rem)
  have "unlinked (get_buf c t) = unlinked (get_buf c s)" for c
    unfolding t_def by (simp add: unlinked_set_buf unlinked_simps del: set_buf.simps get_buf.simps get_set_buf)
  with run 1 2 show ?thesis by (intro exI [of _ t]) (simp add: t_def del: set_buf.simps get_buf.simps get_set_buf)
qed

text \<open>Giving up the sleep lock of a buffer.\<close>

lemma release_buf:
  assumes "wake_ready s" "available (splk (get_sllk b s)) \<noteq> 0"
  shows "\<exists>r. release_sleep (get_sllk b) (put_sllk b) a s = Inr r \<and> id_ok r \<and> cache_lock r = cache_lock s
    \<and> (\<forall>c. get_buf c r = (if c = b then (get_buf b s)\<lparr>sllk := \<lparr>splk = \<lparr>available = 1\<rparr>, holding = 0\<rparr>\<rparr> else get_buf c s))"
proof -
  from buf_lock.release_sleep_eq [OF assms, of a] obtain w where
    w: "release_sleep (get_sllk b) (put_sllk b) a s = Inr (put_splk (get_sllk b) (put_sllk b) \<lparr>available = 1\<rparr> (popped w))" "calm (pushed s) w"
      "mach.more w = mach.more (put_sllk b \<lparr>splk = \<lparr>available = 0\<rparr>, holding = 0\<rparr> (put_splk (get_sllk b) (put_sllk b) \<lparr>available = 0\<rparr> (pushed s)))"
    by blast
  let ?l = "\<lparr>splk = \<lparr>available = 1\<rparr>, holding = 0\<rparr>"
  let ?r = "put_splk (get_sllk b) (put_sllk b) \<lparr>available = 1\<rparr> (popped w)"
  have i: "id_ok s" using assms(1) by (simp add: wake_ready_def)
  then have ir: "id_ok ?r" using w(2) by (simp add: put_splk_def buf_lock.put_derived calm_def)
  have gw: "get_buf c w = (if c = b then (get_buf b s)\<lparr>sllk := \<lparr>splk = \<lparr>available = 0\<rparr>, holding = 0\<rparr>\<rparr> else get_buf c s)" for c
    using buf_more(6) [OF w(3), of c] by (simp add: put_splk_def)
  have r: "get_buf c ?r = (if c = b then (get_buf b s)\<lparr>sllk := ?l\<rparr> else get_buf c s)" "cache_lock ?r = cache_lock s" for c
    using gw buf_more(5) [OF w(3)] by (simp_all add: put_splk_def get_sllk_def)
  show ?thesis using w(1) ir r by (intro exI [of _ ?r]) simp
qed

text \<open>
  C29: what \<open>brelease\<close> does with a buffer of a well-formed cache. It frees the sleep lock and drops one
  reference. If that was the last one, the path along \<open>next\<close> has the buffer at the front and the
  others in their old order, but the path along \<open>prior\<close>, which \<open>bget\<close> uses to find a buffer to
  recycle, no longer visits the buffer at all. Otherwise the ring stays as it was. Nothing else of
  any buffer changes, and the lock of the cache is free again.
\<close>

theorem brelease_outcome:
  assumes "ring s xs" "b \<in> set xs" "wake_ready s" "available (cache_lock s) \<noteq> 0" "available (splk (get_sllk b s)) \<noteq> 0"
  shows "\<exists>t. brelease chan b s = Inr t \<and> get_sllk b t = \<lparr>splk = \<lparr>available = 1\<rparr>, holding = 0\<rparr>
    \<and> link_no (get_buf b t) = link_no (get_buf b s) - 1 \<and> cache_lock t = \<lparr>available = 1\<rparr>
    \<and> (\<forall>c. c \<noteq> b \<longrightarrow> unlinked (get_buf c t) = unlinked (get_buf c s))
    \<and> (if link_no (get_buf b s) = 1
       then path (nexts t) Head (b # remove1 b xs) Head \<and> path (priors t) Head (rev (remove1 b xs)) Head
       else ring t xs)"
proof -
  let ?l = "\<lparr>splk = \<lparr>available = 1\<rparr>, holding = 0\<rparr>"
  from release_buf [OF assms(3,5), of "chan b"] obtain r where
    w: "release_sleep (get_sllk b) (put_sllk b) (chan b) s = Inr r" and ir: "id_ok r"
      and r: "\<And>c. get_buf c r = (if c = b then (get_buf b s)\<lparr>sllk := ?l\<rparr> else get_buf c s)" "cache_lock r = cache_lock s" by blast
  let ?u = "set_buf b (\<lambda>x. x\<lparr>link_no := link_no x - 1\<rparr>) ((pushed r)\<lparr>cache_lock := \<lparr>available = 0\<rparr>\<rparr>)"
  have u: "get_buf c ?u = (if c = b then (get_buf b s)\<lparr>sllk := ?l, link_no := link_no (get_buf b s) - 1\<rparr> else get_buf c s)" "id_ok ?u" for c
    using r(1) ir by simp_all
  have ru: "ring ?u xs" using ring_cong [of ?u s xs] u(1) assms(1) by simp
  obtain v where v: "(if link_no (get_buf b ?u) = 0 then move_front b ?u else Inr ?u) = Inr v" "cache_lock v = \<lparr>available = 0\<rparr>" "id_ok v"
    "\<And>c. unlinked (get_buf c v) = unlinked (get_buf c ?u)"
    "if link_no (get_buf b ?u) = 0 then path (nexts v) Head (b # remove1 b xs) Head \<and> path (priors v) Head (rev (remove1 b xs)) Head
       else ring v xs"
  proof (cases "link_no (get_buf b ?u) = 0")
    case True
    from move_front_links [OF ru assms(2)] obtain v where
      "move_front b ?u = Inr v" "path (nexts v) Head (b # remove1 b xs) Head" "path (priors v) Head (rev (remove1 b xs)) Head"
      "mach.truncate v = mach.truncate ?u" "cache_lock v = cache_lock ?u" "\<forall>c. unlinked (get_buf c v) = unlinked (get_buf c ?u)" by blast
    moreover from this(4) have "id_ok v" using calm_truncate [of v ?u] u(2) by (simp add: calm_def)
    ultimately show ?thesis using True by (intro that [of v]) simp_all
  next
    case False
    then show ?thesis using ru u(2) by (intro that [of ?u]) simp_all
  qed
  let ?t = "(popped v)\<lparr>cache_lock := \<lparr>available = 1\<rparr>\<rparr>"
  have t: "get_buf c ?t = get_buf c v" "nexts ?t = nexts v" "priors ?t = priors v" for c by (simp_all add: nexts_def [abs_def] priors_def [abs_def])
  have "brelease chan b s = Inr ?t"
    using w ir r(2) assms(4) v(1-3) by (simp add: brelease_def acquire_eq release_eq spinlock_set Let_def)
  moreover have "link_no (get_buf b ?u) = 0 \<longleftrightarrow> link_no (get_buf b s) = 1" unfolding u(1) by simp
  moreover have "ring ?t xs = ring v xs" by (simp add: ring_def t)
  moreover have "get_sllk b ?t = ?l" "link_no (get_buf b ?t) = link_no (get_buf b s) - 1"
    using unlinked_eq [OF v(4) [of b, unfolded u(1)]] by (simp_all add: get_sllk_def)
  moreover have "unlinked (get_buf c ?t) = unlinked (get_buf c s)" if "c \<noteq> b" for c using v(4) [of c, unfolded u(1)] that by simp
  ultimately show ?thesis using v(5) t by (intro exI [of _ ?t]) (simp del: path.simps)
qed

text \<open>The last buffer, given back by its only user.\<close>

theorem brelease_outcome_witness:
  "\<exists>t. brelease (\<lambda>_. 0x80105000) (Buf 29) (set_buf (Buf 29) (link_no_update (\<lambda>_. 1)) demo_cache) = Inr t \<and> holding (get_sllk (Buf 29) t) = 0
    \<and> path (nexts t) Head (Buf 29 # remove1 (Buf 29) (map Buf [0..<30])) Head
    \<and> path (priors t) Head (rev (remove1 (Buf 29) (map Buf [0..<30]))) Head"
proof -
  let ?s = "set_buf (Buf 29) (link_no_update (\<lambda>_. 1)) demo_cache"
  have "ring ?s (map Buf [0..<30])"
    using ring_cong [of ?s demo_cache] demo_cache_ok(1) by (simp del: set_buf.simps get_buf.simps upt_Suc)
  moreover have "Buf 29 \<in> set (map Buf [0..<30])" "wake_ready ?s" "available (cache_lock ?s) \<noteq> 0"
    using demo_cache_ok(2) by (simp_all add: cache_caller_def wake_ready_def del: set_buf.simps)
  moreover have "available (splk (get_sllk (Buf 29) ?s)) \<noteq> 0" "link_no (get_buf (Buf 29) ?s) = 1"
    using demo_cache_ok(6) by (simp_all add: get_sllk_def del: set_buf.simps get_buf.simps)
  ultimately show ?thesis
    using brelease_outcome [of ?s "map Buf [0..<30]" "Buf 29" "\<lambda>_. 0x80105000"]
    by (auto simp del: set_buf.simps get_buf.simps upt_Suc)
qed

end
