(* ===== verification/Virtio_Init.thy ===== *)
theory Virtio_Init
  imports Virtio_Queue
begin

text \<open>
  Setting the device up: \<open>virtio_disk_init\<close> checks what the device says of itself, agrees with it on
  features, takes three pages from the allocator and marks all descriptors free.

  The device is hardware; \<open>mmio_device\<close> states what the virtio specification says of the registers the
  driver uses. Its state is seen through the status register, the driver's features, the selected
  queue, the ready register of queue 0, and whether both feature selectors are 0, as power-on leaves
  them (the driver never writes them); the other state is free. The registers that identify the
  device always read the same, its features do while the selector is 0, and the size of queue 0 does
  while that queue is selected. The status register reads back what is stored, the ready register
  that of queue 0 while it is selected. Writing 0 to the status register resets the device, after
  which queue 0 is not ready; any other value is stored, without \<open>FEATURES_OK\<close> if the device does not
  accept the features last written.
\<close>

section \<open>The device\<close>

record 'd mmio =
  m_status :: "'d \<Rightarrow> u32"
  m_features :: "'d \<Rightarrow> u32"
  m_sel :: "'d \<Rightarrow> u32"
  m_ready :: "'d \<Rightarrow> u32"
  m_low :: "'d \<Rightarrow> bool"
  m_const :: "vreg \<Rightarrow> u32"
  m_accepts :: "u32 \<Rightarrow> bool"

definition fixed_regs :: "vreg list" where
  "fixed_regs = [MMIO_MAGIC_VALUE, MMIO_VERSION, MMIO_DEVICE_ID, MMIO_VENDOR_ID]"

text \<open>A read: what it returns, and what it leaves.\<close>

definition read_value :: "'d mmio \<Rightarrow> vreg \<Rightarrow> 'd \<Rightarrow> u32 \<Rightarrow> bool" where
  "read_value M r d v \<longleftrightarrow> (r = MMIO_STATUS \<longrightarrow> v = m_status M d) \<and> (r = MMIO_QUEUE_READY \<and> m_sel M d = 0 \<longrightarrow> v = m_ready M d)
   \<and> (r \<in> set fixed_regs \<or> r = MMIO_DEVICE_FEATURES \<and> m_low M d \<or> r = MMIO_QUEUE_NUM_MAX \<and> m_sel M d = 0 \<longrightarrow> v = m_const M r)"

definition read_keeps :: "'d mmio \<Rightarrow> 'd \<Rightarrow> 'd \<Rightarrow> bool" where
  "read_keeps M d d' \<longleftrightarrow> m_status M d' = m_status M d \<and> m_features M d' = m_features M d \<and> m_sel M d' = m_sel M d
   \<and> m_ready M d' = m_ready M d \<and> m_low M d' = m_low M d"

definition mmio_reads :: "virtio \<Rightarrow> (u32, 'd) bus \<Rightarrow> 'd mmio \<Rightarrow> bool" where
  "mmio_reads P B M \<longleftrightarrow> (\<forall>r d. case bus_read B (R P r) d of (v, d') \<Rightarrow> read_value M r d v \<and> read_keeps M d d')"

text \<open>A write of the status register, and of any other.\<close>

definition write_status :: "virtio \<Rightarrow> 'd mmio \<Rightarrow> u32 \<Rightarrow> 'd \<Rightarrow> 'd \<Rightarrow> bool" where
  "write_status P M v d d' \<longleftrightarrow>
     m_status M d' = (if v AND status_bit P S_FEATURES_OK \<noteq> 0 \<and> \<not> m_accepts M (m_features M d)
                      then v AND NOT (status_bit P S_FEATURES_OK) else v)
   \<and> (if v = 0 then m_ready M d' = 0
      else m_features M d' = m_features M d \<and> m_ready M d' = m_ready M d \<and> m_sel M d' = m_sel M d)"

definition write_other :: "'d mmio \<Rightarrow> vreg \<Rightarrow> u32 \<Rightarrow> 'd \<Rightarrow> 'd \<Rightarrow> bool" where
  "write_other M r v d d' \<longleftrightarrow> m_status M d' = m_status M d
   \<and> (m_low M d \<longrightarrow> m_features M d' = (if r = MMIO_DRIVER_FEATURES then v else m_features M d))
   \<and> m_sel M d' = (if r = MMIO_QUEUE_SEL then v else m_sel M d)
   \<and> m_ready M d' = (if r = MMIO_QUEUE_READY \<and> m_sel M d = 0 then v else m_ready M d)"

definition mmio_writes :: "virtio \<Rightarrow> (u32, 'd) bus \<Rightarrow> 'd mmio \<Rightarrow> bool" where
  "mmio_writes P B M \<longleftrightarrow> (\<forall>r v d. let d' = bus_write B (R P r) v d in
     m_low M d' = m_low M d \<and> (if r = MMIO_STATUS then write_status P M v d d' else write_other M r v d d'))"

definition mmio_device :: "virtio \<Rightarrow> (u32, 'd) bus \<Rightarrow> 'd mmio \<Rightarrow> bool" where
  "mmio_device P B M \<longleftrightarrow> mmio_reads P B M \<and> mmio_writes P B M"

lemma mmio_read:
  assumes "mmio_device P B M"
  shows "m_status M (snd (bus_read B (R P r) d)) = m_status M d" "m_features M (snd (bus_read B (R P r) d)) = m_features M d"
    "m_sel M (snd (bus_read B (R P r) d)) = m_sel M d"
    "m_ready M (snd (bus_read B (R P r) d)) = m_ready M d" "m_low M (snd (bus_read B (R P r) d)) = m_low M d"
    "fst (bus_read B (R P MMIO_STATUS) d) = m_status M d"
    "m_sel M d = 0 \<Longrightarrow> fst (bus_read B (R P MMIO_QUEUE_READY) d) = m_ready M d"
    "r \<in> set fixed_regs \<Longrightarrow> fst (bus_read B (R P r) d) = m_const M r"
    "m_low M d \<Longrightarrow> fst (bus_read B (R P MMIO_DEVICE_FEATURES) d) = m_const M MMIO_DEVICE_FEATURES"
    "m_sel M d = 0 \<Longrightarrow> fst (bus_read B (R P MMIO_QUEUE_NUM_MAX) d) = m_const M MMIO_QUEUE_NUM_MAX"
proof -
  have read: "read_value M r d (fst (bus_read B (R P r) d))" "read_keeps M d (snd (bus_read B (R P r) d))" for r d
    using assms [unfolded mmio_device_def mmio_reads_def, THEN conjunct1, THEN spec, of r, THEN spec, of d] by (simp_all add: case_prod_beta)
  show "m_status M (snd (bus_read B (R P r) d)) = m_status M d" "m_features M (snd (bus_read B (R P r) d)) = m_features M d"
    "m_sel M (snd (bus_read B (R P r) d)) = m_sel M d"
    "m_ready M (snd (bus_read B (R P r) d)) = m_ready M d" "m_low M (snd (bus_read B (R P r) d)) = m_low M d"
    using read(2) [of d r] by (simp_all add: read_keeps_def)
  show "fst (bus_read B (R P MMIO_STATUS) d) = m_status M d"
    "m_sel M d = 0 \<Longrightarrow> fst (bus_read B (R P MMIO_QUEUE_READY) d) = m_ready M d"
    "r \<in> set fixed_regs \<Longrightarrow> fst (bus_read B (R P r) d) = m_const M r"
    "m_low M d \<Longrightarrow> fst (bus_read B (R P MMIO_DEVICE_FEATURES) d) = m_const M MMIO_DEVICE_FEATURES"
    "m_sel M d = 0 \<Longrightarrow> fst (bus_read B (R P MMIO_QUEUE_NUM_MAX) d) = m_const M MMIO_QUEUE_NUM_MAX"
    using read(1) [of _ d] by (simp_all add: read_value_def)
qed

lemma mmio_write_status:
  assumes "mmio_device P B M"
  shows "m_status M (bus_write B (R P MMIO_STATUS) v d) = (if v AND status_bit P S_FEATURES_OK \<noteq> 0 \<and> \<not> m_accepts M (m_features M d)
      then v AND NOT (status_bit P S_FEATURES_OK) else v)"
    "m_ready M (bus_write B (R P MMIO_STATUS) v d) = (if v = 0 then 0 else m_ready M d)"
    "v \<noteq> 0 \<Longrightarrow> m_features M (bus_write B (R P MMIO_STATUS) v d) = m_features M d"
    "v \<noteq> 0 \<Longrightarrow> m_sel M (bus_write B (R P MMIO_STATUS) v d) = m_sel M d"
    "m_low M (bus_write B (R P r) v d) = m_low M d"
proof -
  have w: "m_low M (bus_write B (R P r) v d) = m_low M d" "write_status P M v d (bus_write B (R P MMIO_STATUS) v d)" for r v d
    using assms by (simp_all add: mmio_device_def mmio_writes_def Let_def)
  show "m_low M (bus_write B (R P r) v d) = m_low M d" by (rule w(1))
  show "m_status M (bus_write B (R P MMIO_STATUS) v d) = (if v AND status_bit P S_FEATURES_OK \<noteq> 0 \<and> \<not> m_accepts M (m_features M d)
      then v AND NOT (status_bit P S_FEATURES_OK) else v)"
    "m_ready M (bus_write B (R P MMIO_STATUS) v d) = (if v = 0 then 0 else m_ready M d)"
    "v \<noteq> 0 \<Longrightarrow> m_features M (bus_write B (R P MMIO_STATUS) v d) = m_features M d"
    "v \<noteq> 0 \<Longrightarrow> m_sel M (bus_write B (R P MMIO_STATUS) v d) = m_sel M d"
    using w(2) [of v d] by (simp_all add: write_status_def split: if_splits)
qed

lemma mmio_write_other:
  assumes "mmio_device P B M" "r \<noteq> MMIO_STATUS"
  shows "m_status M (bus_write B (R P r) v d) = m_status M d"
    "m_low M d \<Longrightarrow> m_features M (bus_write B (R P r) v d) = (if r = MMIO_DRIVER_FEATURES then v else m_features M d)"
    "m_sel M (bus_write B (R P r) v d) = (if r = MMIO_QUEUE_SEL then v else m_sel M d)"
    "m_ready M (bus_write B (R P r) v d) = (if r = MMIO_QUEUE_READY \<and> m_sel M d = 0 then v else m_ready M d)"
proof -
  have "write_other M r v d (bus_write B (R P r) v d)"
    using assms by (simp add: mmio_device_def mmio_writes_def Let_def)
  then show "m_status M (bus_write B (R P r) v d) = m_status M d"
    "m_low M d \<Longrightarrow> m_features M (bus_write B (R P r) v d) = (if r = MMIO_DRIVER_FEATURES then v else m_features M d)"
    "m_sel M (bus_write B (R P r) v d) = (if r = MMIO_QUEUE_SEL then v else m_sel M d)"
    "m_ready M (bus_write B (R P r) v d) = (if r = MMIO_QUEUE_READY \<and> m_sel M d = 0 then v else m_ready M d)"
    by (simp_all add: write_other_def)
qed

section \<open>The checks\<close>

text \<open>The features the driver does not want, and what it tells the device.\<close>

definition dropped :: "vfeature list" where
  "dropped = [BLK_F_RO, BLK_F_SCSI, BLK_F_CONFIG_WCE, BLK_F_MQ, F_ANY_LAYOUT, RING_F_EVENT_IDX, RING_F_INDIRECT_DESC]"

lemma bit_drop_feature:
  "n < 32 \<Longrightarrow> bit (drop_feature P f x) n \<longleftrightarrow> bit f n \<and> n \<noteq> feature_bit P x"
  by (auto simp: drop_feature_def bit_simps min_def)

lemma bit_drop_features:
  "n < 32 \<Longrightarrow> bit (foldl (drop_feature P) f xs) n \<longleftrightarrow> bit f n \<and> (\<forall>x \<in> set xs. n \<noteq> feature_bit P x)"
  by (induction xs arbitrary: f) (auto simp: bit_drop_feature)

definition negotiated :: "virtio \<Rightarrow> u32 \<Rightarrow> u32" where
  "negotiated P v = ucast (foldl (drop_feature P) (ucast v) dropped)"

lemma bit_negotiated: "bit (negotiated P v) n \<longleftrightarrow> bit v n \<and> (\<forall>x. n \<noteq> feature_bit P x)"
proof (cases "n < 32")
  case True
  have "(\<forall>x \<in> set dropped. n \<noteq> feature_bit P x) \<longleftrightarrow> (\<forall>x. n \<noteq> feature_bit P x)"
    by (auto simp: dropped_def) (metis vfeature.exhaust)
  then show ?thesis using True by (simp add: negotiated_def bit_simps bit_drop_features)
next
  case False
  then show ?thesis by (auto simp: bit_simps dest: bit_imp_le_length)
qed

text \<open>The message the driver panics with, if any of its checks fails, in the order of the checks.\<close>

definition refusal :: "virtio \<Rightarrow> 'd mmio \<Rightarrow> string option" where
  "refusal P M = (let a = m_const M in
     if a MMIO_MAGIC_VALUE \<noteq> 0x74726976 \<or> a MMIO_VERSION \<noteq> 2 \<or> a MMIO_DEVICE_ID \<noteq> 2 \<or> a MMIO_VENDOR_ID \<noteq> 0x554d4551
     then Some ''could not find virtio disk''
     else if \<not> m_accepts M (negotiated P (a MMIO_DEVICE_FEATURES)) then Some ''virtio disk FEATURES_OK unset''
     else if a MMIO_QUEUE_NUM_MAX = 0 then Some ''virtio disk has no queue 0''
     else if unat (a MMIO_QUEUE_NUM_MAX) < NUM P then Some ''virtio disk max queue too short''
     else None)"

text \<open>The status register when the driver has been accepted.\<close>

definition accepted_status :: "virtio \<Rightarrow> u32" where
  "accepted_status P = status_bit P S_ACKNOWLEDGE OR status_bit P S_DRIVER OR status_bit P S_FEATURES_OK"

lemma accepted_features_ok: "accepted_status P AND status_bit P S_FEATURES_OK = status_bit P S_FEATURES_OK"
  by (rule bit_eqI) (auto simp: accepted_status_def bit_simps)

lemma and_not_and: "(x AND NOT y) AND y = (0 :: 'a::len word)"
  by (simp add: and.assoc)

lemma rd_eq: "rd P B r s = (fst (bus_read B (R P r) (vdev s)), s\<lparr>vdev := snd (bus_read B (R P r) (vdev s))\<rparr>)"
  by (simp add: rd_def case_prod_beta)

lemma probe_ok:
  assumes "mmio_device P B M"
  shows "\<exists>d. virtio_probe P B u = (if m_const M MMIO_MAGIC_VALUE \<noteq> 0x74726976 \<or> m_const M MMIO_VERSION \<noteq> 2
        \<or> m_const M MMIO_DEVICE_ID \<noteq> 2 \<or> m_const M MMIO_VENDOR_ID \<noteq> 0x554d4551
      then Inl (Panic ''could not find virtio disk'') else Inr (u\<lparr>vdev := d\<rparr>)) \<and> m_low M d = m_low M (vdev u)"
proof -
  let ?n = "\<lambda>r d. snd (bus_read B (R P r) d)"
  have "r \<in> set fixed_regs \<Longrightarrow> fst (bus_read B (R P r) d) = m_const M r" for r d by (rule mmio_read [OF assms])
  then show ?thesis
    by (intro exI [of _ "?n MMIO_VENDOR_ID (?n MMIO_DEVICE_ID (?n MMIO_VERSION (?n MMIO_MAGIC_VALUE (vdev u))))"])
      (simp add: virtio_probe_def rd_eq fixed_regs_def mmio_read(5) [OF assms] Let_def)
qed

lemma negotiate_ok:
  assumes "mmio_device P B M" "status_bit P S_FEATURES_OK \<noteq> 0" "m_low M (vdev u)"
  shows "\<exists>d. virtio_negotiate P B u = (if m_accepts M (negotiated P (m_const M MMIO_DEVICE_FEATURES))
      then Inr (accepted_status P, u\<lparr>vdev := d\<rparr>) else Inl (Panic ''virtio disk FEATURES_OK unset''))
    \<and> m_ready M d = 0 \<and> m_low M d \<and> m_features M d = negotiated P (m_const M MMIO_DEVICE_FEATURES)"
proof -
  let ?neg = "negotiated P (m_const M MMIO_DEVICE_FEATURES)" and ?w = "accepted_status P" and ?F = "status_bit P S_FEATURES_OK"
  let ?st = "\<lambda>v d. bus_write B (R P MMIO_STATUS) v d"
  let ?d3 = "?st (status_bit P S_ACKNOWLEDGE OR status_bit P S_DRIVER) (?st (status_bit P S_ACKNOWLEDGE) (?st 0 (vdev u)))"
  let ?d4 = "bus_write B (R P MMIO_DRIVER_FEATURES) ?neg (snd (bus_read B (R P MMIO_DEVICE_FEATURES) ?d3))"
  let ?d5 = "?st ?w ?d4"
  let ?d = "snd (bus_read B (R P MMIO_STATUS) ?d5)"
  note W = mmio_write_status [OF assms(1)] mmio_write_other [OF assms(1)] mmio_read [OF assms(1)] assms(3)
  have w: "?w AND ?F \<noteq> 0" using assms(2) by (simp add: accepted_features_ok)
  then have w0: "?w \<noteq> 0" by auto
  have f4: "m_features M ?d4 = ?neg" by (simp add: W)
  have r4: "m_ready M ?d4 = 0" by (simp add: W)
  have s5: "m_status M ?d5 = (if m_accepts M ?neg then ?w else ?w AND NOT ?F)" using w f4 by (simp add: W(1))
  have "m_ready M ?d = 0" "m_features M ?d = ?neg" "m_low M ?d" using w0 f4 r4 by (simp_all add: W)
  moreover have "virtio_negotiate P B u = (let v = m_status M ?d5 in
      if v AND ?F = 0 then Inl (Panic ''virtio disk FEATURES_OK unset'') else Inr (v, u\<lparr>vdev := ?d\<rparr>))"
    by (simp add: virtio_negotiate_def rd_eq wr_def W fixed_regs_def negotiated_def dropped_def accepted_status_def Let_def or.assoc and_not_and)
  moreover have "(?w AND NOT ?F) AND ?F = 0" by (rule and_not_and)
  ultimately show ?thesis using w by (intro exI [of _ ?d]) (simp add: s5 Let_def)
qed

lemma check_queue_ok:
  assumes "mmio_device P B M" "m_ready M (vdev u) = 0" "m_low M (vdev u)"
  shows "\<exists>d. virtio_check_queue P B u = (if m_const M MMIO_QUEUE_NUM_MAX = 0 then Inl (Panic ''virtio disk has no queue 0'')
      else if unat (m_const M MMIO_QUEUE_NUM_MAX) < NUM P then Inl (Panic ''virtio disk max queue too short'') else Inr (u\<lparr>vdev := d\<rparr>))
    \<and> m_features M d = m_features M (vdev u) \<and> m_sel M d = 0 \<and> m_low M d"
proof -
  note W = mmio_write_other [OF assms(1)] mmio_read [OF assms(1)]
  let ?d = "snd (bus_read B (R P MMIO_QUEUE_NUM_MAX) (snd (bus_read B (R P MMIO_QUEUE_READY) (bus_write B (R P MMIO_QUEUE_SEL) 0 (vdev u)))))"
  show ?thesis
    by (intro exI [of _ ?d]) (simp add: virtio_check_queue_def rd_eq wr_def W assms(2,3) mmio_write_status(5) [OF assms(1)] Let_def)
qed

lemma init_checks:
  assumes "mmio_device P B M" "status_bit P S_FEATURES_OK \<noteq> 0" "m_low M (vdev s)"
  shows "\<exists>d. virtio_disk_init P B s = (case refusal P M of
      Some m \<Rightarrow> Inl (Panic m)
    | None \<Rightarrow> then_res (virtio_queue_pages P (s\<lparr>disk := (disk s)\<lparr>vdisk_lock := initlock P (vdisk_lock (disk s)) ''virtio_disk''\<rparr>, vdev := d\<rparr>))
        (\<lambda>s. Inr (virtio_start_queue P B (accepted_status P) s)))
    \<and> m_features M d = negotiated P (m_const M MMIO_DEVICE_FEATURES) \<and> m_sel M d = 0 \<and> m_low M d"
proof -
  let ?s = "s\<lparr>disk := (disk s)\<lparr>vdisk_lock := initlock P (vdisk_lock (disk s)) ''virtio_disk''\<rparr>\<rparr>"
  obtain d1 where d1: "virtio_probe P B ?s = (if m_const M MMIO_MAGIC_VALUE \<noteq> 0x74726976 \<or> m_const M MMIO_VERSION \<noteq> 2
        \<or> m_const M MMIO_DEVICE_ID \<noteq> 2 \<or> m_const M MMIO_VENDOR_ID \<noteq> 0x554d4551
      then Inl (Panic ''could not find virtio disk'') else Inr (?s\<lparr>vdev := d1\<rparr>))" "m_low M d1"
    using probe_ok [OF assms(1), of ?s] assms(3) by auto
  then have low: "m_low M (vdev (?s\<lparr>vdev := d1\<rparr>))" by simp
  obtain d2 where d2: "virtio_negotiate P B (?s\<lparr>vdev := d1\<rparr>) = (if m_accepts M (negotiated P (m_const M MMIO_DEVICE_FEATURES))
      then Inr (accepted_status P, ?s\<lparr>vdev := d1, vdev := d2\<rparr>) else Inl (Panic ''virtio disk FEATURES_OK unset''))"
    and r2: "m_ready M d2 = 0" "m_low M d2" "m_features M d2 = negotiated P (m_const M MMIO_DEVICE_FEATURES)"
    using negotiate_ok [OF assms(1,2) low] by blast
  have "m_ready M (vdev (?s\<lparr>vdev := d1, vdev := d2\<rparr>)) = 0" "m_low M (vdev (?s\<lparr>vdev := d1, vdev := d2\<rparr>))" using r2(1,2) by simp_all
  from check_queue_ok [OF assms(1) this] obtain d3 where
    "virtio_check_queue P B (?s\<lparr>vdev := d1, vdev := d2\<rparr>) = (if m_const M MMIO_QUEUE_NUM_MAX = 0 then Inl (Panic ''virtio disk has no queue 0'')
      else if unat (m_const M MMIO_QUEUE_NUM_MAX) < NUM P then Inl (Panic ''virtio disk max queue too short'') else Inr (?s\<lparr>vdev := d1, vdev := d2, vdev := d3\<rparr>))"
    "m_features M d3 = negotiated P (m_const M MMIO_DEVICE_FEATURES)" "m_sel M d3 = 0" "m_low M d3"
    using r2(3) by auto
  with d1(1) d2 show ?thesis
    by (intro exI [of _ d3]) (simp add: virtio_disk_init_def refusal_def Let_def)
qed

lemma start_queue_device:
  assumes "mmio_device P B M" "m_features M (vdev s) = f" "m_accepts M f"
    and "status_bit P S_FEATURES_OK \<noteq> 0" "m_sel M (vdev s) = 0" "m_low M (vdev s)"
  shows "m_status M (vdev (virtio_start_queue P B (accepted_status P) s)) = accepted_status P OR status_bit P S_DRIVER_OK
    \<and> m_ready M (vdev (virtio_start_queue P B (accepted_status P) s)) = 1
    \<and> m_features M (vdev (virtio_start_queue P B (accepted_status P) s)) = f"
proof -
  let ?v = "accepted_status P OR status_bit P S_DRIVER_OK"
  note W = mmio_write_status [OF assms(1)] mmio_write_other [OF assms(1)]
  have "accepted_status P \<noteq> 0" using accepted_features_ok [of P] assms(4) by auto
  then have "?v \<noteq> 0" by (metis or_eq_0_iff)
  then show ?thesis using assms(2,3,5,6) by (simp add: virtio_start_queue_def wr_def W Let_def)
qed

lemma start_queue_disk:
  assumes "length (free (disk s)) = NUM P"
  shows "disk (virtio_start_queue P B status s) = (disk s)\<lparr>free := replicate (NUM P) 1\<rparr>" "mem (virtio_start_queue P B status s) = mem s"
    "page_list_keeper (virtio_start_queue P B status s) = page_list_keeper s"
proof -
  have "fold (\<lambda>i f. f[i := 1]) [0..<n] f = replicate n 1 @ drop n f" if "n \<le> length f" for n and f :: "u8 list"
    using that
  proof (induction n)
    case (Suc n)
    then have "drop n f = f ! n # drop (Suc n) f" by (simp add: Cons_nth_drop_Suc)
    with Suc show ?case by (simp add: list_update_append replicate_append_same)
  qed simp
  from this [of "NUM P" "free (disk s)"] assms
  show "disk (virtio_start_queue P B status s) = (disk s)\<lparr>free := replicate (NUM P) 1\<rparr>" "mem (virtio_start_queue P B status s) = mem s"
    "page_list_keeper (virtio_start_queue P B status s) = page_list_keeper s"
    by (simp_all add: virtio_start_queue_def wr_def Let_def)
qed

lemma disk_kmem_more: "kmem.more s = kmem.more t \<Longrightarrow> disk s = disk t"
  by (cases s; cases t) simp

lemma kalloc_first:
  assumes "free_pages s (p # ps)" "kalloc_ready s"
  shows "\<exists>t. kalloc s = Inr (p, t) \<and> free_pages t ps \<and> kalloc_ready t \<and> disk t = disk s \<and> vdev t = vdev s"
proof -
  from kalloc_pop [OF assms] obtain t where t: "kalloc s = Inr (p, t)" "free_pages t ps" "kalloc_ready t" "kalloc_frame p s t" by auto
  then have "kmem.more t = kmem.more s" by (simp add: kalloc_frame_def)
  then have "disk t = disk s" "vdev t = vdev s" by (cases s; cases t; simp)+
  with t show ?thesis by blast
qed

lemma free_list_fill:
  assumes "free_list m a xs" "page_aligned p" "p \<notin> set xs"
  shows "free_list (fill m p 4096 v) a xs"
proof -
  have "load64 m x = load64 (fill m p 4096 v) x" if "x \<in> set xs" for x
    using assms free_list_aligned [OF assms(1) that] that load64_page_fill [of p x m v] by metis
  then show ?thesis using assms(1) free_list_cong [of xs m] by simp
qed

lemma queue_pages:
  assumes "free_pages s ps" "kalloc_ready s"
  shows "case ps of
      p # q # r # rest \<Rightarrow> \<exists>t. virtio_queue_pages P s = Inr t \<and> free_pages t rest
        \<and> disk t = (disk s)\<lparr>desc_page := p, avail_page := q, used_page := r,
            desc := replicate (NUM P) \<lparr>d_addr = 0, d_len = 0, d_flags = 0, d_nxt = 0\<rparr>,
            avail := \<lparr>a_idx = 0, a_ring = replicate (NUM P) 0\<rparr>, used := \<lparr>u_idx = 0, u_ring = replicate (NUM P) 0\<rparr>\<rparr>
        \<and> vdev t = vdev s \<and> (\<forall>x. in_page p x \<or> in_page q x \<or> in_page r x \<longrightarrow> mem t x = 0)
    | _ \<Rightarrow> virtio_queue_pages P s = Inl NullDeref"
proof (cases ps)
  case Nil
  then show ?thesis using kalloc_empty [of s] assms by (simp add: virtio_queue_pages_def)
next
  case p: (Cons p ps1)
  from kalloc_first [OF assms [unfolded p]] obtain s1 where
    1: "kalloc s = Inr (p, s1)" "free_pages s1 ps1" "kalloc_ready s1" "disk s1 = disk s" "vdev s1 = vdev s" by blast
  show ?thesis
  proof (cases ps1)
    case Nil
    then show ?thesis using p 1 kalloc_empty [of s1] by (simp add: virtio_queue_pages_def)
  next
    case q: (Cons q ps2)
    from kalloc_first [OF 1(2) [unfolded q] 1(3)] obtain s2 where
      2: "kalloc s1 = Inr (q, s2)" "free_pages s2 ps2" "kalloc_ready s2" "disk s2 = disk s1" "vdev s2 = vdev s1" by blast
    show ?thesis
    proof (cases ps2)
      case Nil
      then show ?thesis using p q 1 2 kalloc_empty [of s2] by (simp add: virtio_queue_pages_def)
    next
      case r: (Cons r rest)
      from kalloc_first [OF 2(2) [unfolded r] 2(3)] obtain s3 where
        3: "kalloc s2 = Inr (r, s3)" "free_pages s3 rest" "disk s3 = disk s2" "vdev s3 = vdev s2" by blast
      let ?m = "fill (fill (fill (mem s3) p 4096 0) q 4096 0) r 4096 0"
      have al: "page_aligned p \<and> p \<noteq> 0" "page_aligned q \<and> q \<noteq> 0" "page_aligned r \<and> r \<noteq> 0" "distinct ps"
        using assms(1) kalloc.owned_aligned [OF assms(1)] by (simp_all add: p q r free_pages_def)
      have "free_list (mem s3) (page_link (page_list_keeper s3)) rest" "distinct rest" using 3(2) by (simp_all add: free_pages_def)
      then have f: "free_list ?m (page_link (page_list_keeper s3)) rest" using al p q r by (intro free_list_fill) auto
      have z: "?m x = 0" if "in_page p x \<or> in_page q x \<or> in_page r x" for x using that by (auto simp: fill_def in_page_def)
      show ?thesis using 1 2 3 al p q r f z \<open>distinct rest\<close>
        by (simp add: virtio_queue_pages_def Let_def free_pages_def)
    qed
  qed
qed

section \<open>The outcome\<close>

text \<open>
  C11: what \<open>virtio_disk_init\<close> does with a device that keeps to the specification, whatever state it was
  in but for its feature selectors, which are as at power-on. If the device is not a virtio disk, does not accept the features that are left, has no
  queue 0 or too short a one, the driver panics with the message of the first of these. The check
  that the queue is not ready never fails, because the driver has reset the device. With fewer
  than three free pages it follows a null pointer. Otherwise it returns: the three queue areas are
  the first three pages of the allocator, zeroed, the rest stays on the free list, every
  descriptor is free; and the device has been told exactly the features it offered without the
  seven the driver drops, its status register holds the four bits, and its queue is ready.
\<close>

theorem virtio_disk_init_outcome:
  assumes "mmio_device P B M" "status_bit P S_FEATURES_OK \<noteq> 0" "free_pages s ps" "kalloc_ready s" "0 < NUM P" "NUM P < 2 ^ 16"
    and "m_low M (vdev s)" "length (free (disk s)) = NUM P" "length (infos (disk s)) = NUM P" "length (ops (disk s)) = NUM P"
  shows "case refusal P M of
      Some m \<Rightarrow> virtio_disk_init P B s = Inl (Panic m)
    | None \<Rightarrow> (case ps of
          p # q # r # rest \<Rightarrow> \<exists>t. virtio_disk_init P B s = Inr t \<and> vd_ok P (disk t) \<and> free_set (disk t) = {..<NUM P}
            \<and> desc_page (disk t) = p \<and> avail_page (disk t) = q \<and> used_page (disk t) = r \<and> free_pages t rest
            \<and> (\<forall>x. in_page p x \<or> in_page q x \<or> in_page r x \<longrightarrow> mem t x = 0)
            \<and> m_status M (vdev t) = status_bit P S_ACKNOWLEDGE OR status_bit P S_DRIVER OR status_bit P S_FEATURES_OK OR status_bit P S_DRIVER_OK
            \<and> (\<forall>n. bit (m_features M (vdev t)) n \<longleftrightarrow> bit (m_const M MMIO_DEVICE_FEATURES) n \<and> (\<forall>x. n \<noteq> feature_bit P x))
            \<and> m_ready M (vdev t) = 1
        | _ \<Rightarrow> virtio_disk_init P B s = Inl NullDeref)"
proof -
  from init_checks [OF assms(1,2,7)] obtain d where
    run: "virtio_disk_init P B s = (case refusal P M of
      Some m \<Rightarrow> Inl (Panic m)
    | None \<Rightarrow> then_res (virtio_queue_pages P (s\<lparr>disk := (disk s)\<lparr>vdisk_lock := initlock P (vdisk_lock (disk s)) ''virtio_disk''\<rparr>, vdev := d\<rparr>))
        (\<lambda>s. Inr (virtio_start_queue P B (accepted_status P) s)))"
    and fd: "m_features M d = negotiated P (m_const M MMIO_DEVICE_FEATURES)" "m_sel M d = 0" "m_low M d" by blast
  let ?s = "s\<lparr>disk := (disk s)\<lparr>vdisk_lock := initlock P (vdisk_lock (disk s)) ''virtio_disk''\<rparr>, vdev := d\<rparr>"
  have s: "free_pages ?s ps" "kalloc_ready ?s" using assms(3,4) by (simp_all add: free_pages_def kalloc_ready_def)
  note pages = queue_pages [OF s, of P]
  show ?thesis
  proof (cases "refusal P M")
    case None
    show ?thesis
    proof (cases "\<exists>p q r rest. ps = p # q # r # rest")
      case False
      then show ?thesis using run None pages by (auto split: list.splits)
    next
      case True
      then obtain p q r rest where ps: "ps = p # q # r # rest" by blast
      with pages obtain u where u: "virtio_queue_pages P ?s = Inr u" "free_pages u rest"
        "disk u = (disk ?s)\<lparr>desc_page := p, avail_page := q, used_page := r,
            desc := replicate (NUM P) \<lparr>d_addr = 0, d_len = 0, d_flags = 0, d_nxt = 0\<rparr>,
            avail := \<lparr>a_idx = 0, a_ring = replicate (NUM P) 0\<rparr>, used := \<lparr>u_idx = 0, u_ring = replicate (NUM P) 0\<rparr>\<rparr>"
        "vdev u = d" "\<forall>x. in_page p x \<or> in_page q x \<or> in_page r x \<longrightarrow> mem u x = 0" by auto
      let ?t = "virtio_start_queue P B (accepted_status P) u"
      have "length (free (disk u)) = NUM P" using u(3) assms(8) by simp
      note st = start_queue_disk [OF this, of B "accepted_status P"]
      have "vd_ok P (disk ?t)" "free_set (disk ?t) = {..<NUM P}"
        unfolding st(1) using u(3) assms(5,6,8-10) by (auto simp: vd_ok_def marked_def)
      moreover have "free_pages ?t rest" using u(2) st(2,3) by (simp add: free_pages_def)
      moreover have "m_accepts M (negotiated P (m_const M MMIO_DEVICE_FEATURES))"
        using None by (auto simp: refusal_def Let_def split: if_splits)
      with start_queue_device [OF assms(1) _ _ assms(2), of u] u(4) fd have
        "m_status M (vdev ?t) = accepted_status P OR status_bit P S_DRIVER_OK" "m_ready M (vdev ?t) = 1"
        "m_features M (vdev ?t) = negotiated P (m_const M MMIO_DEVICE_FEATURES)" by simp_all
      ultimately show ?thesis using run None ps u(1,3,5) st(1,2)
        by (simp add: bit_negotiated accepted_status_def or.assoc)
    qed
  qed (use run in simp)
qed

text \<open>
  A device with a status register, the driver's features, a queue selector and one queue, which
  offers every feature and accepts those whose bit 5 (read-only) is not set.
\<close>

record demo_regs =
  dr_status :: u32
  dr_features :: u32
  dr_sel :: u32
  dr_ready :: u32

definition demo_device :: "(u32, demo_regs) bus" where
  "demo_device = \<lparr>bus_read = (\<lambda>x d. (if x = VIRTIO0 then 0x74726976 else if x = VIRTIO0 + 4 then 2 else if x = VIRTIO0 + 8 then 2
     else if x = VIRTIO0 + 0xc then 0x554d4551 else if x = VIRTIO0 + 0x10 then 0xffffffff
     else if x = VIRTIO0 + 0x34 then if dr_sel d = 0 then 1024 else 0
     else if x = VIRTIO0 + 0x70 then dr_status d
     else if x = VIRTIO0 + 0x44 then if dr_sel d = 0 then dr_ready d else 0 else 0, d)),
     bus_write = (\<lambda>x v d. if x = VIRTIO0 + 0x70 then
         if v = 0 then \<lparr>dr_status = 0, dr_features = 0, dr_sel = 0, dr_ready = 0\<rparr>
         else d\<lparr>dr_status := if v AND 8 \<noteq> 0 \<and> bit (dr_features d) 5 then v AND NOT 8 else v\<rparr>
       else if x = VIRTIO0 + 0x20 then d\<lparr>dr_features := v\<rparr>
       else if x = VIRTIO0 + 0x30 then d\<lparr>dr_sel := v\<rparr>
       else if x = VIRTIO0 + 0x44 then if dr_sel d = 0 then d\<lparr>dr_ready := v\<rparr> else d else d)\<rparr>"

definition demo_mmio :: "demo_regs mmio" where
  "demo_mmio = \<lparr>m_status = dr_status, m_features = dr_features, m_sel = dr_sel, m_ready = dr_ready, m_low = (\<lambda>_. True),
     m_const = (\<lambda>r. case r of MMIO_MAGIC_VALUE \<Rightarrow> 0x74726976 | MMIO_VERSION \<Rightarrow> 2 | MMIO_DEVICE_ID \<Rightarrow> 2 | MMIO_VENDOR_ID \<Rightarrow> 0x554d4551
       | MMIO_DEVICE_FEATURES \<Rightarrow> 0xffffffff | MMIO_QUEUE_NUM_MAX \<Rightarrow> 1024 | _ \<Rightarrow> 0),
     m_accepts = (\<lambda>f. \<not> bit f 5)\<rparr>"

lemma demo_device_ok: "mmio_device demo_virtio demo_device demo_mmio"
proof -
  have "case bus_read demo_device (R demo_virtio r) d of (v, d') \<Rightarrow> read_value demo_mmio r d v \<and> read_keeps demo_mmio d d'" for r d
    by (cases r) (simp_all add: demo_device_def demo_mmio_def R_def demo_virtio_def VIRTIO0_def fixed_regs_def read_value_def read_keeps_def)
  moreover have "let d' = bus_write demo_device (R demo_virtio r) v d in m_low demo_mmio d' = m_low demo_mmio d
      \<and> (if r = MMIO_STATUS then write_status demo_virtio demo_mmio v d d' else write_other demo_mmio r v d d')" for r v d
    by (cases r) (simp_all add: demo_device_def demo_mmio_def R_def demo_virtio_def VIRTIO0_def write_status_def write_other_def Let_def)
  ultimately show ?thesis by (simp add: mmio_device_def mmio_reads_def mmio_writes_def)
qed

lemma demo_not_refused: "refusal demo_virtio demo_mmio = None"
proof -
  have "feature_bit demo_virtio BLK_F_RO = 5" by (simp add: demo_virtio_def)
  then have "\<not> bit (negotiated demo_virtio v) 5" for v by (metis bit_negotiated)
  then show ?thesis by (simp add: refusal_def demo_mmio_def demo_virtio_def Let_def)
qed

text \<open>The machine of \<open>demo_system\<close> with this device, which comes up in some used state.\<close>

definition demo_cold :: "demo_regs disk_mach" where
  "demo_cold = mach.extend (demo_machine 0) \<lparr>mem = (\<lambda>_. 0), page_list_keeper = \<lparr>k_lock = \<lparr>available = 1\<rparr>, page_link = 0\<rparr>,
     buffers = (\<lambda>_. demo_buf), cache_head = demo_buf, cache_lock = \<lparr>available = 1\<rparr>, disk = demo_disk,
     vdev = \<lparr>dr_status = 15, dr_features = 7, dr_sel = 3, dr_ready = 1\<rparr>\<rparr>"

definition demo_pages :: "demo_regs disk_mach" where
  "demo_pages = free_page 0x80203000 (free_page 0x80204000 (free_page 0x80205000 demo_cold))"

lemma demo_pages_ok: "free_pages demo_pages [0x80203000, 0x80204000, 0x80205000]" "kalloc_ready demo_pages" "disk demo_pages = demo_disk"
proof -
  have "free_pages demo_cold []" by (simp add: free_pages_def demo_cold_def mach.defs)
  then show "free_pages demo_pages [0x80203000, 0x80204000, 0x80205000]"
    unfolding demo_pages_def by (intro free_page_push) (simp_all add: page_aligned_def)
  have "id_ok demo_cold" using demo_machine_simps(1) [of 0]
    by (simp add: id_ok_def cpu_id_def demo_cold_def mach.defs)
  then show "kalloc_ready demo_pages"
    by (simp add: kalloc_ready_def demo_pages_def id_ok_def cpu_id_def) (simp add: demo_cold_def mach.defs)
  have "disk demo_pages = disk demo_cold" by (rule disk_kmem_more) (simp add: demo_pages_def)
  then show "disk demo_pages = demo_disk" by (simp add: demo_cold_def mach.defs)
qed

theorem virtio_disk_init_outcome_witness:
  "\<exists>t. virtio_disk_init demo_virtio demo_device demo_pages = Inr t \<and> vd_ok demo_virtio (disk t) \<and> free_set (disk t) = {..<8}
    \<and> desc_page (disk t) = 0x80203000 \<and> free_pages t [] \<and> dr_status (vdev t) = 15 \<and> dr_ready (vdev t) = 1"
proof -
  have "NUM demo_virtio = 8" "status_bit demo_virtio S_FEATURES_OK = 8" by (simp_all add: demo_virtio_def)
  moreover have "length (free demo_disk) = 8" "length (infos demo_disk) = 8" "length (ops demo_disk) = 8" by (simp_all add: demo_disk_def)
  moreover have "m_status demo_mmio = dr_status" "m_ready demo_mmio = dr_ready" "m_low demo_mmio (vdev demo_pages)" by (simp_all add: demo_mmio_def)
  moreover have "status_bit demo_virtio S_ACKNOWLEDGE OR status_bit demo_virtio S_DRIVER OR status_bit demo_virtio S_FEATURES_OK
      OR status_bit demo_virtio S_DRIVER_OK = 15" by (simp add: demo_virtio_def)
  ultimately show ?thesis
    using virtio_disk_init_outcome [OF demo_device_ok _ demo_pages_ok(1,2)] demo_pages_ok(3) demo_not_refused by auto
qed

end
