(* ===== verification/Virtio_Sys.thy ===== *)
theory Virtio_Sys
  imports Virtio_Rw
begin

text \<open>
  The disk driver, its callers and the device together, as a state machine. A step is what happens
  while the driver's lock is held once: a caller posts a request, or finds too few descriptors and
  gives back what it took; the interrupt handler runs; a caller whose request is complete gives its
  descriptors back. A step of the device serves a posted request, and a step of the rest of the
  system changes anything but the driver's structures and the flags that say which buffers are with
  the device. Requests in flight are recorded beside the state of the machine, by the first
  descriptor of their chain. Routines that call \<open>wakeup\<close> spin while a process lock is held; such a
  step is taken when the process locks are free (\<open>wake_ready\<close>).

  The driver relies on its callers for one thing: that no two requests in flight are for one buffer,
  since \<open>b->disk\<close> is all a caller looks at. \<open>bio.c\<close> means the sleep lock of the buffer to see to it, but
  that lock grants what is held (\<open>Sleeplock\<close>), so the code does not provide it. It is the parameter
  \<open>own\<close> of the step relation: with it, every reachable state is safe; without it, a state is
  reachable in which a caller frees descriptors of a request that is still with the device.
\<close>

section \<open>Steps\<close>

datatype phase = Posted | Served | Done

record flight =
  fl_mid :: nat
  fl_last :: nat
  fl_buf :: bufref
  fl_phase :: phase

type_synonym flights = "nat \<rightharpoonup> flight"

text \<open>
  The device: it fills the buffer, writes the status byte, puts the head of the chain on the used
  ring and advances the index of the ring.
\<close>

definition device_serves :: "virtio \<Rightarrow> nat \<Rightarrow> bufref \<Rightarrow> u8 list \<Rightarrow> ('d, 'a) disk_mach_scheme \<Rightarrow> ('d, 'a) disk_mach_scheme" where
  "device_serves P i b bytes s =
     (let d = disk s;
          d = d\<lparr>infos := (infos d)[i := (infos d ! i)\<lparr>i_status := 0\<rparr>]\<rparr>;
          d = d\<lparr>used := \<lparr>u_idx = u_idx (used d) + 1, u_ring = (u_ring (used d))[unat (u_idx (used d)) mod NUM P := of_nat i]\<rparr>\<rparr>
      in set_buf b (buf_data_update (\<lambda>_. bytes)) (s\<lparr>disk := d\<rparr>))"

text \<open>Lines 288 and 289 of \<open>virtio_disk_rw\<close>.\<close>

definition reap :: "virtio \<Rightarrow> nat \<Rightarrow> ('d, 'a) disk_mach_scheme \<Rightarrow> ('d, 'a) disk_mach_scheme res" where
  "reap P i s = free_chain P (int i) (s\<lparr>disk := (disk s)\<lparr>infos := (infos (disk s))[i := (infos (disk s) ! i)\<lparr>i_b := None\<rparr>]\<rparr>\<rparr>)"

definition looked_at :: "flight \<Rightarrow> flight" where
  "looked_at f = (if fl_phase f = Served then f\<lparr>fl_phase := Done\<rparr> else f)"

inductive vstep ::
  "bool \<Rightarrow> virtio \<Rightarrow> (u32, 'd) bus \<Rightarrow> ('d, 'a) disk_mach_scheme \<times> flights \<Rightarrow> ('d, 'a) disk_mach_scheme \<times> flights \<Rightarrow> bool"
  for own P B where
  post: "alloc3_desc P s = Inr (0, [int i, int j, int k], t) \<Longrightarrow> valid_ref b \<Longrightarrow> own \<longrightarrow> (\<forall>f \<in> ran fl. fl_buf f \<noteq> b)
    \<Longrightarrow> vstep own P B (s, fl) (request P B b w sector i j k t, fl(i \<mapsto> \<lparr>fl_mid = j, fl_last = k, fl_buf = b, fl_phase = Posted\<rparr>))"
| too_few: "wake_ready s \<Longrightarrow> alloc3_desc P s = Inr (ret, idx, t) \<Longrightarrow> ret \<noteq> 0 \<Longrightarrow> vstep own P B (s, fl) (t, fl)"
| serve: "fl i = Some f \<Longrightarrow> fl_phase f = Posted
    \<Longrightarrow> vstep own P B (s, fl) (device_serves P i (fl_buf f) bytes s, fl(i \<mapsto> f\<lparr>fl_phase := Served\<rparr>))"
| intr: "wake_ready s \<Longrightarrow> virtio_disk_intr P B s = Inr t \<Longrightarrow> vstep own P B (s, fl) (t, map_option looked_at \<circ> fl)"
| reap: "wake_ready s \<Longrightarrow> fl i = Some f \<Longrightarrow> handled2disk (get_buf (fl_buf f) s) \<noteq> 1 \<Longrightarrow> reap P i s = Inr t
    \<Longrightarrow> vstep own P B (s, fl) (t, fl(i := None))"
| others: "disk t = disk s \<Longrightarrow> (\<forall>c. handled2disk (get_buf c t) = handled2disk (get_buf c s)) \<Longrightarrow> vstep own P B (s, fl) (t, fl)"

text \<open>
  The state the set-up leaves: nothing in flight, every descriptor free, nothing on the used ring,
  and the driver's lock free.
\<close>

definition vstart :: "virtio \<Rightarrow> ('d, 'a) disk_mach_scheme \<Rightarrow> bool" where
  "vstart P s \<longleftrightarrow> vd_ok P (disk s) \<and> free_set (disk s) = {..<NUM P} \<and> u_idx (used (disk s)) = used_idx (disk s)
     \<and> available (vdisk_lock (disk s)) \<noteq> 0"

inductive_cases vstepE: "vstep own P B x y"

inductive vreachable :: "bool \<Rightarrow> virtio \<Rightarrow> (u32, 'd) bus \<Rightarrow> ('d, 'a) disk_mach_scheme \<times> flights \<Rightarrow> bool" for own P B where
  start: "vstart P s \<Longrightarrow> vreachable own P B (s, Map.empty)"
| step: "vreachable own P B x \<Longrightarrow> vstep own P B x y \<Longrightarrow> vreachable own P B y"

section \<open>The invariant\<close>

definition members :: "nat \<Rightarrow> flight \<Rightarrow> nat set" where
  "members i f = {i, fl_mid f, fl_last f}"

definition flight_ok :: "virtio \<Rightarrow> ('d, 'a) disk_mach_scheme \<Rightarrow> nat \<Rightarrow> flight \<Rightarrow> bool" where
  "flight_ok P s i f \<longleftrightarrow> chain P (disk s) [i, fl_mid f, fl_last f] \<and> distinct [i, fl_mid f, fl_last f]
     \<and> i_b (infos (disk s) ! i) = Some (fl_buf f) \<and> valid_ref (fl_buf f)
     \<and> (handled2disk (get_buf (fl_buf f) s) = 1 \<longleftrightarrow> fl_phase f \<noteq> Done)
     \<and> (fl_phase f = Served \<longrightarrow> i_status (infos (disk s) ! i) = 0)"

definition apart :: "flights \<Rightarrow> bool" where
  "apart fl \<longleftrightarrow> (\<forall>i f i' f'. fl i = Some f \<longrightarrow> fl i' = Some f' \<longrightarrow> i \<noteq> i'
     \<longrightarrow> members i f \<inter> members i' f' = {} \<and> fl_buf f \<noteq> fl_buf f')"

definition covered :: "virtio \<Rightarrow> disk \<Rightarrow> flights \<Rightarrow> bool" where
  "covered P d fl \<longleftrightarrow> (\<forall>k < NUM P. k \<notin> free_set d \<longrightarrow> (\<exists>i f. fl i = Some f \<and> k \<in> members i f))"

definition ring_ok :: "virtio \<Rightarrow> disk \<Rightarrow> flights \<Rightarrow> bool" where
  "ring_ok P d fl \<longleftrightarrow> distinct (finished P d) \<and> set (finished P d) = {i. \<exists>f. fl i = Some f \<and> fl_phase f = Served}"

definition vinv :: "virtio \<Rightarrow> ('d, 'a) disk_mach_scheme \<times> flights \<Rightarrow> bool" where
  "vinv P = (\<lambda>(s, fl). vd_ok P (disk s) \<and> available (vdisk_lock (disk s)) \<noteq> 0
     \<and> (\<forall>i f. fl i = Some f \<longrightarrow> flight_ok P s i f) \<and> apart fl \<and> covered P (disk s) fl \<and> ring_ok P (disk s) fl)"

text \<open>The queue size divides the range of the 16-bit ring indices (it is a power of two).\<close>

definition queue_ok :: "virtio \<Rightarrow> bool" where
  "queue_ok P \<longleftrightarrow> NUM P dvd 2 ^ 16 \<and> flags_ok P"

lemma vinv_start: "vstart P s \<Longrightarrow> vinv P (s, Map.empty)"
  by (auto simp: vstart_def vinv_def apart_def covered_def ring_ok_def finished_def)

section \<open>The used ring\<close>

lemma ring_index:
  assumes "NUM P dvd 2 ^ 16"
  shows "unat (a + of_nat k :: u16) mod NUM P = (unat a + k) mod NUM P"
proof -
  have "unat (a + of_nat k) = (unat a + k) mod 2 ^ 16"
    by (simp add: unat_word_ariths unat_of_nat mod_simps)
  then show ?thesis using assms by (simp add: mod_mod_cancel)
qed

lemma ring_slots_differ:
  fixes x k n N :: nat
  assumes "k < n" "n < N"
  shows "(x + k) mod N \<noteq> (x + n) mod N"
proof
  assume "(x + k) mod N = (x + n) mod N"
  then have "N dvd n - k" using assms(1) mod_eq_dvd_iff_nat [of "x + k" "x + n" N] by auto
  with assms show False by (auto dest: dvd_imp_le)
qed

lemma finished_serve:
  assumes ok: "vd_ok P d" and N: "NUM P dvd 2 ^ 16" and i: "i < NUM P" and room: "length (finished P d) < NUM P"
    and d': "used d' = \<lparr>u_idx = u_idx (used d) + 1, u_ring = (u_ring (used d))[unat (u_idx (used d)) mod NUM P := of_nat i]\<rparr>"
      "used_idx d' = used_idx d"
  shows "finished P d' = finished P d @ [i]"
proof -
  let ?n = "unat (u_idx (used d) - used_idx d)" and ?a = "used_idx d"
  have n: "?n < NUM P" "NUM P < 2 ^ 16" using room ok by (simp_all add: finished_def vd_ok_def)
  have u: "u_idx (used d) = ?a + of_nat ?n" by simp
  have "u_idx (used d) + 1 - ?a = of_nat (Suc ?n)" by simp
  then have n': "unat (u_idx (used d) + 1 - ?a) = Suc ?n" using n by (simp add: unat_of_nat del: of_nat_Suc)
  have len: "length (u_ring (used d)) = NUM P" using ok by (simp add: vd_ok_def)
  have slot: "unat (u_idx (used d)) mod NUM P = (unat ?a + ?n) mod NUM P" using ring_index [OF N, of ?a ?n] by simp
  have "(u_ring (used d'))! (unat (?a + of_nat k) mod NUM P) = u_ring (used d) ! (unat (?a + of_nat k) mod NUM P)" if "k < ?n" for k
    using ring_slots_differ [OF that n(1), of "unat ?a"] ring_index [OF N, of ?a k] slot by (simp add: d'(1))
  moreover have "(u_ring (used d'))! (unat (?a + of_nat ?n) mod NUM P) = of_nat i"
    using len i by (simp add: d'(1))
  moreover have "unat (of_nat i :: u32) = i" using i n(2) by (simp add: unat_of_nat)
  ultimately show ?thesis by (simp add: finished_def n' d' del: of_nat_Suc)
qed

section \<open>Every step keeps the invariant\<close>

lemma vinvD:
  assumes "vinv P (s, fl)"
  shows "vd_ok P (disk s)" "available (vdisk_lock (disk s)) \<noteq> 0" "apart fl" "covered P (disk s) fl" "ring_ok P (disk s) fl"
    "fl i = Some f \<Longrightarrow> flight_ok P s i f"
  using assms by (simp_all add: vinv_def)

text \<open>Descriptors of a flight are in range and not free.\<close>

lemma flight_members: "flight_ok P s i f \<Longrightarrow> m \<in> members i f \<Longrightarrow> m < NUM P \<and> m \<notin> free_set (disk s)"
  by (auto simp: flight_ok_def members_def)

lemma apart_insert:
  assumes "apart fl" "\<And>i' f'. fl i' = Some f' \<Longrightarrow> i' \<noteq> i \<Longrightarrow> members i f \<inter> members i' f' = {} \<and> fl_buf f \<noteq> fl_buf f'"
  shows "apart (fl(i \<mapsto> f))"
  unfolding apart_def
proof (intro allI impI)
  fix a g a' g' assume g: "(fl(i \<mapsto> f)) a = Some g" "(fl(i \<mapsto> f)) a' = Some g'" "a \<noteq> a'"
  show "members a g \<inter> members a' g' = {} \<and> fl_buf g \<noteq> fl_buf g'"
  proof (cases "a = i \<or> a' = i")
    case True
    then show ?thesis using g assms(2) [of a' g'] assms(2) [of a g] by auto
  next
    case False
    then show ?thesis using g assms(1) by (simp add: apart_def)
  qed
qed

lemma members_head: "i \<in> members i f"
  by (simp add: members_def)

lemma flight_cong:
  assumes "flight_ok P s i f" "\<And>m. m \<in> members i f \<Longrightarrow> desc (disk t) ! m = desc (disk s) ! m"
    "\<And>m. m \<in> members i f \<Longrightarrow> m \<in> free_set (disk t) \<longleftrightarrow> m \<in> free_set (disk s)"
    "infos (disk t) ! i = infos (disk s) ! i" "handled2disk (get_buf (fl_buf f) t) = handled2disk (get_buf (fl_buf f) s)"
  shows "flight_ok P t i f"
proof -
  have "chain P (disk t) [i, fl_mid f, fl_last f] = chain P (disk s) [i, fl_mid f, fl_last f]"
    by (rule chain_cong) (use assms(2,3) in \<open>auto simp: members_def\<close>)
  then show ?thesis using assms(1,4,5) unfolding flight_ok_def by metis
qed

lemma request_others:
  "m \<notin> {i, j, k} \<Longrightarrow> desc (disk (request P B b w sector i j k s)) ! m = desc (disk s) ! m"
  "m \<noteq> i \<Longrightarrow> infos (disk (request P B b w sector i j k s)) ! m = infos (disk s) ! m"
  "used (disk (request P B b w sector i j k s)) = used (disk s)" "used_idx (disk (request P B b w sector i j k s)) = used_idx (disk s)"
  by (simp_all add: request_disk format_descs_def Let_def)

lemma finished_cong: "used d' = used d \<Longrightarrow> used_idx d' = used_idx d \<Longrightarrow> finished P d' = finished P d"
  by (simp add: finished_def)

lemma alloc3_loop_got:
  assumes "alloc3_loop P n (map int ks) s = Inr (0, idx, t)" "vd_ok P (disk s)"
  shows "\<exists>js. length js = n \<and> distinct js \<and> set js \<subseteq> free_set (disk s) \<and> idx = map int (ks @ js)
    \<and> t = s\<lparr>disk := (disk s)\<lparr>free := clear js (free (disk s))\<rparr>\<rparr>"
  using assms
proof (induction n arbitrary: ks s)
  case 0
  then show ?case by simp
next
  case (Suc n)
  have "free_set (disk s) \<noteq> {}"
    using Suc.prems alloc_desc_spec [OF Suc.prems(2)] by (auto simp: res_simps)
  then obtain k where k: "k \<in> free_set (disk s)" "alloc_desc P (disk s) = (int k, (disk s)\<lparr>free := (free (disk s))[k := 0]\<rparr>)"
    using alloc_desc_spec [OF Suc.prems(2)] by auto
  let ?s = "s\<lparr>disk := (disk s)\<lparr>free := (free (disk s))[k := 0]\<rparr>\<rparr>"
  have "alloc3_loop P n (map int (ks @ [k])) ?s = Inr (0, idx, t)" using Suc.prems(1) k(2) by simp
  moreover have "vd_ok P (disk ?s)" using Suc.prems(2) by (simp add: vd_ok_def)
  ultimately obtain js where js: "length js = n" "distinct js" "set js \<subseteq> free_set (disk ?s)" "idx = map int ((ks @ [k]) @ js)"
    "t = ?s\<lparr>disk := (disk ?s)\<lparr>free := clear js (free (disk ?s))\<rparr>\<rparr>"
    using Suc.IH by blast
  then show ?case using k(1) by (intro exI [of _ "k # js"]) auto
qed

lemma alloc3_got:
  assumes "alloc3_desc P s = Inr (0, [int i, int j, int k], t)" "vd_ok P (disk s)"
  shows "t = s\<lparr>disk := (disk s)\<lparr>free := clear [i, j, k] (free (disk s))\<rparr>\<rparr> \<and> distinct [i, j, k] \<and> {i, j, k} \<subseteq> free_set (disk s)"
proof -
  have "alloc3_loop P 3 (map int []) s = Inr (0, map int [i, j, k], t)" using assms(1) by (simp add: alloc3_desc_def)
  from alloc3_loop_got [OF this assms(2)] obtain js where
    js: "distinct js" "set js \<subseteq> free_set (disk s)" "map int [i, j, k] = map int ([] @ js)" "t = s\<lparr>disk := (disk s)\<lparr>free := clear js (free (disk s))\<rparr>\<rparr>"
    by blast
  have "map int js = map int [i, j, k]" using js(3) by simp
  then have "js = [i, j, k]" using inj_map_eq_map [OF inj_of_nat, of js "[i, j, k]"] by blast
  with js show ?thesis by simp
qed

lemma vinv_post:
  assumes inv: "vinv P (s, fl)" and q: "queue_ok P" and al: "alloc3_desc P s = Inr (0, [int i, int j, int k], t)"
    and b: "valid_ref b" "\<forall>f \<in> ran fl. fl_buf f \<noteq> b"
  shows "vinv P (request P B b w sector i j k t, fl(i \<mapsto> \<lparr>fl_mid = j, fl_last = k, fl_buf = b, fl_phase = Posted\<rparr>))"
proof -
  let ?u = "request P B b w sector i j k t" and ?f = "\<lparr>fl_mid = j, fl_last = k, fl_buf = b, fl_phase = Posted\<rparr>"
  note I = vinvD [OF inv]
  from alloc3_got [OF al I(1)] have
    t: "t = s\<lparr>disk := (disk s)\<lparr>free := clear [i, j, k] (free (disk s))\<rparr>\<rparr>" "distinct [i, j, k]" "{i, j, k} \<subseteq> free_set (disk s)" by blast+
  have ts: "desc (disk t) = desc (disk s)" "infos (disk t) = infos (disk s)" "get_buf c t = get_buf c s" "used (disk t) = used (disk s)"
    "used_idx (disk t) = used_idx (disk s)" "vdisk_lock (disk t) = vdisk_lock (disk s)" for c by (simp_all add: t(1))
  have lt: "{i, j, k} \<subseteq> {..<NUM P}" using t(3) I(1) by (auto simp: marked_def vd_ok_def)
  have okt: "vd_ok P (disk t)" "{i, j, k} \<subseteq> {..<NUM P} - free_set (disk t)" using I(1) lt by (auto simp: t(1) vd_ok_def)
  note r = request_posted [OF okt(1) t(2) okt(2), where b = b and w = w and sector = sector and B = B]
  have fr: "free_set (disk ?u) = free_set (disk s) - {i, j, k}" using r(3) by (auto simp: t(1))
  have ch: "chain P (disk ?u) [i, j, k]" using posted_chain [OF r(1)] q I(1) by (simp add: queue_ok_def vd_ok_def)
  have new: "flight_ok P ?u i ?f" using ch t(2) b(1) r(1) by (simp add: flight_ok_def posted_def)
  have apart': "m \<notin> {i, j, k}" if "fl i' = Some f'" "m \<in> members i' f'" for i' f' m
    using flight_members [OF I(6) [OF that(1)] that(2)] t(3) by blast
  have old: "flight_ok P ?u i' f'" if f': "fl i' = Some f'" for i' f'
  proof (rule flight_cong [OF I(6) [OF f']])
    fix m assume m: "m \<in> members i' f'"
    have n: "m \<notin> {i, j, k}" by (rule apart' [OF f' m])
    show "desc (disk ?u) ! m = desc (disk s) ! m" using request_others(1) [OF n, of P B b w sector t] ts(1) by simp
    show "m \<in> free_set (disk ?u) \<longleftrightarrow> m \<in> free_set (disk s)" unfolding fr using n by blast
  next
    have "i' \<noteq> i" using apart' [OF f' members_head] by blast
    then show "infos (disk ?u) ! i' = infos (disk s) ! i'" using request_others(2) [of i' i P B b w sector j k t] ts(2) by simp
    have "fl_buf f' \<noteq> b" using b(2) f' by (auto intro: ranI)
    then show "handled2disk (get_buf (fl_buf f') ?u) = handled2disk (get_buf (fl_buf f') s)" by (simp add: request_frame(2) ts(3) del: get_buf.simps)
  qed
  have ni: "fl i = None" using apart' [of i _ i] members_head by (cases "fl i") auto
  have "apart (fl(i \<mapsto> ?f))"
  proof (rule apart_insert [OF I(3)])
    fix i' f' assume f': "fl i' = Some f'"
    then show "members i ?f \<inter> members i' f' = {} \<and> fl_buf ?f \<noteq> fl_buf f'"
      using apart' [OF f'] b(2) by (auto simp: members_def [of i] intro: ranI)
  qed
  moreover have "covered P (disk ?u) (fl(i \<mapsto> ?f))"
    unfolding covered_def
  proof (intro allI impI)
    fix m assume m: "m < NUM P" "m \<notin> free_set (disk ?u)"
    show "\<exists>i' f'. (fl(i \<mapsto> ?f)) i' = Some f' \<and> m \<in> members i' f'"
    proof (cases "m \<in> {i, j, k}")
      case True
      then show ?thesis by (intro exI [of _ i] exI [of _ ?f]) (simp add: members_def)
    next
      case False
      then obtain i' f' where "fl i' = Some f'" "m \<in> members i' f'" using I(4) m unfolding covered_def fr by blast
      then show ?thesis using ni by (intro exI [of _ i'] exI [of _ f']) auto
    qed
  qed
  moreover have "finished P (disk ?u) = finished P (disk s)" by (rule finished_cong) (simp_all add: request_others ts)
  then have "ring_ok P (disk ?u) (fl(i \<mapsto> ?f))" using I(5) ni by (auto simp: ring_ok_def)
  ultimately show ?thesis using r(2,4) I(2) ts(6) new old by (simp add: vinv_def)
qed

lemma serves_frame:
  "disk (device_serves P i b bytes s) = (disk s)\<lparr>infos := (infos (disk s))[i := (infos (disk s) ! i)\<lparr>i_status := 0\<rparr>],
     used := \<lparr>u_idx = u_idx (used (disk s)) + 1, u_ring = (u_ring (used (disk s)))[unat (u_idx (used (disk s))) mod NUM P := of_nat i]\<rparr>\<rparr>"
  "handled2disk (get_buf c (device_serves P i b bytes s)) = handled2disk (get_buf c s)" "mach.truncate (device_serves P i b bytes s) = mach.truncate s"
  by (simp_all add: device_serves_def Let_def)

lemma vinv_serve:
  assumes inv: "vinv P (s, fl)" and q: "queue_ok P" and i: "fl i = Some f" "fl_phase f = Posted"
  shows "vinv P (device_serves P i (fl_buf f) bytes s, fl(i \<mapsto> f\<lparr>fl_phase := Served\<rparr>))"
proof -
  let ?t = "device_serves P i (fl_buf f) bytes s" and ?f = "f\<lparr>fl_phase := Served\<rparr>"
  note I = vinvD [OF inv]
  note d = serves_frame [where P = P and i = i and b = "fl_buf f" and bytes = bytes and s = s]
  have il: "i < NUM P" "i < length (infos (disk s))" using flight_members [OF I(6) [OF i(1)] members_head] I(1) by (simp_all add: vd_ok_def)
  have "chain P (disk ?t) ks = chain P (disk s) ks" for ks by (rule chain_cong) (simp_all add: d(1))
  then have new: "flight_ok P ?t i ?f" using I(6) [OF i(1)] i(2) il(2) d(2) by (simp add: flight_ok_def d(1))
  have old: "flight_ok P ?t i' f'" if "fl i' = Some f'" "i' \<noteq> i" for i' f'
    by (rule flight_cong [OF I(6) [OF that(1)]]) (use that(2) d(2) in \<open>simp_all add: d(1)\<close>)
  have served: "distinct (finished P (disk s))" "set (finished P (disk s)) = {i. \<exists>f. fl i = Some f \<and> fl_phase f = Served}"
    using I(5) by (simp_all add: ring_ok_def)
  have "set (finished P (disk s)) \<subseteq> {..<NUM P} - {i}" unfolding served(2) using flight_members [OF I(6) members_head] i by auto
  then have "card (set (finished P (disk s))) \<le> card ({..<NUM P} - {i})" by (rule card_mono [rotated]) simp
  then have "length (finished P (disk s)) < NUM P" using distinct_card [OF served(1)] il(1) by simp
  then have fin: "finished P (disk ?t) = finished P (disk s) @ [i]"
    by (intro finished_serve [OF I(1) _ il(1)]) (use q in \<open>simp_all add: d(1) queue_ok_def\<close>)
  have "ring_ok P (disk ?t) (fl(i \<mapsto> ?f))"
    using served i by (auto simp: ring_ok_def fin)
  moreover have "members a ?f = members a f" for a by (simp add: members_def)
  note mf = this
  moreover have "apart (fl(i \<mapsto> ?f))" by (rule apart_insert [OF I(3)]) (use I(3) i(1) mf in \<open>simp add: apart_def\<close>)
  moreover have "covered P (disk ?t) (fl(i \<mapsto> ?f))"
    unfolding covered_def
  proof (intro allI impI)
    fix k assume "k < NUM P" "k \<notin> free_set (disk ?t)"
    then obtain i' f' where k: "fl i' = Some f'" "k \<in> members i' f'" using I(4) by (auto simp: covered_def d(1))
    then show "\<exists>i' f'. (fl(i \<mapsto> ?f)) i' = Some f' \<and> k \<in> members i' f'"
      using i(1) by (intro exI [of _ i'] exI [of _ "if i' = i then ?f else f'"]) (auto simp: mf)
  qed
  moreover have "vd_ok P (disk ?t)" "available (vdisk_lock (disk ?t)) \<noteq> 0" using I(1,2) by (simp_all add: d(1) vd_ok_def)
  ultimately show ?thesis using new old by (simp add: vinv_def)
qed

lemma vinv_finished_ok:
  assumes "vinv P (s, fl)"
  shows "finished_ok P s" "done_bufs P (disk s) = {b. \<exists>i f. fl i = Some f \<and> fl_phase f = Served \<and> fl_buf f = b}"
proof -
  note I = vinvD [OF assms]
  have S: "set (finished P (disk s)) = {i. \<exists>f. fl i = Some f \<and> fl_phase f = Served}" using I(5) by (simp add: ring_ok_def)
  show "finished_ok P s"
    unfolding finished_ok_def S using I(6) flight_members [OF I(6) members_head] by (fastforce simp: flight_ok_def)
  have "i_b (infos (disk s) ! i) = Some (fl_buf f)" if "fl i = Some f" for i f using I(6) [OF that] by (simp add: flight_ok_def)
  then show "done_bufs P (disk s) = {b. \<exists>i f. fl i = Some f \<and> fl_phase f = Served \<and> fl_buf f = b}"
    unfolding done_bufs_def S by fastforce
qed

lemma vinv_intr:
  assumes inv: "vinv P (s, fl)" and wr: "wake_ready s" and t: "virtio_disk_intr P B s = Inr t"
  shows "vinv P (t, map_option looked_at \<circ> fl)"
proof -
  note I = vinvD [OF inv] and F = vinv_finished_ok [OF inv]
  from intr_ok [OF I(1) wr F(1) I(2), of B] t have
    d: "disk t = (disk s)\<lparr>used_idx := u_idx (used (disk s)), vdisk_lock := \<lparr>available = 1\<rparr>\<rparr>" "calm s t"
    and g: "\<And>c. get_buf c t = (if c \<in> done_bufs P (disk s) then (get_buf c s)\<lparr>handled2disk := 0\<rparr> else get_buf c s)" by auto
  have m: "members i (looked_at f) = members i f" "fl_buf (looked_at f) = fl_buf f" "fl_phase (looked_at f) \<noteq> Served" for i f
    by (simp_all add: looked_at_def members_def)
  have "chain P (disk t) ks = chain P (disk s) ks" for ks by (rule chain_cong) (simp_all add: d(1))
  moreover have "handled2disk (get_buf (fl_buf f) t) = 1 \<longleftrightarrow> fl_phase (looked_at f) \<noteq> Done" if f: "fl i = Some f" for i f
  proof (cases "fl_phase f = Served")
    case True
    then have "fl_buf f \<in> done_bufs P (disk s)" using f F(2) by blast
    then show ?thesis using True g by (simp add: looked_at_def)
  next
    case False
    then have "fl_buf f \<notin> done_bufs P (disk s)" using f F(2) I(3) unfolding apart_def by fastforce
    then show ?thesis using False g I(6) [OF f] by (simp add: looked_at_def flight_ok_def)
  qed
  ultimately have "flight_ok P t i (looked_at f)" if "fl i = Some f" for i f
    using I(6) [OF that] that m(3) [of f] unfolding flight_ok_def m(2) by (simp add: d(1) looked_at_def del: chain.simps)
  moreover have "apart (map_option looked_at \<circ> fl)" 
    unfolding apart_def
  proof (intro allI impI)
    fix i f i' f' assume "(map_option looked_at \<circ> fl) i = Some f" "(map_option looked_at \<circ> fl) i' = Some f'" "i \<noteq> i'"
    then obtain g g' where "fl i = Some g" "f = looked_at g" "fl i' = Some g'" "f' = looked_at g'" by auto
    then show "members i f \<inter> members i' f' = {} \<and> fl_buf f \<noteq> fl_buf f'"
      using I(3) \<open>i \<noteq> i'\<close> unfolding apart_def by (simp add: m)
  qed
  moreover have "covered P (disk t) (map_option looked_at \<circ> fl)"
    using I(4) m unfolding covered_def by (fastforce simp: d(1) m)
  moreover have "ring_ok P (disk t) (map_option looked_at \<circ> fl)"
    using m(3) by (auto simp: ring_ok_def finished_def d(1))
  moreover have "vd_ok P (disk t)" using I(1) by (simp add: d(1) vd_ok_def)
  ultimately show ?thesis by (auto simp: vinv_def d(1))
qed

lemma reap_ok:
  assumes inv: "vinv P (s, fl)" and wr: "wake_ready s" and i: "fl i = Some f"
  shows "\<exists>t. reap P i s = Inr t \<and> wake_ready t \<and> vd_ok P (disk t) \<and> free_set (disk t) = free_set (disk s) \<union> members i f
    \<and> (\<forall>m. m \<notin> members i f \<longrightarrow> desc (disk t) ! m = desc (disk s) ! m) \<and> (\<forall>c. get_buf c t = get_buf c s)
    \<and> (\<forall>m. m \<noteq> i \<longrightarrow> infos (disk t) ! m = infos (disk s) ! m) \<and> used (disk t) = used (disk s) \<and> used_idx (disk t) = used_idx (disk s)
    \<and> vdisk_lock (disk t) = vdisk_lock (disk s)"
proof -
  let ?s = "s\<lparr>disk := (disk s)\<lparr>infos := (infos (disk s))[i := (infos (disk s) ! i)\<lparr>i_b := None\<rparr>]\<rparr>\<rparr>"
  note I = vinvD [OF inv]
  have ok: "vd_ok P (disk ?s)" "wake_ready ?s" using I(1) wr by (simp_all add: vd_ok_def)
  have ch: "chain P (disk ?s) [i, fl_mid f, fl_last f]" "distinct [i, fl_mid f, fl_last f]" using I(6) [OF i] by (simp_all add: flight_ok_def)
  from free_chain_ok [OF ok ch] obtain t where
    t: "free_chain P (int i) ?s = Inr t" "only_descs ?s t" "wake_ready t" "vd_ok P (disk t)" "free_set (disk t) = free_set (disk s) \<union> members i f"
      "\<forall>m. m \<notin> members i f \<longrightarrow> desc (disk t) ! m = desc (disk s) ! m"
    by (auto simp: members_def)
  note d = only_descs_disk [OF t(2)]
  have "infos (disk t) = (infos (disk s))[i := (infos (disk s) ! i)\<lparr>i_b := None\<rparr>]" "used (disk t) = used (disk s)"
    "used_idx (disk t) = used_idx (disk s)" "vdisk_lock (disk t) = vdisk_lock (disk s)" by (subst d(1), simp)+
  with t d(2) show ?thesis by (intro exI [of _ t]) (simp add: reap_def)
qed

lemma vinv_reap:
  assumes inv: "vinv P (s, fl)" and wr: "wake_ready s" and i: "fl i = Some f" "handled2disk (get_buf (fl_buf f) s) \<noteq> 1" and run: "reap P i s = Inr t"
  shows "vinv P (t, fl(i := None))"
proof -
  note I = vinvD [OF inv]
  from reap_ok [OF inv wr i(1)] run have
    t: "wake_ready t" "vd_ok P (disk t)" "free_set (disk t) = free_set (disk s) \<union> members i f"
      "\<And>m. m \<notin> members i f \<Longrightarrow> desc (disk t) ! m = desc (disk s) ! m" "\<And>c. get_buf c t = get_buf c s"
      "\<And>m. m \<noteq> i \<Longrightarrow> infos (disk t) ! m = infos (disk s) ! m" "used (disk t) = used (disk s)" "used_idx (disk t) = used_idx (disk s)"
      "vdisk_lock (disk t) = vdisk_lock (disk s)" by auto
  have ph: "fl_phase f = Done" using I(6) [OF i(1)] i(2) by (auto simp: flight_ok_def)
  have "flight_ok P t i' f'" if f': "fl i' = Some f'" "i' \<noteq> i" for i' f'
  proof (rule flight_cong [OF I(6) [OF f'(1)]])
    fix m assume "m \<in> members i' f'"
    then have n: "m \<notin> members i f" using I(3) f' i(1) unfolding apart_def by blast
    show "desc (disk t) ! m = desc (disk s) ! m" by (rule t(4) [OF n])
    show "m \<in> free_set (disk t) \<longleftrightarrow> m \<in> free_set (disk s)" unfolding t(3) using n by blast
  next
    show "infos (disk t) ! i' = infos (disk s) ! i'" by (rule t(6) [OF f'(2)])
    show "handled2disk (get_buf (fl_buf f') t) = handled2disk (get_buf (fl_buf f') s)" unfolding t(5) ..
  qed
  moreover have "apart (fl(i := None))" using I(3) unfolding apart_def by simp
  moreover have "covered P (disk t) (fl(i := None))"
    unfolding covered_def t(3)
  proof (intro allI impI)
    fix m assume m: "m < NUM P" "m \<notin> free_set (disk s) \<union> members i f"
    then obtain i' f' where "fl i' = Some f'" "m \<in> members i' f'" using I(4) unfolding covered_def by blast
    moreover from this have "i' \<noteq> i" using m(2) i(1) by auto
    ultimately show "\<exists>i' f'. (fl(i := None)) i' = Some f' \<and> m \<in> members i' f'" by (intro exI [of _ i'] exI [of _ f']) simp
  qed
  moreover have "finished P (disk t) = finished P (disk s)" by (rule finished_cong) (simp_all add: t(7,8))
  then have "ring_ok P (disk t) (fl(i := None))" using I(5) i(1) ph by (auto simp: ring_ok_def)
  ultimately show ?thesis using t(1,2,9) I(2) by (simp add: vinv_def)
qed

lemma vinv_too_few:
  assumes inv: "vinv P (s, fl)" and wr: "wake_ready s" and run: "alloc3_desc P s = Inr (ret, idx, t)" "ret \<noteq> 0"
  shows "vinv P (t, fl)"
proof -
  note I = vinvD [OF inv]
  from alloc3_loop_spec [OF I(1) wr, of "[]" 3] run have
    t: "only_descs s t" "vd_ok P (disk t)" "free_set (disk t) = free_set (disk s)"
      "\<And>k. k \<notin> free_set (disk s) \<Longrightarrow> desc (disk t) ! k = desc (disk s) ! k"
    by (auto simp: alloc3_desc_def split: if_splits)
  note d = only_descs_disk [OF t(1)]
  have dt: "infos (disk t) = infos (disk s)" "used (disk t) = used (disk s)" "used_idx (disk t) = used_idx (disk s)"
    "vdisk_lock (disk t) = vdisk_lock (disk s)" by (subst d(1), simp)+
  have "flight_ok P t i f" if f: "fl i = Some f" for i f
  proof (rule flight_cong [OF I(6) [OF f]])
    fix m assume "m \<in> members i f"
    then have "m \<notin> free_set (disk s)" using flight_members [OF I(6) [OF f]] by blast
    then show "desc (disk t) ! m = desc (disk s) ! m" "m \<in> free_set (disk t) \<longleftrightarrow> m \<in> free_set (disk s)"
      using t(3,4) by blast+
  qed (simp_all add: dt d(2))
  moreover have "finished P (disk t) = finished P (disk s)" by (rule finished_cong) (simp_all add: dt)
  then have "ring_ok P (disk t) fl" using I(5) by (simp add: ring_ok_def)
  ultimately show ?thesis using I(2-4) t(2,3) by (simp add: vinv_def covered_def dt)
qed

lemma vinv_others:
  assumes inv: "vinv P (s, fl)" and t: "disk t = disk s" "\<forall>c. handled2disk (get_buf c t) = handled2disk (get_buf c s)"
  shows "vinv P (t, fl)"
proof -
  have "flight_ok P t i f" if "fl i = Some f" for i f
    by (rule flight_cong [OF vinvD(6) [OF inv that]]) (use t in simp_all)
  then show ?thesis using vinvD [OF inv] by (simp add: vinv_def t(1))
qed

lemma vreachable_inv: "vreachable True P B x \<Longrightarrow> queue_ok P \<Longrightarrow> vinv P x"
proof (induction rule: vreachable.induct)
  case (start s)
  then show ?case by (simp add: vinv_start)
next
  case (step x y)
  have inv: "vinv P x" by (rule step.IH [OF step.prems])
  from step.hyps(2) show ?case
  proof cases
    case post
    then show ?thesis using vinv_post [OF inv [unfolded post(1)] step.prems] by simp
  next
    case too_few
    then show ?thesis using vinv_too_few [OF inv [unfolded too_few(1)]] by simp
  next
    case serve
    then show ?thesis using vinv_serve [OF inv [unfolded serve(1)] step.prems] by simp
  next
    case intr
    then show ?thesis using vinv_intr [OF inv [unfolded intr(1)]] by simp
  next
    case reap
    then show ?thesis using vinv_reap [OF inv [unfolded reap(1)]] by simp
  next
    case others
    then show ?thesis using vinv_others [OF inv [unfolded others(1)]] by simp
  qed
qed


section \<open>Two requests for one buffer\<close>

lemma vstart_alloc:
  assumes "vd_ok P (disk s)" "wake_ready s" "3 \<le> card (free_set (disk s))"
  shows "\<exists>i j k t. alloc3_desc P s = Inr (0, [int i, int j, int k], t) \<and> t = s\<lparr>disk := (disk s)\<lparr>free := clear [i, j, k] (free (disk s))\<rparr>\<rparr>
    \<and> distinct [i, j, k] \<and> {i, j, k} \<subseteq> free_set (disk s)"
proof -
  from alloc3_loop_spec [OF assms(1,2), of "[]" 3] assms(3) obtain js where
    js: "length js = 3" "alloc3_desc P s = Inr (0, map int js, s\<lparr>disk := (disk s)\<lparr>free := clear js (free (disk s))\<rparr>\<rparr>)"
    by (auto simp: alloc3_desc_def)
  then obtain i j k where "js = [i, j, k]" by (auto simp: numeral_3_eq_3 length_Suc_conv)
  with js(2) have al: "alloc3_desc P s = Inr (0, [int i, int j, int k], s\<lparr>disk := (disk s)\<lparr>free := clear [i, j, k] (free (disk s))\<rparr>\<rparr>)" by simp
  then show ?thesis using alloc3_got [OF al assms(1)] by blast
qed

text \<open>What a request leaves, in one place: with the lock free and the machine part as before.\<close>

lemma requested:
  assumes "vd_ok P (disk s)" "wake_ready s" "flags_ok P" "distinct [i, j, k]" "{i, j, k} \<subseteq> free_set (disk s)"
    and u_def: "u = request P B b w sector i j k (s\<lparr>disk := (disk s)\<lparr>free := clear [i, j, k] (free (disk s))\<rparr>\<rparr>)"
  shows "vd_ok P (disk u)" "wake_ready u" "chain P (disk u) [i, j, k]" "free_set (disk u) = free_set (disk s) - {i, j, k}"
    "infos (disk u) ! i = \<lparr>i_b = Some b, i_status = 0xff\<rparr>" "\<And>m. m \<noteq> i \<Longrightarrow> infos (disk u) ! m = infos (disk s) ! m"
    "used (disk u) = used (disk s)" "used_idx (disk u) = used_idx (disk s)" "vdisk_lock (disk u) = vdisk_lock (disk s)"
proof -
  let ?t = "s\<lparr>disk := (disk s)\<lparr>free := clear [i, j, k] (free (disk s))\<rparr>\<rparr>"
  have "{i, j, k} \<subseteq> {..<NUM P}" using assms(1,5) by (auto simp: marked_def vd_ok_def)
  then have ok: "vd_ok P (disk ?t)" "wake_ready ?t" "{i, j, k} \<subseteq> {..<NUM P} - free_set (disk ?t)"
    using assms(1,2) by (auto simp: vd_ok_def)
  note r = request_posted [OF ok(1) assms(4) ok(3), where b = b and w = w and sector = sector and B = B]
  show "vd_ok P (disk u)" "vdisk_lock (disk u) = vdisk_lock (disk s)" using r(2,4) by (simp_all add: u_def)
  show "wake_ready u" unfolding u_def by (rule calm_ready [OF calm_truncate [OF request_frame(1)] ok(2)])
  show "chain P (disk u) [i, j, k]" unfolding u_def
    using posted_chain [OF r(1) assms(3)] assms(1) by (simp add: vd_ok_def)
  show "free_set (disk u) = free_set (disk s) - {i, j, k}" using r(3) by (auto simp: u_def)
  show "infos (disk u) ! i = \<lparr>i_b = Some b, i_status = 0xff\<rparr>" using r(1) by (simp add: u_def posted_def)
  show "\<And>m. m \<noteq> i \<Longrightarrow> infos (disk u) ! m = infos (disk s) ! m" "used (disk u) = used (disk s)" "used_idx (disk u) = used_idx (disk s)"
    by (simp_all add: u_def request_others)
qed

lemma served_alone:
  assumes "vd_ok P (disk s)" "wake_ready s" "queue_ok P" "i < NUM P" "infos (disk s) ! i = \<lparr>i_b = Some b, i_status = 0xff\<rparr>" "valid_ref b"
    and "u_idx (used (disk s)) = used_idx (disk s)" "available (vdisk_lock (disk s)) \<noteq> 0"
    and u_def: "u = device_serves P i b bytes s"
  shows "\<exists>t. virtio_disk_intr P B u = Inr t \<and> wake_ready u \<and> wake_ready t \<and> vd_ok P (disk t)
    \<and> desc (disk t) = desc (disk s) \<and> free (disk t) = free (disk s) \<and> handled2disk (get_buf b t) = 0"
proof -
  note d = serves_frame [where P = P and i = i and b = b and bytes = bytes and s = s]
  have ok: "vd_ok P (disk u)" "wake_ready u" "available (vdisk_lock (disk u)) \<noteq> 0"
    using assms(1,8) calm_ready [OF calm_truncate [OF d(3)] assms(2)] by (simp_all add: u_def d(1) vd_ok_def)
  have e: "finished P (disk s) = []" using assms(7) by (simp add: finished_def)
  have "finished P (disk u) = finished P (disk s) @ [i]"
    by (rule finished_serve [OF assms(1) _ assms(4)]) (use assms(3,4) e in \<open>simp_all add: u_def d(1) queue_ok_def\<close>)
  then have f: "finished P (disk u) = [i]" by (simp add: e)
  have inf: "infos (disk u) ! i = \<lparr>i_b = Some b, i_status = 0\<rparr>"
    using assms(1,4,5) by (simp add: u_def d(1) vd_ok_def)
  then have "finished_ok P u" "b \<in> done_bufs P (disk u)"
    using assms(4,6) by (simp_all add: finished_ok_def done_bufs_def f)
  with intr_ok [OF ok(1,2) _ ok(3), of B] obtain t where t: "virtio_disk_intr P B u = Inr t" "calm u t"
    "disk t = (disk u)\<lparr>used_idx := u_idx (used (disk u)), vdisk_lock := \<lparr>available = 1\<rparr>\<rparr>" "handled2disk (get_buf b t) = 0"
    by auto
  then show ?thesis using ok calm_ready [OF t(2) ok(2)] by (simp add: u_def d(1) vd_ok_def)
qed

text \<open>
  C6: what happens when two requests for one buffer are in flight. From every start there is a run of
  two posts for one buffer, the service of the first and the interrupt, after which the caller of
  the second sees the buffer as no longer with the device although its request is still posted,
  and gets through giving back its descriptors: the device is left with a chain of descriptors
  that the driver hands out again.
\<close>

theorem shared_buffer_unsafe:
  fixes s :: "('d, 'a) disk_mach_scheme" and B :: "(u32, 'd) bus"
  assumes "vstart P s" "wake_ready s" "queue_ok P" "6 \<le> NUM P" "valid_ref b"
  shows "\<exists>(t :: ('d, 'a) disk_mach_scheme) fl i f u. vreachable False P B (t, fl) \<and> fl i = Some f \<and> fl_buf f = b \<and> fl_phase f = Posted
    \<and> handled2disk (get_buf b t) \<noteq> 1 \<and> reap P i t = Inr u \<and> members i f \<subseteq> free_set (disk u)"
proof -
  have S: "vd_ok P (disk s)" "free_set (disk s) = {..<NUM P}" "u_idx (used (disk s)) = used_idx (disk s)"
    "available (vdisk_lock (disk s)) \<noteq> 0" "flags_ok P" using assms(1,3) by (simp_all add: vstart_def queue_ok_def)
  from vstart_alloc [OF S(1) assms(2)] S(2) assms(4) obtain i j k t where
    1: "alloc3_desc P s = Inr (0, [int i, int j, int k], t)" "t = s\<lparr>disk := (disk s)\<lparr>free := clear [i, j, k] (free (disk s))\<rparr>\<rparr>"
      "distinct [i, j, k]" "{i, j, k} \<subseteq> free_set (disk s)" by auto
  let ?s1 = "request P B b False 0 i j k t" and ?f1 = "\<lparr>fl_mid = j, fl_last = k, fl_buf = b, fl_phase = Posted\<rparr>"
  note q1 = requested [where B = B and b = b and w = False and sector = 0, OF S(1) assms(2) S(5) 1(3,4) refl, folded 1(2)]
  have "card (free_set (disk s) - {i, j, k}) = card (free_set (disk s)) - card {i, j, k}"
    using 1(4) by (intro card_Diff_subset) auto
  moreover have "card {i, j, k} = 3" using 1(3) by simp
  ultimately have "3 \<le> card (free_set (disk ?s1))" using q1(4) S(2) assms(4) by simp
  from vstart_alloc [OF q1(1,2) this] obtain i' j' k' t' where
    2: "alloc3_desc P ?s1 = Inr (0, [int i', int j', int k'], t')" "t' = ?s1\<lparr>disk := (disk ?s1)\<lparr>free := clear [i', j', k'] (free (disk ?s1))\<rparr>\<rparr>"
      "distinct [i', j', k']" "{i', j', k'} \<subseteq> free_set (disk ?s1)" by auto
  let ?s2 = "request P B b False 0 i' j' k' t'" and ?f2 = "\<lparr>fl_mid = j', fl_last = k', fl_buf = b, fl_phase = Posted\<rparr>"
  note q2 = requested [where B = B and b = b and w = False and sector = 0, OF q1(1,2) S(5) 2(3,4) refl, folded 2(2)]
  have ne: "i \<noteq> i'" "i < NUM P" using 1(4) 2(4) q1(4) S(2) by auto
  have inf: "infos (disk ?s2) ! i = \<lparr>i_b = Some b, i_status = 0xff\<rparr>" using q2(6) [OF ne(1)] q1(5) by simp
  have idx: "u_idx (used (disk ?s2)) = used_idx (disk ?s2)" "available (vdisk_lock (disk ?s2)) \<noteq> 0"
    using q1(7-9) q2(7-9) S(3,4) by simp_all
  let ?s3 = "device_serves P i b [] ?s2"
  from served_alone [where B = B and bytes = "[]", OF q2(1,2) assms(3) ne(2) inf assms(5) idx refl] obtain v where
    v: "virtio_disk_intr P B ?s3 = Inr v" "wake_ready ?s3" "wake_ready v" "vd_ok P (disk v)" "desc (disk v) = desc (disk ?s2)"
      "free (disk v) = free (disk ?s2)" "handled2disk (get_buf b v) = 0" by blast
  let ?fl = "[i \<mapsto> ?f1, i' \<mapsto> ?f2]" and ?g = "?f1\<lparr>fl_phase := Served\<rparr>"
  have "vreachable False P B (s, Map.empty)" using assms(1) by (rule vreachable.start)
  then have "vreachable False P B (?s1, [i \<mapsto> ?f1])" by (rule vreachable.step) (rule vstep.post [OF 1(1) assms(5)], simp)
  then have "vreachable False P B (?s2, ?fl)" by (rule vreachable.step) (rule vstep.post [OF 2(1) assms(5)], simp)
  moreover have "vstep False P B (?s2, ?fl) (device_serves P i (fl_buf ?f1) [] ?s2, ?fl(i \<mapsto> ?g))"
    by (rule vstep.serve) (simp_all add: ne(1))
  ultimately have "vreachable False P B (?s3, ?fl(i \<mapsto> ?g))" by (simp add: vreachable.step)
  then have r: "vreachable False P B (v, map_option looked_at \<circ> ?fl(i \<mapsto> ?g))"
    by (rule vreachable.step) (rule vstep.intr [OF v(2,1)])
  let ?v = "v\<lparr>disk := (disk v)\<lparr>infos := (infos (disk v))[i' := (infos (disk v) ! i')\<lparr>i_b := None\<rparr>]\<rparr>\<rparr>"
  have "chain P (disk ?v) [i', j', k'] = chain P (disk ?s2) [i', j', k']" by (rule chain_cong) (simp_all add: v(5,6))
  then have ch: "chain P (disk ?v) (i' # [j', k'])" using q2(3) by simp
  have "vd_ok P (disk ?v)" "wake_ready ?v" using v(3,4) by (simp_all add: vd_ok_def)
  from free_chain_ok [OF this ch 2(3)] obtain u where "reap P i' v = Inr u" "{i', j', k'} \<subseteq> free_set (disk u)"
    by (auto simp: reap_def)
  let ?h = "map_option looked_at \<circ> ?fl(i \<mapsto> ?g)"
  have "?h i' = Some ?f2" "members i' ?f2 = {i', j', k'}" using ne(1) by (simp_all add: looked_at_def members_def)
  with r v(7) \<open>reap P i' v = Inr u\<close> \<open>{i', j', k'} \<subseteq> free_set (disk u)\<close> have
    "vreachable False P B (v, ?h) \<and> ?h i' = Some ?f2 \<and> fl_buf ?f2 = b \<and> fl_phase ?f2 = Posted
     \<and> handled2disk (get_buf b v) \<noteq> 1 \<and> reap P i' v = Inr u \<and> members i' ?f2 \<subseteq> free_set (disk u)" by simp
  then show ?thesis by blast
qed

section \<open>Concrete runs\<close>

lemma demo_vstart: "vstart demo_virtio demo_system" "queue_ok demo_virtio" "wake_ready demo_system"
  using demo_system_ok demo_call_ok(1,2)
  by (simp_all add: vstart_def may_call_def queue_ok_def) (simp_all add: demo_disk_def demo_virtio_def)


theorem shared_buffer_unsafe_witness:
  "\<exists>(t :: unit disk_mach) fl i f u. vreachable False demo_virtio demo_ports (t, fl) \<and> fl i = Some f \<and> fl_phase f = Posted
    \<and> reap demo_virtio i t = Inr u \<and> members i f \<subseteq> free_set (disk u)"
proof -
  have "6 \<le> NUM demo_virtio" by (simp add: demo_virtio_def)
  from shared_buffer_unsafe [OF demo_vstart(1,3,2) this, of Head demo_ports] show ?thesis by simp blast
qed

end
