(* ===== verification/Spec2Isabelle.thy ===== *)
theory Spec2Isabelle
  imports Vm Proc Sleeplock Log Pipe Mkfs_Main Uart Boot Bio Virtio_Init Virtio_Sys
begin

text \<open>
  \<^bold>\<open>Raynix\<close>: a small RISC-V teaching kernel (\<open>kernel/\<close>) and the program that builds its file system
  image (\<open>mkfs/\<close>), both in C. This development models every routine of both and proves what they do.
  Where the code does not do what its comments say, the theorems state what it does.

  \<^bold>\<open>The parts and how they interact.\<close> Hart by hart, \<open>start.c\<close> leaves machine mode for \<open>main.c\<close>, which sets up
  the page allocator (\<open>kalloc.c\<close>), the kernel page table (\<open>vm.c\<close>) and the trap vector (\<open>trap.c\<close>). Spin locks
  (\<open>spinlock.c\<close>) guard everything shared and nest on a per-cpu counter; processes (\<open>proc.c\<close>) give up the
  cpu, sleep on a channel with a spin lock handed over, and are woken; sleep locks (\<open>sleeplock.c\<close>) are
  built on both. On top are the pipe (\<open>pipe.c\<close>), the log (\<open>log.c\<close>), the serial port and the console
  (\<open>uart.c\<close>, \<open>console.c\<close>), and the disk: the virtio driver (\<open>virtio_disk.c\<close>) and the buffer cache (\<open>bio.c\<close>).

  \<^bold>\<open>Theories.\<close>
  \<^item> \<open>Prelude\<close>: integer types as words, faults (\<open>Diverges\<close>, \<open>OutOfBounds\<close>, \<open>NullDeref\<close>, \<open>Panic\<close>), sequencing of
    routines that may fault, loops, byte memory.
  \<^item> \<open>Memlayout\<close>: the constants and macros of \<open>memlayout.h\<close> and \<open>risc_v.h\<close>. \<open>RiscV\<close>: a hart's registers, the
    accessors of \<open>risc_v.c\<close>, and devices as a bus with reads and writes that change a device state.
  \<^item> \<open>Tools\<close>: \<open>set_memory\<close> and \<open>memmove\<close> of \<open>tools.c\<close>. \<open>Proc_Types\<close>: the structures of \<open>proc.h\<close>, \<open>spinlock.h\<close> and
    the machine state \<open>mach\<close> (registers of this hart, \<open>cpus\<close>, \<open>procs\<close>), which every component extends.
  \<^item> \<open>Spinlock\<close>: \<open>spinlock.c\<close>, for one hart by itself, and as a step relation of eight harts on one lock with
    rule induction over the reachable states; a hart that moves alone there computes exactly the
    sequential \<open>acquire\<close> and \<open>release\<close>. \<open>Kalloc\<close>: the free list, kept in the pages themselves, against
    a list of pages (locale \<open>page_allocator\<close>). \<open>Vm\<close>: the three-level page table against a map from
    virtual pages to entries, copying between address spaces, the kernel's own table.
  \<^item> \<open>Proc\<close>: scheduler, \<open>give_up\<close>, \<open>sleep\<close>, \<open>wakeup\<close>. The locale \<open>lock_place\<close> says where the lock handed to
    \<open>sleep\<close> lives; it is interpreted for the log, the pipe and the disk. \<open>Sleeplock\<close>: \<open>sleeplock.c\<close>, with the
    locale \<open>sleeplock_place\<close>, interpreted in \<open>Bio\<close> for the lock of each buffer. \<open>Log\<close>, \<open>Pipe\<close>, \<open>Console\<close>, \<open>Uart\<close>:
    the files of these names.
  \<^item> \<open>Trap\<close>: \<open>trap.c\<close>, up to the jump to user space. \<open>Boot\<close>: \<open>start.c\<close> and \<open>main.c\<close>.
  \<^item> \<open>Buf\<close>: \<open>struct buf\<close> and the globals of \<open>bio.c\<close>. \<open>Virtio_Disk\<close>: the definitions of \<open>virtio_disk.c\<close>; \<open>Virtio_Queue\<close>:
    conservation of descriptors and the interrupt handler; \<open>Virtio_Rw\<close>: a request up to the switch away
    from its caller; \<open>Virtio_Init\<close>: the set-up, against the laws of a virtio-mmio device; \<open>Virtio_Sys\<close>: callers, interrupt handler and device as a state machine. \<open>Bio\<close>: the buffer cache.
  \<^item> \<open>Mkfs_Disk\<close>, \<open>Mkfs\<close>, \<open>Mkfs_Main\<close>: \<open>mkfs.c\<close>, from sectors and inodes through files to the whole image (the
    locale \<open>block_device\<close> is the sector interface).

  \<^bold>\<open>How C is modelled.\<close> A structure is a record, a global variable a field of the state, a routine a function
  that returns the new state or a fault. Integers are words of their C width, so arithmetic wraps.
  A pointer to a lock is a pair of a reader and a writer of the state, a pointer to a buffer a
  reference, an address a 64-bit word where the code computes with it. A null or indeterminate
  pointer that is followed is \<open>NullDeref\<close>, an index past an array \<open>OutOfBounds\<close>.

  A loop is recursion, or \<open>loop_res\<close>, whose value is \<open>Diverges\<close> exactly when the loop never ends; no fuel is
  used. A theorem that something returns says so (\<open>\<exists>t. f s = Inr t\<close>), and one that it hangs says
  \<open>= Inl Diverges\<close>. Only the endless loop of \<open>scheduler\<close> is given by its first \<open>n\<close> rounds, for every \<open>n\<close>.

  The components run one at a time on one hart: during a call of \<open>acquire\<close> nobody else releases the
  lock, so \<open>Diverges\<close> from a held lock is to be read as "not before somebody else releases it". Where
  several parties matter there is a step relation: \<open>Spinlock\<close> for harts on one lock, \<open>Virtio_Sys\<close> for the disk.

  While a process is switched out the rest of the system acts; that is a parameter \<open>resume\<close> from states
  to states. No theorem assumes that the scheduler, \<open>wakeup\<close> or the interrupt handler bring a sleeper
  back: \<open>wakeup\<close> wakes nobody and the scheduler records no process, so a theorem about a routine that
  sleeps describes the state at the switch and what is left to do, for every \<open>resume\<close>. Devices are
  buses. Headers that are not in the repository (\<open>virtio.h\<close>, \<open>fs.h\<close> of \<open>mkfs\<close>, \<open>param.h\<close>) and the calls of the
  host \<open>mkfs\<close> runs on are records of parameters, with the hypotheses on them named (\<open>layout_ok\<close>, \<open>host_ok\<close>,
  \<open>flags_ok\<close>, \<open>queue_ok\<close>, \<open>vd_ok\<close>, \<open>mmio_device\<close>); each theorem with such a hypothesis is applied at concrete values.
  \<open>Virtio_Sys\<close> has a parameter \<open>own\<close>, whether callers keep two requests for one buffer apart; both answers
  are followed up.

  \<^bold>\<open>What is shown.\<close>
  \<^item> Memory: \<open>memmove\<close> equals a copy of the source read first; the allocator is a stack of pages; mapping
    then translating round-trips and disturbs no other address; \<open>copy_in\<close> copies, \<open>copy_out\<close> copies the
    wrong way; what the page counts of \<open>vm.c\<close> and \<open>proc.c\<close> really map.
  \<^item> Locks: mutual exclusion of the spin lock, and that it is not lost, under every interleaving and
    whatever number a hart takes itself to have; the nesting counter; sleep locks
    grant what is held and refuse what is free.
  \<^item> Processes: that the scheduler takes the first runnable entry of the table, what it, \<open>give_up\<close> and \<open>sleep\<close>
    save, lock and switch to; \<open>wakeup\<close> wakes nobody.
  \<^item> Disk: descriptors are taken in threes or not at all, freeing a chain ends on every table, the interrupt
    handler completes exactly the finished requests, a request is posted as the device expects it and
    its caller put to sleep, the set-up panics on the first failed check or leaves a usable queue;
    in every state that callers, interrupt handler and device reach together no descriptor is lost
    or shared, if no two requests are for one buffer, and otherwise a bad state is reachable.
  \<^item> Cache: \<open>binit\<close> builds the ring; \<open>bget\<close> against the choice it should make; \<open>bread\<close> case by case through the
    cache and the driver; \<open>brelease\<close> and the two lists; after \<open>binit\<close> no block can be read.
  \<^item> Traps and boot: what user space is resumed with; how each hart gets to \<open>main\<close>, and that nobody gets
    through it, because \<open>kalloc_init\<close> overruns the memory (and before that the kernel itself). Serial
    port, pipe, log: what is sent, stored, overwritten and lost, and when a caller waits.
  \<^item> \<open>mkfs\<close>: inode round trip, the bitmap, appending refines appending to a list of bytes, and the image as a
    whole holds every file, one directory entry each, and no block twice.

  \<^bold>\<open>Readings of ill-formed code.\<close> Several files do not compile. Each theory says at its top how it reads the
  names that are not declared and the members accessed with the wrong operator; no other repair is made
  but these.
  \<^item> \<open>write_mscratch\<close> names a register \<open>mscartch\<close>, which no assembler knows; it is read as \<open>mscratch\<close>.
  \<^item> \<open>read_sstatus\<close> is defined twice; the definition that assembles is taken. \<open>read_mstatus\<close> and
    \<open>write_mstatus\<close> are defined twice alike.
  \<^item> \<open>read_tp\<close> returns an uninitialised register. Its values are an arbitrary sequence, one for each call;
    a theorem that needs calls to agree has the hypothesis \<open>steady\<close> (in \<open>id_ok\<close>, \<open>hart_ok\<close>, \<open>traps_in\<close>), and none
    assumes that they are the number of the hart, unless it says so.

  \<^bold>\<open>Memory.\<close> Byte memory is total; where the code goes to an address with no memory behind it the model
  has a fault: \<open>kalloc\<close> with an empty list fills the null page, \<open>pipe_read\<close> uses a character as an address,
  \<open>kalloc_init\<close> leaves the pages between the end of the kernel image (\<open>kend\<close>) and \<open>PHYSTOP\<close>. What runs after code
  has been overwritten is not modelled.

  \<^bold>\<open>Not modelled.\<close> \<open>exec.c\<close> (only includes), \<open>fs.c\<close> and \<open>fs.h\<close> of the kernel (an empty function and a structure
  nobody uses), headers with declarations only, the assembly (\<open>entry.S\<close>, \<open>swtch.S\<close>, \<open>trampoline.S\<close>, \<open>ktraph.S\<close>,
  \<open>ttraph.S\<close>, \<open>initcode.S\<close>), whose entry points are addresses and whose context switch is an exchange of saved
  registers, and the build. Memory ordering of other observers (\<open>__sync_synchronize\<close>, \<open>sfence.vma\<close>) has no
  effect on the sequential state.
\<close>

end
